(* ===== verification/Prelude_C.thy ===== *)
theory Prelude_C
  imports Main "HOL-Library.Word"
begin

text \<open>
  Shared vocabulary of the development: the machine types of the C sources, the faults a C
  program can run into (kept as values, so that an undefined access is a branch of the model and
  never an unspecified HOL value), the typed heaps, byte buffers with bounds checks, and a small
  calculus of total correctness: \<open>ok m P\<close> says that the call \<open>m\<close> returns, without a fault, a
  result that satisfies \<open>P\<close>.
\<close>

named_theorems wp \<open>rules that reduce \<open>ok\<close> of a compound call to \<open>ok\<close> of its parts\<close>

section \<open>Machine types\<close>

type_synonym byte = "8 word"
type_synonym u16 = "16 word"
type_synonym u32 = "32 word"
type_synonym u64 = "64 word"

unbundle bit_operations_syntax

text \<open>
  Words in the memory of a little-endian host (\<open>le16\<close>, \<open>le32\<close>, \<open>le64\<close>, and back) and in network
  order (\<open>be16\<close>, \<open>be32\<close>).
\<close>

definition le16 :: "u16 \<Rightarrow> byte list" where
  "le16 x = [ucast x, ucast (drop_bit 8 x)]"

definition le32 :: "u32 \<Rightarrow> byte list" where
  "le32 x = [ucast x, ucast (drop_bit 8 x), ucast (drop_bit 16 x), ucast (drop_bit 24 x)]"

definition of_le16 :: "byte \<Rightarrow> byte \<Rightarrow> u16" where
  "of_le16 a b = ucast a OR push_bit 8 (ucast b)"

definition of_le32 :: "byte \<Rightarrow> byte \<Rightarrow> byte \<Rightarrow> byte \<Rightarrow> u32" where
  "of_le32 a b c d = ucast a OR push_bit 8 (ucast b) OR push_bit 16 (ucast c) OR push_bit 24 (ucast d)"

definition le64 :: "u64 \<Rightarrow> byte list" where
  "le64 x = le32 (ucast x) @ le32 (ucast (drop_bit 32 x))"

definition be16 :: "u16 \<Rightarrow> byte list" where
  "be16 x = [ucast (drop_bit 8 x), ucast x]"

definition be32 :: "u32 \<Rightarrow> byte list" where
  "be32 x = [ucast (drop_bit 24 x), ucast (drop_bit 16 x), ucast (drop_bit 8 x), ucast x]"

lemma length_words [simp]:
  "length (le16 x) = 2" "length (le32 y) = 4" "length (be16 x) = 2" "length (be32 y) = 4"
  by (simp_all add: le16_def le32_def be16_def be32_def)

lemma of_le16_bytes [simp]:
  "ucast (of_le16 a b) = a"
  "ucast (drop_bit 8 (of_le16 a b)) = b"
  by (rule bit_word_eqI; auto simp: of_le16_def bit_simps dest: bit_imp_le_length)+

lemma of_le32_bytes [simp]:
  "ucast (of_le32 a b c d) = a"
  "ucast (drop_bit 8 (of_le32 a b c d)) = b"
  "ucast (drop_bit 16 (of_le32 a b c d)) = c"
  "ucast (drop_bit 24 (of_le32 a b c d)) = d"
  by (rule bit_word_eqI; auto simp: of_le32_def bit_simps dest: bit_imp_le_length)+

lemma of_le16_le16 [simp]: "of_le16 (ucast x) (ucast (drop_bit 8 x)) = x"
  by (rule bit_word_eqI) (auto simp: of_le16_def bit_simps)

lemma of_le32_le32 [simp]:
  "of_le32 (ucast x) (ucast (drop_bit 8 x)) (ucast (drop_bit 16 x)) (ucast (drop_bit 24 x)) = x"
proof (rule bit_word_eqI)
  fix n assume "n < LENGTH(32)"
  then consider "n < 8" | "8 \<le> n" "n < 16" | "16 \<le> n" "n < 24" | "24 \<le> n" "n < 32"
    by fastforce
  then show "bit (of_le32 (ucast x) (ucast (drop_bit 8 x)) (ucast (drop_bit 16 x)) (ucast (drop_bit 24 x))) n
      = bit x n"
    by cases (auto simp: of_le32_def bit_simps)
qed

section \<open>Faults and results\<close>

datatype fault =
    Null_Deref
  | Use_After_Free
  | Double_Free
  | Out_Of_Bounds
  | Uninitialised
  | Signed_Overflow
  | Assert_Failed
  | Diverges
  | Exited int

type_synonym 'a res = "fault + 'a"

definition rbind :: "'a res \<Rightarrow> ('a \<Rightarrow> 'b res) \<Rightarrow> 'b res" where
  "rbind m f = (case m of Inl e \<Rightarrow> Inl e | Inr x \<Rightarrow> f x)"

definition ok :: "'a res \<Rightarrow> ('a \<Rightarrow> bool) \<Rightarrow> bool" where
  "ok m P = (case m of Inl e \<Rightarrow> False | Inr x \<Rightarrow> P x)"

lemma rbind_simps [simp]:
  "rbind (Inl e) f = Inl e"
  "rbind (Inr x) f = f x"
  by (simp_all add: rbind_def)

lemma rbind_Inr_iff: "rbind m f = Inr y \<longleftrightarrow> (\<exists>x. m = Inr x \<and> f x = Inr y)"
  by (cases m) auto

lemma rbind_assoc: "rbind (rbind m f) g = rbind m (\<lambda>x. rbind (f x) g)"
  by (cases m) auto

lemma rbind_cong [fundef_cong]:
  "m = m' \<Longrightarrow> (\<And>x. m' = Inr x \<Longrightarrow> f x = f' x) \<Longrightarrow> rbind m f = rbind m' f'"
  by (cases m') auto

lemma ok_simps [simp]:
  "ok (Inr x) P = P x"
  "\<not> ok (Inl e) P"
  by (simp_all add: ok_def)

lemma ok_iff: "ok m P \<longleftrightarrow> (\<exists>x. m = Inr x \<and> P x)"
  by (cases m) auto

lemma ok_pairE: "ok m (\<lambda>(x, y). P x y) \<Longrightarrow> (\<And>x y. m = Inr (x, y) \<Longrightarrow> P x y \<Longrightarrow> Q) \<Longrightarrow> Q"
  by (auto simp: ok_iff)

lemma ok_mono: "ok m P \<Longrightarrow> (\<And>x. P x \<Longrightarrow> Q x) \<Longrightarrow> ok m Q"
  by (auto simp: ok_iff)

lemma ok_rbind [wp]: "ok m (\<lambda>x. ok (f x) P) \<Longrightarrow> ok (rbind m f) P"
  by (auto simp: ok_iff)

lemma ok_rbind_iff: "ok (rbind m f) P \<longleftrightarrow> ok m (\<lambda>x. ok (f x) P)"
  by (auto simp: ok_iff rbind_Inr_iff)

lemma ok_Inr [wp]: "P x \<Longrightarrow> ok (Inr x) P"
  by simp

lemma ok_if [wp]: "(c \<Longrightarrow> ok m P) \<Longrightarrow> (\<not> c \<Longrightarrow> ok m' P) \<Longrightarrow> ok (if c then m else m') P"
  by simp

section \<open>Typed heaps\<close>

text \<open>
  A pointer is \<open>None\<close> (NULL) or \<open>Some\<close> address; a heap maps the addresses that are allocated to
  objects. Reading through NULL or through an address that is not allocated is a fault.
\<close>

type_synonym 'a heap = "nat \<rightharpoonup> 'a"

definition deref :: "'a heap \<Rightarrow> nat option \<Rightarrow> 'a res" where
  "deref h p = (case p of None \<Rightarrow> Inl Null_Deref
     | Some a \<Rightarrow> (case h a of None \<Rightarrow> Inl Use_After_Free | Some x \<Rightarrow> Inr x))"

lemma deref_simps [simp]:
  "deref h None = Inl Null_Deref"
  "h a = Some x \<Longrightarrow> deref h (Some a) = Inr x"
  "h a = None \<Longrightarrow> deref h (Some a) = Inl Use_After_Free"
  by (simp_all add: deref_def)

lemma deref_Inr_iff: "deref h p = Inr x \<longleftrightarrow> (\<exists>a. p = Some a \<and> h a = Some x)"
  by (auto simp: deref_def split: option.splits)

lemma ok_deref [wp]: "h a = Some x \<Longrightarrow> P x \<Longrightarrow> ok (deref h (Some a)) P"
  by simp

definition hfree :: "'a heap \<Rightarrow> nat option \<Rightarrow> 'a heap res" where
  "hfree h p = (case p of None \<Rightarrow> Inr h
     | Some a \<Rightarrow> (case h a of None \<Rightarrow> Inl Double_Free | Some x \<Rightarrow> Inr (h(a := None))))"

lemma hfree_simps [simp]:
  "hfree h None = Inr h"
  "h a = Some x \<Longrightarrow> hfree h (Some a) = Inr (h(a := None))"
  "h a = None \<Longrightarrow> hfree h (Some a) = Inl Double_Free"
  by (simp_all add: hfree_def)

text \<open>
  A pointer to an object that only one variable or field refers to carries the object: it is NULL,
  or its object has been freed (the pointer dangles), or it holds the object.
\<close>

datatype 'a cptr = Null | Freed | Obj 'a

definition obj :: "'a cptr \<Rightarrow> 'a res" where
  "obj p = (case p of Null \<Rightarrow> Inl Null_Deref | Freed \<Rightarrow> Inl Use_After_Free | Obj x \<Rightarrow> Inr x)"

lemma obj_simps [simp]:
  "obj Null = Inl Null_Deref"
  "obj Freed = Inl Use_After_Free"
  "obj (Obj x) = Inr x"
  by (simp_all add: obj_def)

section \<open>Byte buffers\<close>

text \<open>
  A buffer is the list of its bytes, its length the capacity. \<open>buf_read b off n\<close> and
  \<open>buf_write b off src\<close> are \<open>memcpy\<close> out of and into it.
\<close>

definition buf_read :: "'a list \<Rightarrow> nat \<Rightarrow> nat \<Rightarrow> 'a list res" where
  "buf_read b off k = (if off + k \<le> length b then Inr (take k (drop off b)) else Inl Out_Of_Bounds)"

definition buf_write :: "'a list \<Rightarrow> nat \<Rightarrow> 'a list \<Rightarrow> 'a list res" where
  "buf_write b off src =
     (if off + length src \<le> length b then Inr (take off b @ src @ drop (off + length src) b)
      else Inl Out_Of_Bounds)"

lemma ok_buf_read [wp]: "off + k \<le> length b \<Longrightarrow> P (take k (drop off b)) \<Longrightarrow> ok (buf_read b off k) P"
  by (simp add: buf_read_def)

lemma ok_buf_write [wp]:
  "off + length src \<le> length b \<Longrightarrow> P (take off b @ src @ drop (off + length src) b) \<Longrightarrow>
   ok (buf_write b off src) P"
  by (simp add: buf_write_def)

lemma length_buf_write: "buf_write b off src = Inr b' \<Longrightarrow> length b' = length b"
  by (auto simp: buf_write_def split: if_splits)

definition bget :: "'a list \<Rightarrow> nat \<Rightarrow> 'a res" where
  "bget b i = (if i < length b then Inr (b ! i) else Inl Out_Of_Bounds)"

definition bset :: "'a list \<Rightarrow> nat \<Rightarrow> 'a \<Rightarrow> 'a list res" where
  "bset b i v = (if i < length b then Inr (b[i := v]) else Inl Out_Of_Bounds)"

text \<open>
  What ISO C leaves open and an executable still decides: the contents of memory that nothing has
  written yet (a stack buffer, a block from \<open>malloc\<close>), the bytes that lie behind the string literal
  \<open>""\<close>, and how many bytes behind a stack array and behind a heap block a write may touch without
  hitting anything that is used. ISO C guarantees no such slack: \<open>frame_slack\<close> and \<open>heap_slack\<close> are 0
  there. The definitions that overrun a buffer take the machine as an argument.
\<close>

record machine =
  stack_byte :: "nat \<Rightarrow> byte"
  heap_byte :: "nat \<Rightarrow> byte"
  literal_tail :: "byte list"
  frame_slack :: nat
  heap_slack :: nat

section \<open>Strings of C\<close>

text \<open>
  A C string is the bytes before the first NUL. \<open>cstr\<close> turns an Isabelle string literal into
  its bytes.
\<close>

definition cstr :: "string \<Rightarrow> byte list" where
  "cstr s = map (\<lambda>c. word_of_nat (of_char c)) s"

definition c_string :: "byte list \<Rightarrow> byte list" where
  "c_string b = takeWhile (\<lambda>x. x \<noteq> 0) b"

lemma c_string_no_nul: "0 \<notin> set s \<Longrightarrow> c_string (s @ 0 # t) = s"
  by (induction s) (auto simp: c_string_def)

lemma nul_notin_c_string: "0 \<notin> set (c_string b)"
  using set_takeWhileD [of 0 "\<lambda>x. x \<noteq> 0" b] by (auto simp: c_string_def)

lemma length_c_string: "length (c_string b) \<le> length b"
  by (simp add: c_string_def length_takeWhile_le)

section \<open>Arithmetic and lists\<close>

lemma div_mod_add_short:
  fixes a b c :: nat
  assumes "a mod c + b < c"
  shows "(a + b) div c = a div c" "(a + b) mod c = a mod c + b"
proof -
  have "a + b = (a mod c + b) + (a div c) * c" by simp
  moreover have "((a mod c + b) + (a div c) * c) div c = a div c"
    using assms by (subst div_mult_self1) auto
  moreover have "((a mod c + b) + (a div c) * c) mod c = a mod c + b"
    using assms by (subst mod_mult_self1) auto
  ultimately show "(a + b) div c = a div c" "(a + b) mod c = a mod c + b" by simp_all
qed

lemma div_mod_add_full:
  fixes a b c :: nat
  assumes "a mod c + b = c" "0 < c"
  shows "(a + b) div c = Suc (a div c)" "(a + b) mod c = 0" "c * Suc (a div c) = a + b"
proof -
  have *: "a + b = Suc (a div c) * c"
    using assms(1) by (metis add.commute add.left_commute mult_Suc mult_div_mod_eq mult.commute)
  then show "(a + b) div c = Suc (a div c)" "(a + b) mod c = 0" using assms(2) by simp_all
  show "c * Suc (a div c) = a + b" by (simp only: * mult.commute)
qed

lemma block_within: "i < a div c \<Longrightarrow> c * i + c \<le> (a :: nat)"
  by (metis Suc_leI mult_Suc_right add.commute mult_le_mono2 order_trans times_div_less_eq_dividend)


lemma concat_map_blocks:
  "concat (map (\<lambda>i. take k (drop (k * i) xs)) [0..<n]) = take (k * n) xs"
proof (induction n)
  case 0
  then show ?case by simp
next
  case (Suc n)
  have "k * Suc n = k * n + k" by simp
  then show ?case using Suc by (simp only: take_add) simp
qed

end
