(* ===== verification/Queue_C.thy ===== *)
theory Queue_C
  imports Prelude_C
begin

text \<open>
  The linked queue of \<open>queue.c\<close> and \<open>queue.h\<close>: nodes in a heap, a head and a tail pointer and a
  counter. A node belongs to one queue and to nobody else, so every queue carries the heap of its
  own nodes: \<open>q_cells\<close> holds the nodes that are allocated, \<open>q_brk\<close> is the next fresh address that
  \<open>malloc\<close> hands out (\<open>malloc\<close> succeeds). \<open>repr p xs\<close> is the abstraction: \<open>p\<close> points to a
  well-formed queue whose elements are \<open>xs\<close>, in order, with no node leaked. The locales \<open>fifo\<close> and
  \<open>fifo_iter\<close> are the contract the other components rely on, with the two queue loops of the
  clients (partition in place, remove the first match) proved once.
\<close>

section \<open>Data\<close>

record 'a node =
  node_data :: 'a
  node_next :: "nat option"

record 'a queue =
  q_head :: "nat option"
  q_tail :: "nat option"
  q_n :: int
  q_cells :: "'a node heap"
  q_brk :: nat

type_synonym 'a qptr = "'a queue cptr"

section \<open>Operations\<close>

definition init_queue :: "'a qptr" where
  "init_queue = Obj \<lparr>q_head = None, q_tail = None, q_n = 0, q_cells = Map.empty, q_brk = 0\<rparr>"

definition enqueue :: "'a qptr \<Rightarrow> 'a \<Rightarrow> 'a qptr res" where
  "enqueue queue1 x = rbind (obj queue1) (\<lambda>q.
     let node1 = q_brk q;
         cells = (q_cells q)(node1 \<mapsto> \<lparr>node_data = x, node_next = None\<rparr>)
     in case q_tail q of
          None \<Rightarrow> Inr (Obj (q\<lparr>q_head := Some node1, q_tail := Some node1, q_n := q_n q + 1,
                            q_cells := cells, q_brk := Suc node1\<rparr>))
        | Some t \<Rightarrow> rbind (deref cells (Some t)) (\<lambda>last_node.
            Inr (Obj (q\<lparr>q_tail := Some node1, q_n := q_n q + 1,
                       q_cells := cells(t \<mapsto> last_node\<lparr>node_next := Some node1\<rparr>),
                       q_brk := Suc node1\<rparr>))))"

definition dequeue :: "'a qptr \<Rightarrow> ('a option \<times> 'a qptr) res" where
  "dequeue queue1 =
     (if queue1 = Null then Inr (None, Null)
      else rbind (obj queue1) (\<lambda>q.
        if q_n q \<le> 0 then Inr (None, queue1)
        else rbind (deref (q_cells q) (q_head q)) (\<lambda>head_node.
          let new_head = node_next head_node;
              new_tail = (if new_head = None then None else q_tail q)
          in rbind (hfree (q_cells q) (q_head q)) (\<lambda>cells.
            Inr (Some (node_data head_node),
                 Obj (q\<lparr>q_head := new_head, q_tail := new_tail, q_n := q_n q - 1,
                        q_cells := cells\<rparr>))))))"

definition is_empty :: "'a qptr \<Rightarrow> bool res" where
  "is_empty queue1 =
     (if queue1 = Null then Inr True else rbind (obj queue1) (\<lambda>q. Inr (q_n q \<le> 0)))"

text \<open>
  \<open>enqueue_all\<close> walks the source from its head, at most \<open>src->n\<close> nodes, and returns how many
  elements it copied.
\<close>

fun enqueue_all_loop :: "nat \<Rightarrow> 'a node heap \<Rightarrow> nat option \<Rightarrow> 'a qptr \<Rightarrow> (nat \<times> 'a qptr) res" where
  "enqueue_all_loop 0 cells cur dest = Inr (0, dest)"
| "enqueue_all_loop (Suc k) cells None dest = Inr (0, dest)"
| "enqueue_all_loop (Suc k) cells (Some a) dest =
     rbind (deref cells (Some a)) (\<lambda>nd.
     rbind (enqueue dest (node_data nd)) (\<lambda>dest'.
     rbind (enqueue_all_loop k cells (node_next nd) dest') (\<lambda>(i, dest'').
     Inr (Suc i, dest''))))"

definition enqueue_all :: "'a qptr \<Rightarrow> 'a qptr \<Rightarrow> (nat \<times> 'a qptr) res" where
  "enqueue_all dest src =
     (if dest = Null \<or> src = Null then Inr (0, dest)
      else rbind (is_empty src) (\<lambda>e. if e then Inr (0, dest)
      else rbind (obj src) (\<lambda>s. enqueue_all_loop (nat (q_n s)) (q_cells s) (q_head s) dest)))"

text \<open>
  \<open>free_queue\<close> passes every element to \<open>free\<close>; the model returns those pointers, in order, and
  the caller frees the objects. Each round lowers \<open>n\<close> by one, so \<open>n\<close> rounds are enough; a negative
  \<open>n\<close> would make the C loop run for ever.
\<close>

fun free_queue_loop :: "nat \<Rightarrow> 'a qptr \<Rightarrow> 'a option list res" where
  "free_queue_loop fuel queue1 = rbind (obj queue1) (\<lambda>q.
     if q_n q = 0 then Inr []
     else case fuel of
            0 \<Rightarrow> Inl Diverges
          | Suc k \<Rightarrow> rbind (dequeue queue1) (\<lambda>(x, queue1').
              rbind (free_queue_loop k queue1') (\<lambda>xs. Inr (x # xs))))"

definition free_queue :: "'a qptr \<Rightarrow> 'a option list res" where
  "free_queue queue1 = rbind (obj queue1) (\<lambda>q. free_queue_loop (nat (q_n q)) queue1)"

text \<open>
  The loop \<open>for (cur = q->head; cur; cur = cur->next)\<close> that the clients write: the elements it
  visits. A walk over more nodes than were ever allocated has met a node twice and never ends.
\<close>

fun walk :: "nat \<Rightarrow> 'a node heap \<Rightarrow> nat option \<Rightarrow> 'a list res" where
  "walk fuel cells None = Inr []"
| "walk 0 cells (Some a) = Inl Diverges"
| "walk (Suc k) cells (Some a) =
     rbind (deref cells (Some a)) (\<lambda>nd.
     rbind (walk k cells (node_next nd)) (\<lambda>xs. Inr (node_data nd # xs)))"

definition q_items :: "'a qptr \<Rightarrow> 'a list res" where
  "q_items queue1 = rbind (obj queue1) (\<lambda>q. walk (q_brk q) (q_cells q) (q_head q))"

text \<open>
  The same loop when it returns at the first element that passes a test; the test may look into the
  object the element points to.
\<close>

fun find_walk :: "nat \<Rightarrow> 'a node heap \<Rightarrow> ('a \<Rightarrow> bool res) \<Rightarrow> nat option \<Rightarrow> 'a option res" where
  "find_walk fuel cells test None = Inr None"
| "find_walk 0 cells test (Some a) = Inl Diverges"
| "find_walk (Suc k) cells test (Some a) =
     rbind (deref cells (Some a)) (\<lambda>nd.
     rbind (test (node_data nd)) (\<lambda>b.
     if b then Inr (Some (node_data nd)) else find_walk k cells test (node_next nd)))"

definition q_find :: "'a qptr \<Rightarrow> ('a \<Rightarrow> bool res) \<Rightarrow> 'a option res" where
  "q_find queue1 test = rbind (obj queue1) (\<lambda>q. find_walk (q_brk q) (q_cells q) test (q_head q))"

fun find_first :: "('a \<Rightarrow> bool res) \<Rightarrow> 'a list \<Rightarrow> 'a option res" where
  "find_first test [] = Inr None"
| "find_first test (x # xs) = rbind (test x) (\<lambda>b. if b then Inr (Some x) else find_first test xs)"

lemma find_first_pure:
  "(\<And>x. x \<in> set xs \<Longrightarrow> test x = Inr (P x)) \<Longrightarrow> find_first test xs = Inr (List.find P xs)"
  by (induction xs) auto

declare free_queue_loop.simps [simp del]

section \<open>Well-formed queues\<close>

fun qpath :: "'a node heap \<Rightarrow> nat option \<Rightarrow> nat list \<Rightarrow> 'a list \<Rightarrow> bool" where
  "qpath h p [] [] \<longleftrightarrow> p = None"
| "qpath h p (a # as) (x # xs) \<longleftrightarrow>
     p = Some a \<and> (\<exists>nxt. h a = Some \<lparr>node_data = x, node_next = nxt\<rparr> \<and> qpath h nxt as xs)"
| "qpath h p _ _ \<longleftrightarrow> False"

definition qrep :: "'a queue \<Rightarrow> nat list \<Rightarrow> 'a list \<Rightarrow> bool" where
  "qrep q as xs \<longleftrightarrow>
     qpath (q_cells q) (q_head q) as xs \<and> distinct as \<and>
     q_tail q = (if as = [] then None else Some (last as)) \<and>
     q_n q = int (length xs) \<and> (\<forall>a \<in> set as. a < q_brk q) \<and> dom (q_cells q) = set as"

definition repr :: "'a qptr \<Rightarrow> 'a list \<Rightarrow> bool" where
  "repr p xs \<longleftrightarrow> (\<exists>q as. p = Obj q \<and> qrep q as xs)"

lemma qpath_update: "a \<notin> set as \<Longrightarrow> qpath (h(a := v)) p as xs = qpath h p as xs"
  by (induction h p as xs rule: qpath.induct) auto

lemma qpath_snoc:
  assumes "qpath h p as xs" "distinct as" "as \<noteq> []" "b \<notin> set as" "h (last as) = Some nd"
  shows "qpath (h(b \<mapsto> \<lparr>node_data = x, node_next = None\<rparr>, last as \<mapsto> nd\<lparr>node_next := Some b\<rparr>))
           p (as @ [b]) (xs @ [x])"
  using assms
proof (induction h p as xs rule: qpath.induct)
  case (2 h p a as x' xs)
  show ?case
  proof (cases as)
    case Nil
    with 2 show ?thesis by (cases xs) auto
  next
    case (Cons c cs)
    with 2 have "last as \<noteq> a" "last as \<noteq> b" by auto
    with 2 Cons show ?thesis by auto
  qed
qed auto

lemma qpath_last: "qpath h p as xs \<Longrightarrow> as \<noteq> [] \<Longrightarrow> \<exists>nd. h (last as) = Some nd"
  by (induction h p as xs rule: qpath.induct) (auto split: if_splits)

lemma walk_qpath: "qpath h p as xs \<Longrightarrow> length as \<le> fuel \<Longrightarrow> walk fuel h p = Inr xs"
proof (induction h p as xs arbitrary: fuel rule: qpath.induct)
  case (2 h p a as x xs)
  then show ?case by (cases fuel) auto
qed auto

lemma find_walk_qpath:
  "qpath h p as xs \<Longrightarrow> length as \<le> fuel \<Longrightarrow> find_walk fuel h test p = find_first test xs"
proof (induction h p as xs arbitrary: fuel rule: qpath.induct)
  case (2 h p a as x xs)
  then show ?case by (cases fuel) (auto intro!: rbind_cong)
qed auto

lemma distinct_bounded_length:
  fixes as :: "nat list"
  assumes "distinct as" "\<forall>a \<in> set as. a < n"
  shows "length as \<le> n"
proof -
  from assms(2) have "set as \<subseteq> {..<n}" by auto
  then have "card (set as) \<le> n" using card_mono [of "{..<n}"] by simp
  with assms(1) show ?thesis by (simp add: distinct_card)
qed

section \<open>Every operation against the list it stands for\<close>

lemma repr_init: "repr init_queue []"
  by (simp add: repr_def init_queue_def qrep_def)

lemma qrep_enqueue:
  assumes "qrep q as xs"
  shows "ok (enqueue (Obj q) x) (\<lambda>p. repr p (xs @ [x]))"
proof (cases "as = []")
  case True
  with assms have "xs = []" by (cases xs) (auto simp: qrep_def)
  with True assms show ?thesis
    by (auto simp: enqueue_def qrep_def repr_def Let_def intro!: exI [of _ "[q_brk q]"])
next
  case False
  let ?b = "q_brk q" and ?t = "last as"
  from assms False have path: "qpath (q_cells q) (q_head q) as xs" and d: "distinct as"
    and tail: "q_tail q = Some ?t" and b: "?b \<notin> set as" and dom: "dom (q_cells q) = set as"
    by (auto simp: qrep_def)
  from path False obtain nd where nd: "q_cells q ?t = Some nd" using qpath_last by blast
  from False b have "?t \<noteq> ?b" by (metis last_in_set)
  have new: "qpath ((q_cells q)(?b \<mapsto> \<lparr>node_data = x, node_next = None\<rparr>, ?t \<mapsto> nd\<lparr>node_next := Some ?b\<rparr>))
      (q_head q) (as @ [?b]) (xs @ [x])"
    using qpath_snoc [OF path d False b nd] .
  have "enqueue (Obj q) x = Inr (Obj (q\<lparr>q_tail := Some ?b, q_n := q_n q + 1,
      q_cells := (q_cells q)(?b \<mapsto> \<lparr>node_data = x, node_next = None\<rparr>, ?t \<mapsto> nd\<lparr>node_next := Some ?b\<rparr>),
      q_brk := Suc ?b\<rparr>))"
    using tail nd \<open>?t \<noteq> ?b\<close> by (simp add: enqueue_def Let_def)
  moreover have "qrep (q\<lparr>q_tail := Some ?b, q_n := q_n q + 1,
      q_cells := (q_cells q)(?b \<mapsto> \<lparr>node_data = x, node_next = None\<rparr>, ?t \<mapsto> nd\<lparr>node_next := Some ?b\<rparr>),
      q_brk := Suc ?b\<rparr>) (as @ [?b]) (xs @ [x])"
    using new assms False by (auto simp: qrep_def)
  ultimately show ?thesis by (auto simp: repr_def)
qed

lemma repr_enqueue: "repr p xs \<Longrightarrow> ok (enqueue p x) (\<lambda>p'. repr p' (xs @ [x]))"
  using qrep_enqueue by (auto simp: repr_def)

lemma repr_dequeue_Nil: "repr p [] \<Longrightarrow> dequeue p = Inr (None, p)"
  by (auto simp: repr_def qrep_def dequeue_def)

lemma repr_dequeue_Cons:
  assumes "repr p (x # xs)"
  shows "ok (dequeue p) (\<lambda>(y, p'). y = Some x \<and> repr p' xs)"
proof -
  from assms obtain q as where p: "p = Obj q" and q: "qrep q as (x # xs)" by (auto simp: repr_def)
  then obtain a bs where as: "as = a # bs" by (cases as) (auto simp: qrep_def)
  with q obtain nxt where head: "q_head q = Some a"
    and cell: "q_cells q a = Some \<lparr>node_data = x, node_next = nxt\<rparr>"
    and rest: "qpath (q_cells q) nxt bs xs" and d: "a \<notin> set bs" "distinct bs"
    by (auto simp: qrep_def)
  from rest have nxt: "nxt = None \<longleftrightarrow> bs = []" by (cases bs; cases xs) auto
  have "dequeue p = Inr (Some x, Obj (q\<lparr>q_head := nxt,
      q_tail := (if nxt = None then None else q_tail q), q_n := q_n q - 1,
      q_cells := (q_cells q)(a := None)\<rparr>))"
    using p q head cell by (auto simp: dequeue_def Let_def qrep_def)
  moreover have "qrep (q\<lparr>q_head := nxt, q_tail := (if nxt = None then None else q_tail q),
      q_n := q_n q - 1, q_cells := (q_cells q)(a := None)\<rparr>) bs xs"
    using q as rest d nxt by (auto simp: qrep_def qpath_update)
  ultimately show ?thesis by (auto simp: repr_def)
qed

lemma repr_is_empty: "repr p xs \<Longrightarrow> is_empty p = Inr (xs = [])"
  by (auto simp: repr_def qrep_def is_empty_def)

lemma repr_items: "repr p xs \<Longrightarrow> q_items p = Inr xs"
  by (auto simp: repr_def qrep_def q_items_def walk_qpath distinct_bounded_length)

lemma repr_find: "repr p xs \<Longrightarrow> q_find p test = find_first test xs"
  by (auto simp: repr_def qrep_def q_find_def find_walk_qpath distinct_bounded_length)

lemma repr_length: "repr p xs \<Longrightarrow> \<exists>q. p = Obj q \<and> q_n q = int (length xs)"
  by (auto simp: repr_def qrep_def)

lemma repr_unique: "repr p xs \<Longrightarrow> repr p ys \<Longrightarrow> xs = ys"
  by (drule repr_items)+ simp

section \<open>The loops the clients run over a queue\<close>

text \<open>
  \<open>partition_loop\<close> is the loop of \<open>scan_chunk_done\<close> and \<open>remove_loop\<close> the one that
  \<open>remove_sender\<close> and \<open>remove_receiver\<close> share: \<open>n\<close> times, take an element from the front, look
  into the object it points to (a NULL element faults there) and put it back or leave it out.
\<close>

fun partition_loop ::
    "('q \<Rightarrow> ('a option \<times> 'q) res) \<Rightarrow> ('q \<Rightarrow> 'a \<Rightarrow> 'q res) \<Rightarrow> ('a \<Rightarrow> bool res) \<Rightarrow>
     nat \<Rightarrow> 'q \<Rightarrow> 'q \<Rightarrow> ('q \<times> 'q) res" where
  "partition_loop deq enq test 0 q d = Inr (q, d)"
| "partition_loop deq enq test (Suc k) q d = rbind (deq q) (\<lambda>(x, q').
     case x of
       None \<Rightarrow> Inl Null_Deref
     | Some y \<Rightarrow> rbind (test y) (\<lambda>b.
         if b then rbind (enq d y) (\<lambda>d'. partition_loop deq enq test k q' d')
         else rbind (enq q' y) (\<lambda>q''. partition_loop deq enq test k q'' d)))"

fun remove_loop ::
    "('q \<Rightarrow> ('a option \<times> 'q) res) \<Rightarrow> ('q \<Rightarrow> 'a \<Rightarrow> 'q res) \<Rightarrow> ('a \<Rightarrow> bool res) \<Rightarrow>
     nat \<Rightarrow> 'q \<Rightarrow> (bool \<times> 'q) res" where
  "remove_loop deq enq test 0 q = Inr (False, q)"
| "remove_loop deq enq test (Suc k) q = rbind (deq q) (\<lambda>(x, q').
     case x of
       None \<Rightarrow> Inl Null_Deref
     | Some y \<Rightarrow> rbind (test y) (\<lambda>b.
         if b then Inr (True, q')
         else rbind (enq q' y) (\<lambda>q''. remove_loop deq enq test k q'')))"

fun remove_rotated :: "('a \<Rightarrow> bool) \<Rightarrow> 'a list \<Rightarrow> 'a list \<Rightarrow> 'a list" where
  "remove_rotated P [] acc = acc"
| "remove_rotated P (x # xs) acc = (if P x then xs @ acc else remove_rotated P xs (acc @ [x]))"

lemma length_remove_rotated:
  "\<exists>x \<in> set xs. P x \<Longrightarrow> length (remove_rotated P xs acc) + 1 = length xs + length acc"
  by (induction P xs acc rule: remove_rotated.induct) auto

lemma distinct_remove_rotated:
  "distinct (map f xs @ map f acc) \<Longrightarrow> distinct (map f (remove_rotated P xs acc))"
  by (induction P xs acc rule: remove_rotated.induct) auto

section \<open>The contract\<close>

locale fifo =
  fixes new :: "'q"
    and enq :: "'q \<Rightarrow> 'a \<Rightarrow> 'q res"
    and deq :: "'q \<Rightarrow> ('a option \<times> 'q) res"
    and emp :: "'q \<Rightarrow> bool res"
    and rep :: "'q \<Rightarrow> 'a list \<Rightarrow> bool"
  assumes rep_new: "rep new []"
    and rep_enq: "rep q xs \<Longrightarrow> ok (enq q x) (\<lambda>q'. rep q' (xs @ [x]))"
    and rep_deq_Nil: "rep q [] \<Longrightarrow> deq q = Inr (None, q)"
    and rep_deq_Cons: "rep q (x # xs) \<Longrightarrow> ok (deq q) (\<lambda>(y, q'). y = Some x \<and> rep q' xs)"
    and rep_emp: "rep q xs \<Longrightarrow> emp q = Inr (xs = [])"
begin

lemma enq_wp: "rep q xs \<Longrightarrow> (\<And>q'. rep q' (xs @ [x]) \<Longrightarrow> P q') \<Longrightarrow> ok (enq q x) P"
  using rep_enq [of q xs x] by (auto simp: ok_iff)

lemma deq_wp:
  "rep q (x # xs) \<Longrightarrow> (\<And>q'. rep q' xs \<Longrightarrow> P (Some x, q')) \<Longrightarrow> ok (deq q) P"
  using rep_deq_Cons [of q x xs] by (auto simp: ok_iff)

lemma partition_rep:
  assumes "rep q (xs @ kept)" "rep d ds" "\<And>x. x \<in> set xs \<Longrightarrow> test x = Inr (P x)"
  shows "ok (partition_loop deq enq test (length xs) q d)
    (\<lambda>(q', d'). rep q' (kept @ filter (\<lambda>x. \<not> P x) xs) \<and> rep d' (ds @ filter P xs))"
  using assms
proof (induction xs arbitrary: q d kept ds)
  case Nil
  then show ?case by simp
next
  case (Cons x xs)
  from Cons.prems(1) have q: "rep q (x # xs @ kept)" by simp
  have t: "test x = Inr (P x)" using Cons.prems(3) by simp
  have rest: "\<And>y. y \<in> set xs \<Longrightarrow> test y = Inr (P y)" using Cons.prems(3) by simp
  show ?case
  proof (cases "P x")
    case True
    have "ok (enq d x) (\<lambda>d'. ok (partition_loop deq enq test (length xs) q' d')
        (\<lambda>(q', d'). rep q' (kept @ filter (\<lambda>x. \<not> P x) xs) \<and> rep d' (ds @ x # filter P xs)))"
      if "rep q' (xs @ kept)" for q'
      using Cons.IH [OF that _ rest] by (intro enq_wp [OF Cons.prems(2)]) fastforce
    then show ?thesis
      using True t by (auto intro!: ok_rbind deq_wp [OF q])
  next
    case False
    have "ok (enq q' x) (\<lambda>q''. ok (partition_loop deq enq test (length xs) q'' d)
        (\<lambda>(q', d'). rep q' (kept @ x # filter (\<lambda>x. \<not> P x) xs) \<and> rep d' (ds @ filter P xs)))"
      if "rep q' (xs @ kept)" for q'
      using Cons.IH [OF _ Cons.prems(2) rest, where kept = "kept @ [x]"]
      by (intro enq_wp [OF that]) fastforce
    then show ?thesis
      using False t by (auto intro!: ok_rbind deq_wp [OF q])
  qed
qed

lemma remove_rep:
  assumes "rep q (xs @ acc)" "\<And>x. x \<in> set xs \<Longrightarrow> test x = Inr (P x)"
  shows "ok (remove_loop deq enq test (length xs) q)
    (\<lambda>(b, q'). b = (\<exists>x \<in> set xs. P x) \<and> rep q' (remove_rotated P xs acc))"
  using assms
proof (induction xs arbitrary: q "acc")
  case Nil
  then show ?case by simp
next
  case (Cons x xs)
  from Cons.prems(1) have q: "rep q (x # xs @ acc)" by simp
  have t: "test x = Inr (P x)" using Cons.prems(2) by simp
  have rest: "\<And>y. y \<in> set xs \<Longrightarrow> test y = Inr (P y)" using Cons.prems(2) by simp
  have "ok (enq q' x) (\<lambda>q''. ok (remove_loop deq enq test (length xs) q'')
      (\<lambda>(b, q'). b = (\<exists>x \<in> set xs. P x) \<and> rep q' (remove_rotated P xs (acc @ [x]))))"
    if "rep q' (xs @ acc)" for q'
    using Cons.IH [OF _ rest, where acc = "acc @ [x]"] by (intro enq_wp [OF that]) simp
  then show ?case
    using t by (cases "P x") (auto intro!: ok_rbind deq_wp [OF q])
qed

end

locale fifo_iter = fifo new enq deq emp rep
  for new :: "'q"
    and enq :: "'q \<Rightarrow> 'a \<Rightarrow> 'q res"
    and deq :: "'q \<Rightarrow> ('a option \<times> 'q) res"
    and emp :: "'q \<Rightarrow> bool res"
    and rep :: "'q \<Rightarrow> 'a list \<Rightarrow> bool" +
  fixes items :: "'q \<Rightarrow> 'a list res"
    and search :: "'q \<Rightarrow> ('a \<Rightarrow> bool res) \<Rightarrow> 'a option res"
  assumes rep_items: "rep q xs \<Longrightarrow> items q = Inr xs"
    and rep_search: "rep q xs \<Longrightarrow> search q test = find_first test xs"
begin

lemma search_pure:
  "rep q xs \<Longrightarrow> (\<And>x. x \<in> set xs \<Longrightarrow> test x = Inr (P x)) \<Longrightarrow> search q test = Inr (List.find P xs)"
  by (simp add: rep_search find_first_pure)

lemma rep_unique: "rep q xs \<Longrightarrow> rep q ys \<Longrightarrow> xs = ys"
  by (drule rep_items)+ simp

lemma items_wp: "rep q xs \<Longrightarrow> P xs \<Longrightarrow> ok (items q) P"
  by (simp add: rep_items)

end

interpretation cq: fifo_iter init_queue enqueue dequeue is_empty repr q_items q_find
  by unfold_locales
    (fact repr_init repr_enqueue repr_dequeue_Nil repr_dequeue_Cons repr_is_empty repr_items
      repr_find)+

text \<open>The queue a list of elements gives when they are enqueued one after the other.\<close>

definition queue_of :: "'a list \<Rightarrow> 'a qptr" where
  "queue_of xs = foldl (\<lambda>q x. case enqueue q x of Inl e \<Rightarrow> Null | Inr q' \<Rightarrow> q') init_queue xs"

lemma repr_queue_of: "repr (queue_of xs) xs"
proof (induction xs rule: rev_induct)
  case Nil
  then show ?case using cq.rep_new by (simp add: queue_of_def)
next
  case (snoc x xs)
  from cq.rep_enq [OF snoc, of x] show ?case by (auto simp: ok_iff queue_of_def)
qed

section \<open>Copying and freeing whole queues\<close>

lemma free_queue_loop_repr:
  "repr p xs \<Longrightarrow> length xs \<le> fuel \<Longrightarrow> free_queue_loop fuel p = Inr (map Some xs)"
proof (induction xs arbitrary: p fuel)
  case Nil
  then show ?case
    using repr_length [OF Nil.prems(1)] by (auto simp: free_queue_loop.simps)
next
  case (Cons x xs)
  from Cons.prems(2) obtain k where k: "fuel = Suc k" "length xs \<le> k" by (cases fuel) auto
  from cq.rep_deq_Cons [OF Cons.prems(1)] obtain p' where
    p': "dequeue p = Inr (Some x, p')" "repr p' xs" by (auto simp: ok_iff)
  show ?case
    using repr_length [OF Cons.prems(1)] p' Cons.IH [OF p'(2) k(2)] k(1)
    by (auto simp: free_queue_loop.simps [of "Suc k"])
qed

lemma free_queue_repr: "repr p xs \<Longrightarrow> free_queue p = Inr (map Some xs)"
  using repr_length [of p xs] free_queue_loop_repr [of p xs "length xs"]
  by (auto simp: free_queue_def)

lemma enqueue_all_loop_repr:
  assumes "qpath h cur as xs" "repr d ds"
  shows "ok (enqueue_all_loop (length xs) h cur d) (\<lambda>(i, d'). i = length xs \<and> repr d' (ds @ xs))"
  using assms
proof (induction h cur as xs arbitrary: d ds rule: qpath.induct)
  case (2 h p a as x xs)
  then obtain nxt where nd: "p = Some a" "h a = Some \<lparr>node_data = x, node_next = nxt\<rparr>"
    "qpath h nxt as xs" by auto
  have "ok (enqueue d x) (\<lambda>d'. ok (enqueue_all_loop (length xs) h nxt d')
      (\<lambda>(i, d''). i = length xs \<and> repr d'' (ds @ x # xs)))"
    using "2.IH" [OF nd(3)] by (intro cq.enq_wp [OF "2.prems"(2)]) fastforce
  with nd show ?case by (auto simp: ok_rbind_iff elim!: ok_mono)
qed auto

lemma enqueue_all_repr:
  assumes "repr d ds" "repr s xs"
  shows "ok (enqueue_all d s) (\<lambda>(i, d'). i = length xs \<and> repr d' (ds @ xs))"
proof (cases "xs = []")
  case True
  with assms repr_is_empty [OF assms(2)] show ?thesis by (auto simp: enqueue_all_def)
next
  case False
  from assms(2) obtain q as where s: "s = Obj q" "qpath (q_cells q) (q_head q) as xs" "q_n q = int (length xs)"
    by (auto simp: repr_def qrep_def)
  from assms(1) have "d \<noteq> Null" by (auto simp: repr_def)
  with False s repr_is_empty [OF assms(2)] enqueue_all_loop_repr [OF s(2) assms(1)]
  show ?thesis by (simp add: enqueue_all_def)
qed

section \<open>Properties\<close>

text \<open>Runs of queue operations, on the linked queue and on a list.\<close>

datatype 'a queue_op = Enq 'a | Deq

fun run_queue :: "'a queue_op list \<Rightarrow> 'a qptr \<Rightarrow> ('a option list \<times> 'a qptr) res" where
  "run_queue [] q = Inr ([], q)"
| "run_queue (Enq x # ops) q = rbind (enqueue q x) (run_queue ops)"
| "run_queue (Deq # ops) q = rbind (dequeue q) (\<lambda>(y, q').
     rbind (run_queue ops q') (\<lambda>(ys, q''). Inr (y # ys, q'')))"

fun run_list :: "'a queue_op list \<Rightarrow> 'a list \<Rightarrow> 'a option list \<times> 'a list" where
  "run_list [] xs = ([], xs)"
| "run_list (Enq x # ops) xs = run_list ops (xs @ [x])"
| "run_list (Deq # ops) [] = (let (ys, zs) = run_list ops [] in (None # ys, zs))"
| "run_list (Deq # ops) (x # xs) = (let (ys, zs) = run_list ops xs in (Some x # ys, zs))"

lemma run_queue_repr:
  "repr q xs \<Longrightarrow> ok (run_queue ops q) (\<lambda>(ys, q'). ys = fst (run_list ops xs) \<and> repr q' (snd (run_list ops xs)))"
proof (induction ops xs arbitrary: q rule: run_list.induct)
  case (2 x ops xs)
  then show ?case by (auto intro!: ok_rbind cq.enq_wp [OF "2.prems"])
next
  case (3 ops)
  from "3.IH" [OF "3.prems"] show ?case
    using cq.rep_deq_Nil [OF "3.prems"] by (auto simp: ok_iff Let_def split_beta)
next
  case (4 ops x xs)
  from cq.rep_deq_Cons [OF "4.prems"] obtain q' where
    q': "dequeue q = Inr (Some x, q')" "repr q' xs" by (auto simp: ok_iff)
  from "4.IH" [OF q'(2)] q'(1) show ?case by (auto simp: ok_iff Let_def split_beta)
qed auto

text \<open>
  C26. The linked queue refines a list: starting from \<open>init_queue\<close>, any sequence of \<open>enqueue\<close> and
  \<open>dequeue\<close> calls runs without a NULL, dangling or double-freed pointer, returns element by element
  what the list returns (NULL on an empty queue), and ends in a well-formed queue of the list's
  elements that holds exactly one node for each.
\<close>

theorem queue_refines_list:
  "ok (run_queue ops init_queue)
     (\<lambda>(ys, q). ys = fst (run_list ops []) \<and> repr q (snd (run_list ops [])))"
  by (rule run_queue_repr [OF cq.rep_new])

text \<open>
  \<open>enqueue_all\<close> appends the elements of the source in order and returns how many it copied, and
  \<open>free_queue\<close> hands every element to \<open>free\<close> once, in order, without touching freed memory.
\<close>

theorem enqueue_all_then_free:
  assumes "repr dest ds" "repr src xs"
  shows "ok (rbind (enqueue_all dest src) (\<lambda>(i, dest'). rbind (free_queue dest') (\<lambda>freed. Inr (i, freed))))
    (\<lambda>(i, freed). i = length xs \<and> freed = map Some (ds @ xs))"
  using enqueue_all_repr [OF assms] by (auto simp: ok_iff free_queue_repr)

theorem enqueue_all_then_free_witness:
  "ok (rbind (enqueue init_queue (7 :: nat)) (\<lambda>s. rbind (enqueue_all init_queue s)
      (\<lambda>(i, d). rbind (free_queue d) (\<lambda>freed. Inr (i, freed)))))
    (\<lambda>(i, freed). i = 1 \<and> freed = [Some 7])"
proof -
  obtain s :: "nat qptr" where s: "enqueue init_queue 7 = Inr s" "repr s [7]"
    using cq.rep_enq [OF cq.rep_new, of "7 :: nat"] by (auto simp: ok_iff)
  show ?thesis using enqueue_all_then_free [OF cq.rep_new s(2)] s(1) by simp
qed

end
