(* ===== verification/Packet_C.thy ===== *)
theory Packet_C
  imports Prelude_C
begin

unbundle bit_operations_syntax

text \<open>
  The packets of \<open>packet.h\<close> and \<open>packet.c\<close>: the header struct at its field widths, its layout in
  memory on the little-endian hosts the program is built for (the fields are naturally aligned, so
  the struct has no padding and is \<open>HDR_SIZE\<close> bytes), the constructors, the byte-order conversion
  and the cast of a received buffer to a packet.
\<close>

section \<open>Constants and data\<close>

definition PKT_SIZE :: nat where "PKT_SIZE = 1500"
definition HDR_SIZE :: nat where "HDR_SIZE = 16"
definition DATA_SIZE :: nat where "DATA_SIZE = 1400"
definition SHA1_HASH_SIZE :: nat where "SHA1_HASH_SIZE = 20"
definition MAGIC :: u16 where "MAGIC = 15441"
definition VERSION :: byte where "VERSION = 1"
definition INIT_SEQ :: u32 where "INIT_SEQ = 0"
definition INIT_ACK :: u32 where "INIT_ACK = 0"

lemmas packet_consts = PKT_SIZE_def HDR_SIZE_def DATA_SIZE_def SHA1_HASH_SIZE_def MAGIC_def
  VERSION_def INIT_SEQ_def INIT_ACK_def

datatype value_type = HOST | NET

datatype pkt_type = WHOHAS | IHAVE | GET | DATA | ACK | DENIED

fun pkt_code :: "pkt_type \<Rightarrow> byte" where
  "pkt_code WHOHAS = 0"
| "pkt_code IHAVE = 1"
| "pkt_code GET = 2"
| "pkt_code DATA = 3"
| "pkt_code ACK = 4"
| "pkt_code DENIED = 5"

record pkt_header =
  magic_num :: u16
  version_num :: byte
  packet_type :: byte
  header_len :: u16
  total_pkt_len :: u16
  seq_num :: u32
  ack_num :: u32

record packet =
  header :: pkt_header
  pkt_data :: "byte list"

section \<open>Byte order and memory layout\<close>

text \<open>
  \<open>htons\<close> and \<open>htonl\<close> of libc on a little-endian host: the word whose bytes in memory are the
  reversed ones; \<open>ntohs\<close> and \<open>ntohl\<close> are the same functions.
\<close>

definition htons :: "u16 \<Rightarrow> u16" where
  "htons x = of_le16 (ucast (drop_bit 8 x)) (ucast x)"

definition htonl :: "u32 \<Rightarrow> u32" where
  "htonl x = of_le32 (ucast (drop_bit 24 x)) (ucast (drop_bit 16 x)) (ucast (drop_bit 8 x)) (ucast x)"

abbreviation (input) ntohs :: "u16 \<Rightarrow> u16" where "ntohs \<equiv> htons"
abbreviation (input) ntohl :: "u32 \<Rightarrow> u32" where "ntohl \<equiv> htonl"

definition header_bytes :: "pkt_header \<Rightarrow> byte list" where
  "header_bytes h = le16 (magic_num h) @ [version_num h, packet_type h] @ le16 (header_len h)
     @ le16 (total_pkt_len h) @ le32 (seq_num h) @ le32 (ack_num h)"

definition packet_mem :: "packet \<Rightarrow> byte list" where
  "packet_mem p = header_bytes (header p) @ pkt_data p"

text \<open>The cast \<open>(packet *) buf\<close> of \<open>process_inbound_udp\<close>: the header is read from the buffer.\<close>

fun packet_of_mem :: "byte list \<Rightarrow> packet res" where
  "packet_of_mem (a0 # a1 # a2 # a3 # a4 # a5 # a6 # a7 # a8 # a9 # a10 # a11 # a12 # a13 # a14 # a15 # rest) =
     Inr \<lparr>header = \<lparr>magic_num = of_le16 a0 a1, version_num = a2, packet_type = a3,
            header_len = of_le16 a4 a5, total_pkt_len = of_le16 a6 a7,
            seq_num = of_le32 a8 a9 a10 a11, ack_num = of_le32 a12 a13 a14 a15\<rparr>,
          pkt_data = rest\<rparr>"
| "packet_of_mem _ = Inl Out_Of_Bounds"

section \<open>Operations\<close>

text \<open>
  \<open>init\<close> writes the header fields and copies \<open>tot_len - HDR_SIZE\<close> bytes of payload. The C size is
  an int turned into a \<open>size_t\<close>: a \<open>tot_len\<close> below \<open>HDR_SIZE\<close> makes it huge, and the copy leaves
  every buffer.
\<close>

definition init :: "packet \<Rightarrow> byte \<Rightarrow> u16 \<Rightarrow> u32 \<Rightarrow> u32 \<Rightarrow> byte list \<Rightarrow> packet res" where
  "init pkt type tot_len seq ack data =
     (if unat tot_len < HDR_SIZE then Inl Out_Of_Bounds
      else rbind (buf_read data 0 (unat tot_len - HDR_SIZE)) (\<lambda>src.
           rbind (buf_write (pkt_data pkt) 0 src) (\<lambda>payload.
           Inr \<lparr>header = \<lparr>magic_num = MAGIC, version_num = VERSION, packet_type = type,
                  header_len = of_nat HDR_SIZE, total_pkt_len = tot_len, seq_num = seq,
                  ack_num = ack\<rparr>,
                pkt_data = payload\<rparr>)))"

definition convert :: "packet \<Rightarrow> value_type \<Rightarrow> packet" where
  "convert pkt vt =
     (let h = header pkt
      in case vt of
           HOST \<Rightarrow> pkt\<lparr>header := h\<lparr>magic_num := ntohs (magic_num h), header_len := ntohs (header_len h),
             total_pkt_len := ntohs (total_pkt_len h), seq_num := ntohl (seq_num h),
             ack_num := ntohl (ack_num h)\<rparr>\<rparr>
         | NET \<Rightarrow> pkt\<lparr>header := h\<lparr>magic_num := htons (magic_num h), header_len := htons (header_len h),
             total_pkt_len := htons (total_pkt_len h), seq_num := htonl (seq_num h),
             ack_num := htonl (ack_num h)\<rparr>\<rparr>)"

text \<open>
  \<open>make_PKT\<close> allocates \<open>HDR_SIZE + data_size\<close> bytes (a 32-bit sum) and truncates that length to 16
  bits for the header. A zero stands for a payload byte that \<open>malloc\<close> returned and \<open>init\<close> does not
  overwrite.
\<close>

definition make_PKT :: "pkt_type \<Rightarrow> u32 \<Rightarrow> u32 \<Rightarrow> byte list \<Rightarrow> packet res" where
  "make_PKT type seq_ack data_size data =
     (let size = of_nat HDR_SIZE + data_size :: u32;
          block = \<lparr>header = \<lparr>magic_num = 0, version_num = 0, packet_type = 0, header_len = 0,
                     total_pkt_len = 0, seq_num = 0, ack_num = 0\<rparr>,
                   pkt_data = replicate (unat size - HDR_SIZE) 0\<rparr>
      in if unat size < HDR_SIZE then Inl Out_Of_Bounds
         else init block (pkt_code type) (ucast size) (if type = DATA then seq_ack else INIT_SEQ)
                (if type = ACK then seq_ack else INIT_ACK) data)"

definition make_WHOHAS :: "u32 \<Rightarrow> byte list \<Rightarrow> packet res" where
  "make_WHOHAS data_size data = make_PKT WHOHAS 0 data_size data"

definition make_IHAVE :: "u32 \<Rightarrow> byte list \<Rightarrow> packet res" where
  "make_IHAVE data_size data = make_PKT IHAVE 0 data_size data"

definition make_GET :: "byte list \<Rightarrow> packet res" where
  "make_GET data = make_PKT GET 0 (of_nat SHA1_HASH_SIZE) data"

definition make_DATA :: "u32 \<Rightarrow> u32 \<Rightarrow> byte list \<Rightarrow> packet res" where
  "make_DATA seq_ack data_size data = make_PKT DATA seq_ack data_size data"

definition make_ACK :: "u32 \<Rightarrow> packet res" where
  "make_ACK seq_ack = make_PKT ACK seq_ack 0 []"

text \<open>A byte above 5 leaves the switch without a \<open>return\<close>: the value is indeterminate.\<close>

definition pkt_parse_type :: "byte \<Rightarrow> pkt_type res" where
  "pkt_parse_type t =
     (if t = 0 then Inr WHOHAS else if t = 1 then Inr IHAVE else if t = 2 then Inr GET
      else if t = 3 then Inr DATA else if t = 4 then Inr ACK else if t = 5 then Inr DENIED
      else Inl Uninitialised)"

text \<open>
  What \<open>send_PKT\<close> hands to the network: the packet in network order, as many bytes of its memory
  as its (host order) total length says.
\<close>

definition wire_image :: "packet \<Rightarrow> byte list res" where
  "wire_image pkt =
     (let p = convert pkt NET
      in buf_read (packet_mem p) 0 (unat (ntohs (total_pkt_len (header p)))))"

section \<open>Bytes of words\<close>

lemma htons_htons [simp]: "htons (htons x) = x"
  by (simp add: htons_def)

lemma htonl_htonl [simp]: "htonl (htonl x) = x"
  by (simp add: htonl_def)

lemma le16_htons: "le16 (htons x) = [ucast (drop_bit 8 x), ucast x]"
  by (simp add: le16_def htons_def)

lemma le32_htonl:
  "le32 (htonl x) = [ucast (drop_bit 24 x), ucast (drop_bit 16 x), ucast (drop_bit 8 x), ucast x]"
  by (simp add: le32_def htonl_def)

section \<open>Headers and constructors\<close>

lemma length_header_bytes [simp]: "length (header_bytes h) = 16"
  by (simp add: header_bytes_def)

lemma header_bytes_convert_NET:
  "header_bytes (header (convert p NET)) =
     be16 (magic_num (header p)) @ [version_num (header p), packet_type (header p)] @
     be16 (header_len (header p)) @ be16 (total_pkt_len (header p)) @
     be32 (seq_num (header p)) @ be32 (ack_num (header p))"
  by (simp add: header_bytes_def convert_def Let_def le16_htons le32_htonl be16_def be32_def)

lemma convert_simps [simp]:
  "pkt_data (convert p vt) = pkt_data p"
  "packet_type (header (convert p vt)) = packet_type (header p)"
  by (cases vt; simp add: convert_def Let_def)+

lemma packet_of_mem_packet_mem: "packet_of_mem (packet_mem p) = Inr p"
  by (simp add: packet_mem_def header_bytes_def le16_def le32_def)

lemma wire_image_eq:
  "unat (total_pkt_len (header p)) \<le> 16 + length (pkt_data p) \<Longrightarrow>
   wire_image p = Inr (take (unat (total_pkt_len (header p)))
     (header_bytes (header (convert p NET)) @ pkt_data p))"
  by (simp add: wire_image_def Let_def buf_read_def packet_mem_def convert_def)

definition sized_header :: "pkt_type \<Rightarrow> u32 \<Rightarrow> nat \<Rightarrow> pkt_header" where
  "sized_header t s k = \<lparr>magic_num = MAGIC, version_num = VERSION, packet_type = pkt_code t,
     header_len = of_nat HDR_SIZE, total_pkt_len = of_nat (HDR_SIZE + k),
     seq_num = (if t = DATA then s else INIT_SEQ), ack_num = (if t = ACK then s else INIT_ACK)\<rparr>"

lemma make_PKT_Inr:
  assumes "unat k < 65520" "unat k \<le> length data"
  shows "make_PKT t s k data =
    Inr \<lparr>header = sized_header t s (unat k), pkt_data = take (unat k) data\<rparr>"
proof -
  have size: "unat (of_nat HDR_SIZE + k) = 16 + unat k"
    using assms(1) by (simp add: HDR_SIZE_def unat_word_ariths)
  have tot: "unat (ucast (of_nat HDR_SIZE + k :: u32) :: u16) = 16 + unat k"
    using assms(1) size by (simp add: unsigned_ucast_eq take_bit_nat_eq_self)
  then have tot': "(ucast (of_nat HDR_SIZE + k :: u32) :: u16) = of_nat (HDR_SIZE + unat k)"
    using assms(1) by (simp add: word_unat_eq_iff HDR_SIZE_def unat_of_nat take_bit_nat_eq_self del: of_nat_add)
  then have tot'': "(ucast (16 + k) :: u16) = 16 + ucast k"
    by (simp add: HDR_SIZE_def)
  show ?thesis
    using assms(2) size tot
    by (simp add: make_PKT_def Let_def init_def buf_read_def buf_write_def HDR_SIZE_def
        sized_header_def tot'')
qed

lemma unat_sized_total: "k < 65520 \<Longrightarrow> unat (total_pkt_len (sized_header t s k)) = 16 + k"
  by (simp add: sized_header_def HDR_SIZE_def unat_of_nat take_bit_nat_eq_self del: of_nat_add)

lemma wire_image_sized:
  assumes "k < 65520" "length d = k"
  shows "wire_image \<lparr>header = sized_header t s k, pkt_data = d\<rparr> =
    Inr (be16 MAGIC @ [VERSION, pkt_code t] @ be16 (of_nat HDR_SIZE) @ be16 (of_nat (HDR_SIZE + k)) @
      be32 (if t = DATA then s else INIT_SEQ) @ be32 (if t = ACK then s else INIT_ACK) @ d)"
  using assms unat_sized_total [of k t s]
  by (simp add: wire_image_eq header_bytes_convert_NET) (simp add: sized_header_def)

lemma packet_of_wire:
  assumes "k < 65520" "length d = k"
    and "wire_image \<lparr>header = sized_header t s k, pkt_data = d\<rparr> = Inr b"
  shows "rbind (packet_of_mem (b @ junk)) (\<lambda>p. Inr (convert p HOST)) =
    Inr \<lparr>header = sized_header t s k, pkt_data = d @ junk\<rparr>"
proof -
  let ?p = "\<lparr>header = sized_header t s k, pkt_data = d\<rparr>"
  let ?q = "\<lparr>header = header (convert ?p NET), pkt_data = d @ junk\<rparr>"
  have "b = packet_mem (convert ?p NET)"
    using assms unat_sized_total [of k t s] by (simp add: wire_image_eq packet_mem_def)
  then have "b @ junk = packet_mem ?q" by (simp add: packet_mem_def)
  moreover have "convert ?q HOST = \<lparr>header = sized_header t s k, pkt_data = d @ junk\<rparr>"
    by (simp add: convert_def Let_def)
  ultimately show ?thesis by (simp add: packet_of_mem_packet_mem)
qed

section \<open>Properties\<close>

text \<open>
  C20. Wire format. Whatever packet the constructors build, the bytes that leave the host are the
  header documented in \<open>packet.h\<close> (magic 15441, version 1, type, header length 16, total length,
  sequence number, acknowledgment number), every field in network byte order, followed by the
  payload.
\<close>

theorem make_PKT_wire_format:
  assumes "unat data_size < 65520" "unat data_size \<le> length data"
  shows "rbind (make_PKT type seq_ack data_size data) wire_image =
    Inr ([0x3C, 0x51, 1, pkt_code type, 0, 16] @ be16 (of_nat (16 + unat data_size)) @
      be32 (if type = DATA then seq_ack else 0) @ be32 (if type = ACK then seq_ack else 0) @
      take (unat data_size) data)"
proof -
  have hdr_consts: "be16 MAGIC = [0x3C, 0x51]" "be16 (of_nat HDR_SIZE) = [0, 16]"
    by (simp_all add: be16_def packet_consts)
  show ?thesis
    using assms
    by (simp add: make_PKT_Inr wire_image_sized hdr_consts del: of_nat_add)
      (simp add: VERSION_def HDR_SIZE_def INIT_SEQ_def INIT_ACK_def)
qed

theorem make_PKT_wire_format_witness:
  "rbind (make_PKT ACK 7 0 []) wire_image =
    Inr [0x3C, 0x51, 1, 4, 0, 16, 0, 16, 0, 0, 0, 0, 0, 0, 0, 7]"
  using make_PKT_wire_format [of 0 "[]" ACK 7] by (simp add: be16_def be32_def)

text \<open>
  C21. Sending and receiving are inverse: casting a receive buffer that starts with the bytes of a
  packet and converting it to host order gives the header that was built and the payload, followed
  by whatever the buffer held behind it.
\<close>

theorem packet_wire_roundtrip:
  assumes "unat data_size < 65520" "unat data_size \<le> length data"
  shows "rbind (rbind (make_PKT type seq_ack data_size data) wire_image) (\<lambda>bytes.
      rbind (packet_of_mem (bytes @ junk)) (\<lambda>p. Inr (convert p HOST))) =
    Inr \<lparr>header = sized_header type seq_ack (unat data_size),
      pkt_data = take (unat data_size) data @ junk\<rparr>"
proof -
  obtain b where "wire_image \<lparr>header = sized_header type seq_ack (unat data_size),
      pkt_data = take (unat data_size) data\<rparr> = Inr b"
    using assms by (simp add: wire_image_sized)
  then show ?thesis
    using assms packet_of_wire [of "unat data_size" "take (unat data_size) data" type seq_ack b junk]
    by (simp add: make_PKT_Inr)
qed

theorem packet_wire_roundtrip_witness:
  "rbind (rbind (make_PKT DATA 3 2 [10, 20, 30]) wire_image) (\<lambda>bytes.
      rbind (packet_of_mem (bytes @ [99])) (\<lambda>p. Inr (convert p HOST))) =
    Inr \<lparr>header = sized_header DATA 3 2, pkt_data = [10, 20, 99]\<rparr>"
  using packet_wire_roundtrip [of 2 "[10, 20, 30]" DATA 3 "[99]"] by simp

end
