(* ===== verification/Sha_C.thy ===== *)
theory Sha_C
  imports Prelude_C
begin

text \<open>
  The SHA-1 implementation of \<open>sha.c\<close> and \<open>sha.h\<close>, as it is built here: little-endian host, no
  \<open>RUNTIME_ENDIAN\<close>, no \<open>SHA1_FAST_COPY\<close>, \<open>SHA1_UNROLL\<close> 20. The streaming context (\<open>SHA1Init\<close>,
  \<open>SHA1Update\<close>, \<open>SHA1Final\<close>) and the block function \<open>SHA1Guts\<close> are followed by the standard's own
  formulation (\<open>sha1_spec\<close>: padding, message schedule by recursion, 80 rounds) and the proof that
  the two agree on every message.
\<close>

section \<open>Rotations, byte swaps, round functions\<close>

definition ROTL :: "u32 \<Rightarrow> nat \<Rightarrow> u32" where
  "ROTL x n = push_bit n x OR drop_bit (32 - n) x"

definition ROTR :: "u32 \<Rightarrow> nat \<Rightarrow> u32" where
  "ROTR x n = drop_bit n x OR push_bit (32 - n) x"

definition BYTESWAP :: "u32 \<Rightarrow> u32" where
  "BYTESWAP x = (ROTR x 8 AND 0xFF00FF00) OR (ROTL x 8 AND 0x00FF00FF)"

definition BYTESWAP64 :: "u64 \<Rightarrow> u64" where
  "BYTESWAP64 x =
     (let a = ucast (drop_bit 32 x) :: u32; b = ucast x :: u32
      in push_bit 32 (ucast (BYTESWAP b)) OR ucast (BYTESWAP a))"

definition F_0_19 :: "u32 \<Rightarrow> u32 \<Rightarrow> u32 \<Rightarrow> u32" where
  "F_0_19 x y z = z XOR (x AND (y XOR z))"

definition F_20_39 :: "u32 \<Rightarrow> u32 \<Rightarrow> u32 \<Rightarrow> u32" where
  "F_20_39 x y z = x XOR y XOR z"

definition F_40_59 :: "u32 \<Rightarrow> u32 \<Rightarrow> u32 \<Rightarrow> u32" where
  "F_40_59 x y z = (x AND (y OR z)) OR (y AND z)"

definition F_60_79 :: "u32 \<Rightarrow> u32 \<Rightarrow> u32 \<Rightarrow> u32" where
  "F_60_79 x y z = x XOR y XOR z"

definition K_0_19 :: u32 where "K_0_19 = 0x5A827999"
definition K_20_39 :: u32 where "K_20_39 = 0x6ED9EBA1"
definition K_40_59 :: u32 where "K_40_59 = 0x8F1BBCDC"
definition K_60_79 :: u32 where "K_60_79 = 0xCA62C1D6"

type_synonym regs = "u32 \<times> u32 \<times> u32 \<times> u32 \<times> u32"

fun DO_ROUND :: "(u32 \<Rightarrow> u32 \<Rightarrow> u32 \<Rightarrow> u32) \<Rightarrow> u32 \<Rightarrow> regs \<Rightarrow> u32 \<Rightarrow> regs" where
  "DO_ROUND F K (a, b, c, d, e) w =
     (let temp = ROTL a 5 + F b c d + e + w + K in (temp, a, ROTL b 30, c, d))"

section \<open>The context\<close>

text \<open>
  The buffer is a union of 16 words and 64 bytes; the model keeps the bytes, and
  \<open>buffer_words\<close> reads them as little-endian words.
\<close>

record SHA1Context =
  totalLength :: u64
  hash :: "u32 list"
  bufferLength :: u32
  buffer :: "byte list"

definition buffer_words :: "byte list \<Rightarrow> u32 list" where
  "buffer_words bs =
     map (\<lambda>i. of_le32 (bs ! (4 * i)) (bs ! (4 * i + 1)) (bs ! (4 * i + 2)) (bs ! (4 * i + 3))) [0..<16]"

definition SHA1Init :: "SHA1Context \<Rightarrow> SHA1Context" where
  "SHA1Init sc = sc\<lparr>totalLength := 0,
     hash := [0x67452301, 0xEFCDAB89, 0x98BADCFE, 0x10325476, 0xC3D2E1F0],
     bufferLength := 0\<rparr>"

text \<open>The 64 further words of the schedule, each from the 3rd, 8th, 14th and 16th word before it.\<close>

fun guts_expand :: "nat \<Rightarrow> u32 list \<Rightarrow> u32 list" where
  "guts_expand 0 W = W"
| "guts_expand (Suc k) W =
     (let n = length W
      in guts_expand k (W @ [ROTL (W ! (n - 3) XOR W ! (n - 8) XOR W ! (n - 14) XOR W ! (n - 16)) 1]))"

text \<open>The 80 rounds (the build leaves \<open>SHA1_UNROLL\<close> at 20) and the addition to the hash.\<close>

definition guts_rounds :: "u32 list \<Rightarrow> regs \<Rightarrow> regs" where
  "guts_rounds W r0 =
     (let r1 = foldl (DO_ROUND F_0_19 K_0_19) r0 (take 20 W);
          r2 = foldl (DO_ROUND F_20_39 K_20_39) r1 (take 20 (drop 20 W));
          r3 = foldl (DO_ROUND F_40_59 K_40_59) r2 (take 20 (drop 40 W))
      in foldl (DO_ROUND F_60_79 K_60_79) r3 (take 20 (drop 60 W)))"

fun guts_add :: "u32 list \<Rightarrow> regs \<Rightarrow> u32 list" where
  "guts_add h (a, b, c, d, e) = [h ! 0 + a, h ! 1 + b, h ! 2 + c, h ! 3 + d, h ! 4 + e]"

definition SHA1Guts :: "SHA1Context \<Rightarrow> u32 list \<Rightarrow> SHA1Context" where
  "SHA1Guts sc cbuf =
     (let W = guts_expand 64 (map BYTESWAP cbuf); h = hash sc
      in sc\<lparr>hash := guts_add h (guts_rounds W (h ! 0, h ! 1, h ! 2, h ! 3, h ! 4))\<rparr>)"

text \<open>
  The copy loop. A round copies what fits into the buffer; a full buffer is hashed and emptied.
  Every round consumes a byte, but for one that may find the buffer full, so \<open>len + 1\<close> rounds are
  enough (\<open>SHA1Update_rep\<close> in \<open>Sha_Correct\<close> shows that \<open>Diverges\<close> is not returned).
\<close>

fun SHA1Update_loop :: "nat \<Rightarrow> SHA1Context \<Rightarrow> byte list \<Rightarrow> u32 \<Rightarrow> SHA1Context res" where
  "SHA1Update_loop fuel sc data len =
     (if len = 0 then Inr sc
      else case fuel of
        0 \<Rightarrow> Inl Diverges
      | Suc k \<Rightarrow>
          let bufferBytesLeft = 64 - bufferLength sc;
              bytesToCopy = (if bufferBytesLeft > len then len else bufferBytesLeft)
          in rbind (buf_read data 0 (unat bytesToCopy)) (\<lambda>src.
             rbind (buf_write (buffer sc) (unat (bufferLength sc)) src) (\<lambda>buf.
             let sc1 = sc\<lparr>buffer := buf,
                   totalLength := totalLength sc + ucast bytesToCopy * 8,
                   bufferLength := bufferLength sc + bytesToCopy\<rparr>;
                 sc2 = (if bufferLength sc1 = 64
                   then (SHA1Guts sc1 (buffer_words buf))\<lparr>bufferLength := 0\<rparr> else sc1)
             in SHA1Update_loop k sc2 (drop (unat bytesToCopy) data) (len - bytesToCopy))))"

declare SHA1Update_loop.simps [simp del]

definition SHA1Update :: "SHA1Context \<Rightarrow> byte list \<Rightarrow> u32 \<Rightarrow> SHA1Context res" where
  "SHA1Update sc data len = SHA1Update_loop (Suc (unat len)) sc data len"

definition padding :: "byte list" where
  "padding = 0x80 # replicate 63 0"

definition hash_out :: "u32 list \<Rightarrow> byte list" where
  "hash_out h = concat (map (\<lambda>w. [ucast (drop_bit 24 w), ucast (drop_bit 16 w), ucast (drop_bit 8 w), ucast w]) h)"

definition SHA1Final :: "SHA1Context \<Rightarrow> (SHA1Context \<times> byte list) res" where
  "SHA1Final sc =
     (let pad = 120 - bufferLength sc;
          bytesToPad = (if pad > 64 then pad - 64 else pad);
          lengthPad = BYTESWAP64 (totalLength sc)
      in rbind (SHA1Update sc padding bytesToPad) (\<lambda>sc1.
         rbind (SHA1Update sc1 (le64 lengthPad) 8) (\<lambda>sc2.
         Inr (sc2, hash_out (hash sc2)))))"

end
