(* ===== verification/Sha_Correct.thy ===== *)
theory Sha_Correct
  imports Sha_C
begin

text \<open>
  SHA-1 as the standard (FIPS 180) states it, and the proof that the streaming implementation of
  \<open>sha.c\<close> computes it: the schedule, the four groups of twenty rounds, the buffering over
  arbitrary splits of the message, the padding.
\<close>

section \<open>The standard\<close>

definition Ch :: "u32 \<Rightarrow> u32 \<Rightarrow> u32 \<Rightarrow> u32" where
  "Ch x y z = (x AND y) XOR (NOT x AND z)"

definition Parity :: "u32 \<Rightarrow> u32 \<Rightarrow> u32 \<Rightarrow> u32" where
  "Parity x y z = x XOR y XOR z"

definition Maj :: "u32 \<Rightarrow> u32 \<Rightarrow> u32 \<Rightarrow> u32" where
  "Maj x y z = (x AND y) XOR (x AND z) XOR (y AND z)"

definition sha_f :: "nat \<Rightarrow> u32 \<Rightarrow> u32 \<Rightarrow> u32 \<Rightarrow> u32" where
  "sha_f t = (if t < 20 then Ch else if t < 40 then Parity else if t < 60 then Maj else Parity)"

definition sha_K :: "nat \<Rightarrow> u32" where
  "sha_K t = (if t < 20 then 0x5A827999 else if t < 40 then 0x6ED9EBA1
     else if t < 60 then 0x8F1BBCDC else 0xCA62C1D6)"

definition rotl :: "nat \<Rightarrow> u32 \<Rightarrow> u32" where
  "rotl n x = word_rotl n x"

fun sched :: "u32 list \<Rightarrow> nat \<Rightarrow> u32" where
  "sched M t = (if t < 16 then M ! t
     else rotl 1 (sched M (t - 3) XOR sched M (t - 8) XOR sched M (t - 14) XOR sched M (t - 16)))"

declare sched.simps [simp del]

fun sha_round :: "u32 list \<Rightarrow> nat \<Rightarrow> regs \<Rightarrow> regs" where
  "sha_round M t (a, b, c, d, e) =
     (rotl 5 a + sha_f t b c d + e + sha_K t + sched M t, a, rotl 30 b, c, d)"

definition block_words :: "byte list \<Rightarrow> u32 list" where
  "block_words bs =
     map (\<lambda>i. of_le32 (bs ! (4 * i + 3)) (bs ! (4 * i + 2)) (bs ! (4 * i + 1)) (bs ! (4 * i))) [0..<16]"

definition sha_compress :: "u32 list \<Rightarrow> byte list \<Rightarrow> u32 list" where
  "sha_compress h bs =
     (let (a, b, c, d, e) = fold (sha_round (block_words bs)) [0..<80] (h ! 0, h ! 1, h ! 2, h ! 3, h ! 4)
      in [h ! 0 + a, h ! 1 + b, h ! 2 + c, h ! 3 + d, h ! 4 + e])"

definition sha_H0 :: "u32 list" where
  "sha_H0 = [0x67452301, 0xEFCDAB89, 0x98BADCFE, 0x10325476, 0xC3D2E1F0]"

definition blocks64 :: "'a list \<Rightarrow> 'a list list" where
  "blocks64 xs = map (\<lambda>i. take 64 (drop (64 * i) xs)) [0..<length xs div 64]"

definition be64 :: "u64 \<Rightarrow> byte list" where
  "be64 x = be32 (ucast (drop_bit 32 x)) @ be32 (ucast x)"

definition sha_pad :: "byte list \<Rightarrow> byte list" where
  "sha_pad msg = msg @ [0x80] @ replicate ((119 - length msg mod 64) mod 64) 0 @
     be64 (of_nat (8 * length msg))"

definition sha1_spec :: "byte list \<Rightarrow> byte list" where
  "sha1_spec msg = concat (map be32 (foldl sha_compress sha_H0 (blocks64 (sha_pad msg))))"

section \<open>Words\<close>

lemma bit_byte_beyond: "8 \<le> n \<Longrightarrow> \<not> bit (a :: byte) n"
  by (auto dest: bit_imp_le_length)

lemma ROTL_rotl:
  assumes "0 < n" "n < 32"
  shows "ROTL x n = rotl n x"
proof (rule bit_word_eqI)
  fix m assume m: "m < LENGTH(32)"
  show "bit (ROTL x n) m = bit (rotl n x) m"
  proof (cases "n \<le> m")
    case True
    then have "(m + 32 - n) mod 32 = m - n" using assms m by (simp add: mod_if)
    moreover have "\<not> bit x (32 + m - n)" using True by (auto dest: bit_imp_le_length)
    ultimately show ?thesis using assms m True by (auto simp: ROTL_def rotl_def bit_simps)
  next
    case False
    then have "(m + 32 - n) mod 32 = 32 + m - n" using assms m by (simp add: mod_if add.commute)
    then show ?thesis using assms m False by (auto simp: ROTL_def rotl_def bit_simps)
  qed
qed

lemma BYTESWAP_le32: "BYTESWAP (of_le32 a b c d) = of_le32 d c b a"
proof (rule bit_word_eqI)
  fix n assume "n < LENGTH(32)"
  then have "n \<in> set [0..<32]" by simp
  then show "bit (BYTESWAP (of_le32 a b c d)) n = bit (of_le32 d c b a) n"
    unfolding BYTESWAP_def ROTL_def ROTR_def of_le32_def
    by (simp add: upt_rec bit_simps) (elim disjE; simp add: bit_simps bit_byte_beyond)
qed

lemma F_0_19_Ch: "F_0_19 x y z = Ch x y z"
  by (rule bit_word_eqI) (auto simp: F_0_19_def Ch_def bit_simps)

lemma F_40_59_Maj: "F_40_59 x y z = Maj x y z"
  by (rule bit_word_eqI) (auto simp: F_40_59_def Maj_def bit_simps)

lemma F_20_39_Parity: "F_20_39 x y z = Parity x y z" "F_60_79 x y z = Parity x y z"
  by (simp_all add: F_20_39_def F_60_79_def Parity_def)

section \<open>The block function\<close>

lemma guts_expand_sched:
  "guts_expand k (map (sched M) [0..<16 + i]) = map (sched M) [0..<16 + i + k]"
proof (induction k arbitrary: i)
  case 0
  then show ?case by simp
next
  case (Suc k)
  have "sched M (16 + i) = ROTL (sched M (16 + i - 3) XOR sched M (16 + i - 8) XOR
      sched M (16 + i - 14) XOR sched M (16 + i - 16)) 1"
    by (subst sched.simps) (simp add: ROTL_rotl)
  then have "map (sched M) [0..<16 + i] @ [ROTL (map (sched M) [0..<16 + i] ! (16 + i - 3) XOR
      map (sched M) [0..<16 + i] ! (16 + i - 8) XOR map (sched M) [0..<16 + i] ! (16 + i - 14) XOR
      map (sched M) [0..<16 + i] ! (16 + i - 16)) 1] = map (sched M) [0..<16 + Suc i]"
    using upt_Suc_append [of 0 "16 + i"] by simp
  then show ?case
    using Suc.IH [of "Suc i"]
    by (simp only: guts_expand.simps Let_def length_map length_upt) (simp add: add.assoc)
qed

lemma block_words_sched: "length bs = 64 \<Longrightarrow>
  map BYTESWAP (buffer_words bs) = map (sched (block_words bs)) [0..<16 + 0]"
  by (auto simp: buffer_words_def block_words_def BYTESWAP_le32 sched.simps)

lemma DO_ROUND_sha_round:
  assumes "\<forall>x y z. F x y z = sha_f t x y z" "K = sha_K t"
  shows "DO_ROUND F K r (sched M t) = sha_round M t r"
  using assms by (cases r) (simp add: ROTL_rotl algebra_simps)

lemma foldl_rounds:
  assumes "\<And>t. t \<in> set ts \<Longrightarrow> (\<forall>x y z. F x y z = sha_f t x y z) \<and> K = sha_K t"
  shows "foldl (DO_ROUND F K) r (map (sched M) ts) = fold (sha_round M) ts r"
  using assms
proof (induction ts arbitrary: r)
  case (Cons t ts)
  then have "DO_ROUND F K r (sched M t) = sha_round M t r" by (intro DO_ROUND_sha_round) auto
  with Cons show ?case by simp
qed simp

lemma foldl_rounds_upt:
  assumes "\<And>t. i \<le> t \<Longrightarrow> t < j \<Longrightarrow> (\<forall>x y z. F x y z = sha_f t x y z) \<and> K = sha_K t"
  shows "foldl (DO_ROUND F K) r (map (sched M) [i..<j]) = fold (sha_round M) [i..<j] r"
  using assms by (intro foldl_rounds) simp

lemma guts_add_unfold:
  "guts_add h r = (case r of (a, b, c, d, e) \<Rightarrow> [h ! 0 + a, h ! 1 + b, h ! 2 + c, h ! 3 + d, h ! 4 + e])"
  by (cases r) simp

lemma SHA1Guts_compress:
  assumes "length bs = 64"
  shows "SHA1Guts sc (buffer_words bs) = sc\<lparr>hash := sha_compress (hash sc) bs\<rparr>"
proof -
  let ?M = "block_words bs"
  have W: "guts_expand 64 (map BYTESWAP (buffer_words bs)) = map (sched ?M) [0..<80]"
    using assms guts_expand_sched [of 64 ?M 0] by (simp only: block_words_sched) simp
  have parts: "take 20 (drop k (map (sched ?M) [0..<80])) = map (sched ?M) [k..<k + 20]" if "k \<le> 60" for k
    using that by (simp add: take_map drop_map)
  have split: "[0..<80] = [0..<20] @ [20..<40] @ [40..<60] @ [60..<80]"
    using upt_add_eq_append [of 0 20 60] upt_add_eq_append [of 20 40 40]
      upt_add_eq_append [of 40 60 20] by simp
  have f1: "foldl (DO_ROUND F_0_19 K_0_19) r (map (sched ?M) [0..<20]) = fold (sha_round ?M) [0..<20] r"
    and f2: "foldl (DO_ROUND F_20_39 K_20_39) r (map (sched ?M) [20..<40]) = fold (sha_round ?M) [20..<40] r"
    and f3: "foldl (DO_ROUND F_40_59 K_40_59) r (map (sched ?M) [40..<60]) = fold (sha_round ?M) [40..<60] r"
    and f4: "foldl (DO_ROUND F_60_79 K_60_79) r (map (sched ?M) [60..<80]) = fold (sha_round ?M) [60..<80] r"
    for r
    by (rule foldl_rounds_upt; simp add: sha_f_def sha_K_def F_0_19_Ch F_40_59_Maj F_20_39_Parity
        K_0_19_def K_20_39_def K_40_59_def K_60_79_def)+
  have all: "foldl (DO_ROUND F_60_79 K_60_79) (foldl (DO_ROUND F_40_59 K_40_59)
      (foldl (DO_ROUND F_20_39 K_20_39) (foldl (DO_ROUND F_0_19 K_0_19) r
        (map (sched ?M) [0..<20])) (map (sched ?M) [20..<40])) (map (sched ?M) [40..<60]))
        (map (sched ?M) [60..<80]) = fold (sha_round ?M) [0..<80] r" for r
    by (simp only: f1 f2 f3 f4 split fold_append comp_apply)
  have t0: "take 20 (map (sched ?M) [0..<80]) = map (sched ?M) [0..<20]"
    and t1: "take 20 (drop 20 (map (sched ?M) [0..<80])) = map (sched ?M) [20..<40]"
    and t2: "take 20 (drop 40 (map (sched ?M) [0..<80])) = map (sched ?M) [40..<60]"
    and t3: "take 20 (drop 60 (map (sched ?M) [0..<80])) = map (sched ?M) [60..<80]"
    using parts [of 0] parts [of 20] parts [of 40] parts [of 60] by (simp_all del: upt.simps)
  show ?thesis
    unfolding SHA1Guts_def guts_rounds_def Let_def W sha_compress_def t0 t1 t2 t3 all
    by (simp only: split_beta guts_add_unfold)
qed

section \<open>The stream\<close>

text \<open>
  \<open>sha_rep sc xs\<close>: the context has absorbed the message bytes \<open>xs\<close>: the full blocks are hashed,
  the rest lies at the front of the buffer, the length counts bits.
\<close>

definition sha_rep :: "SHA1Context \<Rightarrow> byte list \<Rightarrow> bool" where
  "sha_rep sc xs \<longleftrightarrow>
     hash sc = foldl sha_compress sha_H0 (blocks64 xs) \<and>
     bufferLength sc = of_nat (length xs mod 64) \<and>
     take (length xs mod 64) (buffer sc) = drop (64 * (length xs div 64)) xs \<and>
     length (buffer sc) = 64 \<and>
     totalLength sc = of_nat (8 * length xs)"

lemma blocks64_append_short:
  assumes "length xs mod 64 + length ys < 64"
  shows "blocks64 (xs @ ys) = blocks64 xs"
proof -
  have "take 64 (drop (64 * i) (xs @ ys)) = take 64 (drop (64 * i) xs)" if "i < length xs div 64" for i
    using block_within [OF that] by simp
  then show ?thesis using div_mod_add_short [OF assms] by (simp add: blocks64_def)
qed

lemma blocks64_append_full:
  assumes "length xs mod 64 + length ys = 64"
  shows "blocks64 (xs @ ys) = blocks64 xs @ [drop (64 * (length xs div 64)) xs @ ys]"
proof -
  let ?k = "length xs div 64"
  note full = div_mod_add_full [OF assms]
  have "take 64 (drop (64 * i) (xs @ ys)) = take 64 (drop (64 * i) xs)" if "i < ?k" for i
    using block_within [OF that] by simp
  moreover have "take 64 (drop (64 * ?k) (xs @ ys)) = drop (64 * ?k) xs @ ys"
    using full(3) by simp
  ultimately show ?thesis using full(1) by (simp add: blocks64_def)
qed

lemma sha_rep_init: "length (buffer sc) = 64 \<Longrightarrow> sha_rep (SHA1Init sc) []"
  by (simp add: sha_rep_def SHA1Init_def blocks64_def sha_H0_def)

text \<open>One round of the copy loop, with \<open>n\<close> bytes copied.\<close>

definition update_round :: "SHA1Context \<Rightarrow> byte list \<Rightarrow> SHA1Context" where
  "update_round sc ys =
     (let m = unat (bufferLength sc);
          buf = take m (buffer sc) @ ys @ drop (m + length ys) (buffer sc);
          sc1 = sc\<lparr>buffer := buf, totalLength := totalLength sc + of_nat (length ys) * 8,
            bufferLength := bufferLength sc + of_nat (length ys)\<rparr>
      in if bufferLength sc1 = 64 then (SHA1Guts sc1 (buffer_words buf))\<lparr>bufferLength := 0\<rparr> else sc1)"

lemma unat_of_nat_small: "k < 2 ^ 32 \<Longrightarrow> unat (of_nat k :: u32) = k"
  by (simp add: unat_of_nat take_bit_nat_eq_self)

lemma sha_rep_update_round:
  assumes rep: "sha_rep sc xs" and n: "length xs mod 64 + length ys \<le> 64"
  shows "sha_rep (update_round sc ys) (xs @ ys)"
proof -
  let ?m = "length xs mod 64" and ?k = "length xs div 64"
  let ?buf = "take ?m (buffer sc) @ ys @ drop (?m + length ys) (buffer sc)"
  have m: "unat (bufferLength sc) = ?m"
    using rep by (simp add: sha_rep_def unat_of_nat_small)
  have len: "length (buffer sc) = 64" "length ?buf = 64"
    using rep n by (auto simp: sha_rep_def)
  have rest: "take ?m (buffer sc) = drop (64 * ?k) xs"
    using rep by (simp add: sha_rep_def)
  have tot: "totalLength sc + of_nat (length ys) * 8 = of_nat (8 * length (xs @ ys))"
    using rep by (simp add: sha_rep_def algebra_simps)
  have bl: "bufferLength sc + of_nat (length ys) = of_nat (?m + length ys)"
    using rep by (simp add: sha_rep_def)
  show ?thesis
  proof (cases "?m + length ys = 64")
    case True
    then have full: "bufferLength sc + of_nat (length ys) = 64" using bl by simp
    have "?m + length ys \<ge> length (buffer sc)" using True len by simp
    then have buf: "?buf = drop (64 * ?k) xs @ ys" using rest by simp
    have md: "(length xs + length ys) mod 64 = 0" "64 * ((length xs + length ys) div 64) = length xs + length ys"
      using div_mod_add_full [OF True] by simp_all
    have eq: "update_round sc ys = sc\<lparr>buffer := ?buf,
        totalLength := totalLength sc + of_nat (length ys) * 8,
        hash := sha_compress (hash sc) ?buf, bufferLength := 0\<rparr>"
      unfolding update_round_def Let_def m using full SHA1Guts_compress [OF len(2)] by simp
    show ?thesis
      unfolding eq sha_rep_def buf
      using rep len(2) [unfolded buf] tot md blocks64_append_full [OF True]
      by (simp add: sha_rep_def)
  next
    case False
    then have small: "?m + length ys < 64" using n by simp
    then have nf: "of_nat (?m + length ys) \<noteq> (64 :: u32)"
      using unat_of_nat_small [of "?m + length ys"] by auto
    have md: "(length xs + length ys) mod 64 = ?m + length ys" "(length xs + length ys) div 64 = ?k"
      using div_mod_add_short [OF small] by simp_all
    have "64 * ?k \<le> length xs" by simp
    then have "take (?m + length ys) ?buf = drop (64 * ?k) (xs @ ys)"
      using rest len by simp
    moreover have eq: "update_round sc ys = sc\<lparr>buffer := ?buf,
        totalLength := totalLength sc + of_nat (length ys) * 8,
        bufferLength := bufferLength sc + of_nat (length ys)\<rparr>"
      unfolding update_round_def Let_def m using nf bl by simp
    ultimately show ?thesis
      unfolding eq sha_rep_def
      using rep nf bl len(2) tot md blocks64_append_short [OF small]
        minus_mult_div_eq_mod [of "length xs" 64]
      by (simp add: sha_rep_def)
  qed
qed

lemma SHA1Update_loop_step:
  assumes "len \<noteq> 0" "c = (if 64 - bufferLength sc > len then len else 64 - bufferLength sc)"
    "unat c \<le> length data" "unat (bufferLength sc) + unat c \<le> length (buffer sc)"
  shows "SHA1Update_loop (Suc k) sc data len =
    SHA1Update_loop k (update_round sc (take (unat c) data)) (drop (unat c) data) (len - c)"
proof -
  have len: "length (take (unat c) data) = unat c" using assms(3) by simp
  have rd: "buf_read data 0 (unat c) = Inr (take (unat c) data)"
    using assms(3) by (simp add: buf_read_def)
  have wr: "buf_write (buffer sc) (unat (bufferLength sc)) (take (unat c) data) =
      Inr (take (unat (bufferLength sc)) (buffer sc) @ take (unat c) data @
        drop (unat (bufferLength sc) + unat c) (buffer sc))"
    using assms(4) len by (simp add: buf_write_def)
  show ?thesis
    unfolding SHA1Update_loop.simps [of "Suc k" sc data len] update_round_def Let_def
      assms(2) [symmetric] rd rbind_simps wr len
    using assms(1) by (simp add: wr)
qed

lemma SHA1Update_loop_rep:
  assumes "sha_rep sc xs" "unat len \<le> length data" "unat len < fuel"
  shows "ok (SHA1Update_loop fuel sc data len) (\<lambda>sc'. sha_rep sc' (xs @ take (unat len) data))"
  using assms
proof (induction fuel arbitrary: sc xs data len)
  case 0
  then show ?case by simp
next
  case (Suc k)
  show ?case
  proof (cases "len = 0")
    case True
    with Suc.prems show ?thesis by (simp add: SHA1Update_loop.simps)
  next
    case False
    let ?m = "length xs mod 64"
    have bl: "bufferLength sc = of_nat ?m" "length (buffer sc) = 64"
      using Suc.prems(1) by (simp_all add: sha_rep_def)
    have m: "unat (bufferLength sc) = ?m" "?m < 64"
      using unat_of_nat_small [of ?m] by (simp_all add: bl)
    have left: "unat (64 - bufferLength sc) = 64 - ?m"
      using m by (simp add: unat_sub word_le_nat_alt)
    define c where "c = (if 64 - bufferLength sc > len then len else 64 - bufferLength sc)"
    define n where "n = unat c"
    have n: "n = min (unat len) (64 - ?m)"
      using left by (auto simp: c_def n_def word_less_nat_alt)
    have pos: "0 < n" using n m False by (simp add: unat_gt_0)
    let ?ys = "take n data"
    have ys: "length ?ys = n" using Suc.prems(2) n by simp
    have cle: "c \<le> len" using n by (simp add: word_le_nat_alt flip: n_def)
    have rest: "unat (len - c) = unat len - n" using cle by (simp add: unat_sub n_def)
    have step: "SHA1Update_loop (Suc k) sc data len =
        SHA1Update_loop k (update_round sc ?ys) (drop n data) (len - c)"
      using SHA1Update_loop_step [OF False c_def] Suc.prems(2) n m bl(2) by (simp flip: n_def)
    have "?m + n \<le> 64" using n m(2) by linarith
    then have "sha_rep (update_round sc ?ys) (xs @ ?ys)"
      using ys by (intro sha_rep_update_round [OF Suc.prems(1)]) simp
    then have "ok (SHA1Update_loop k (update_round sc ?ys) (drop n data) (len - c))
        (\<lambda>sc'. sha_rep sc' ((xs @ ?ys) @ take (unat (len - c)) (drop n data)))"
      using Suc.prems(2,3) n pos by (intro Suc.IH) (simp_all add: rest diff_le_mono)
    moreover have "(xs @ ?ys) @ take (unat (len - c)) (drop n data) = xs @ take (unat len) data"
      using n rest by (simp add: take_add [symmetric])
    ultimately show ?thesis using step by simp
  qed
qed

lemma SHA1Update_rep:
  "sha_rep sc xs \<Longrightarrow> unat len \<le> length data \<Longrightarrow>
   ok (SHA1Update sc data len) (\<lambda>sc'. sha_rep sc' (xs @ take (unat len) data))"
  unfolding SHA1Update_def by (rule SHA1Update_loop_rep) auto

lemma sha_rep_Update_append:
  assumes "sha_rep sc xs" "unat k \<le> length ys"
    "unat l \<le> length zs" "\<And>sc. sha_rep sc (xs @ take (unat k) ys @ take (unat l) zs) \<Longrightarrow> P sc"
  shows "ok (rbind (SHA1Update sc ys k) (\<lambda>sc1. SHA1Update sc1 zs l)) P"
proof -
  obtain sc1 where sc1: "SHA1Update sc ys k = Inr sc1" "sha_rep sc1 (xs @ take (unat k) ys)"
    using SHA1Update_rep [OF assms(1,2)] by (auto simp: ok_iff)
  obtain sc2 where "SHA1Update sc1 zs l = Inr sc2"
      "sha_rep sc2 ((xs @ take (unat k) ys) @ take (unat l) zs)"
    using SHA1Update_rep [OF sc1(2) assms(3)] by (auto simp: ok_iff)
  then show ?thesis using sc1 assms(4) by simp
qed

section \<open>Padding and the digest\<close>

lemma le32_BYTESWAP: "le32 (BYTESWAP x) = be32 x"
proof -
  have "BYTESWAP x = of_le32 (ucast (drop_bit 24 x)) (ucast (drop_bit 16 x)) (ucast (drop_bit 8 x)) (ucast x)"
    using BYTESWAP_le32 [of "ucast x" "ucast (drop_bit 8 x)" "ucast (drop_bit 16 x)" "ucast (drop_bit 24 x)"]
    by simp
  then show ?thesis by (simp add: le32_def be32_def)
qed

lemma bit_u32_beyond: "32 \<le> n \<Longrightarrow> \<not> bit (a :: u32) n"
  by (auto dest: bit_imp_le_length)

lemma words64_low: "ucast (push_bit 32 (ucast (a :: u32)) OR ucast b :: u64) = (b :: u32)"
  by (rule bit_word_eqI) (auto simp: bit_simps)

lemma words64_high: "ucast (drop_bit 32 (push_bit 32 (ucast a) OR ucast (b :: u32) :: u64)) = (a :: u32)"
  by (rule bit_word_eqI) (auto simp: bit_simps bit_u32_beyond)

lemma le64_BYTESWAP64: "le64 (BYTESWAP64 x) = be64 x"
  by (simp only: le64_def be64_def BYTESWAP64_def Let_def words64_low words64_high le32_BYTESWAP)

lemma hash_out_be32: "hash_out h = concat (map be32 h)"
  by (simp add: hash_out_def be32_def [abs_def])

lemma length_le64: "length (le64 x) = 8"
  by (simp add: le64_def)

definition pad_bytes :: "nat \<Rightarrow> nat" where
  "pad_bytes m = (if m < 56 then 56 - m else 120 - m)"

lemma take_padding: "0 < k \<Longrightarrow> k \<le> 64 \<Longrightarrow> take k padding = 0x80 # replicate (k - 1) 0"
  by (cases k) (simp_all add: padding_def)

lemma pad_count: "m < 64 \<Longrightarrow> pad_bytes m - 1 = (119 - m) mod 64"
  by (auto simp: pad_bytes_def mod_if)

lemma unat_bytesToPad:
  assumes "m < 64"
  shows "unat (if 120 - of_nat m > (64 :: u32) then 120 - of_nat m - 64 else 120 - of_nat m :: u32) =
    pad_bytes m"
proof -
  have m: "unat (of_nat m :: u32) = m" using assms by (simp add: unat_of_nat_small)
  have sub: "unat (k - of_nat m :: u32) = unat k - m" if "m \<le> unat k" for k
    using that m by (simp add: unat_sub word_le_nat_alt)
  show ?thesis
    using assms sub [of 120] sub [of 56] by (simp add: pad_bytes_def word_less_nat_alt)
qed

lemma sha_pad_eq:
  "sha_pad msg = msg @ take (pad_bytes (length msg mod 64)) padding @ be64 (of_nat (8 * length msg))"
proof -
  have m: "length msg mod 64 < 64" by simp
  have "0 < pad_bytes (length msg mod 64)" "pad_bytes (length msg mod 64) \<le> 64"
    using m by (auto simp: pad_bytes_def)
  then show ?thesis by (simp add: sha_pad_def take_padding flip: pad_count [OF m])
qed

lemma SHA1Final_rep:
  assumes "sha_rep sc msg"
  shows "ok (SHA1Final sc) (\<lambda>(sc', digest). digest = sha1_spec msg)"
proof -
  let ?m = "length msg mod 64"
  define pad where "pad = (if 120 - of_nat ?m > (64 :: u32) then 120 - of_nat ?m - 64 else 120 - of_nat ?m :: u32)"
  have pad: "unat pad = pad_bytes ?m" unfolding pad_def by (rule unat_bytesToPad) simp
  have "pad_bytes ?m \<le> 64" by (auto simp: pad_bytes_def)
  then have pl: "unat pad \<le> length padding" using pad by (simp add: padding_def)
  have bl: "bufferLength sc = of_nat ?m" "totalLength sc = of_nat (8 * length msg)"
    using assms by (simp_all add: sha_rep_def)
  have len: "le64 (BYTESWAP64 (totalLength sc)) = be64 (of_nat (8 * length msg))"
    by (simp only: bl le64_BYTESWAP64)
  have "ok (rbind (SHA1Update sc padding pad) (\<lambda>sc1. SHA1Update sc1 (le64 (BYTESWAP64 (totalLength sc))) 8))
      (\<lambda>sc'. hash_out (hash sc') = sha1_spec msg)"
  proof (rule sha_rep_Update_append [OF assms pl])
    fix sc' assume "sha_rep sc' (msg @ take (unat pad) padding @
      take (unat (8 :: u32)) (le64 (BYTESWAP64 (totalLength sc))))"
    then have "sha_rep sc' (sha_pad msg)"
      using length_le64 [of "BYTESWAP64 (totalLength sc)"] len pad sha_pad_eq [of msg] by simp
    then show "hash_out (hash sc') = sha1_spec msg"
      by (simp add: sha_rep_def hash_out_be32 sha1_spec_def)
  qed (simp add: length_le64)
  then show ?thesis
    unfolding SHA1Final_def Let_def bl(1) pad_def [symmetric]
    by (auto simp: ok_iff rbind_Inr_iff)
qed

lemma length_sha_compress [simp]: "length (sha_compress h bs) = 5"
  by (simp add: sha_compress_def Let_def split_beta)

lemma length_sha1_spec: "length (sha1_spec msg) = 20"
proof -
  have "length (foldl sha_compress h bss) = 5" if "length h = 5" for h bss
    using that by (induction bss arbitrary: h) auto
  then have "length (foldl sha_compress sha_H0 (blocks64 (sha_pad msg))) = 5"
    by (simp add: sha_H0_def)
  then show ?thesis
    by (simp add: sha1_spec_def length_concat o_def sum_list_triv)
qed

end
