(* ===== verification/Chunk_C.thy ===== *)
theory Chunk_C
  imports Packet_C Sha_Correct
begin

text \<open>
  \<open>chunk.c\<close> and \<open>chunk.h\<close>: the conversions between binary hashes and their hexadecimal text, the
  hash of a buffer, and the division of a file into hashed chunks. Characters are bytes; \<open>char\<close> is
  signed, so the digit test of the decoder compares signed values.
\<close>

section \<open>Operations\<close>

definition BT_CHUNK_SIZE :: nat where "BT_CHUNK_SIZE = 512 * 1024"

definition hex_digit :: "byte \<Rightarrow> byte" where
  "hex_digit d = (if d < 10 then d + 48 else d + 87)"

text \<open>
  \<open>sprintf(hex + i * 2, "%.2x", buf[i])\<close> writes two digits and the NUL that ends its string, so the
  target needs \<open>2 * len + 1\<close> bytes.
\<close>

definition sprintf_02x :: "byte \<Rightarrow> byte list" where
  "sprintf_02x b = [hex_digit (drop_bit 4 b), hex_digit (b AND 15), 0]"

function binary2hex_loop :: "nat \<Rightarrow> byte list \<Rightarrow> nat \<Rightarrow> byte list \<Rightarrow> byte list res" where
  "binary2hex_loop i buf len hex =
     (if i < len then
        rbind (bget buf i) (\<lambda>b.
        rbind (buf_write hex (i * 2) (sprintf_02x b)) (\<lambda>hex'.
        binary2hex_loop (Suc i) buf len hex'))
      else Inr hex)"
  by pat_completeness auto
termination by (relation "measure (\<lambda>(i, buf, len, hex). len - i)") auto

declare binary2hex_loop.simps [simp del]

definition binary2hex :: "byte list \<Rightarrow> nat \<Rightarrow> byte list \<Rightarrow> byte list res" where
  "binary2hex buf len hex = rbind (binary2hex_loop 0 buf len hex) (\<lambda>hex'. bset hex' (len * 2) 0)"

definition toupper :: "byte \<Rightarrow> byte" where
  "toupper c = (if 97 \<le> c \<and> c \<le> 122 then c - 32 else c)"

definition hex2binary_digit :: "byte \<Rightarrow> byte" where
  "hex2binary_digit c = (let hex = toupper c in if sint hex \<le> 57 then hex - 48 else hex - (65 - 10))"

function hex2binary_loop :: "nat \<Rightarrow> byte list \<Rightarrow> nat \<Rightarrow> byte list \<Rightarrow> byte list res" where
  "hex2binary_loop i hex len buf =
     (if i < len then
        rbind (bget hex i) (\<lambda>h.
        rbind (bget hex (i + 1)) (\<lambda>l.
        rbind (bset buf (i div 2) (push_bit 4 (hex2binary_digit h) OR hex2binary_digit l)) (\<lambda>buf'.
        hex2binary_loop (i + 2) hex len buf')))
      else Inr buf)"
  by pat_completeness auto
termination by (relation "measure (\<lambda>(i, hex, len, buf). len - i)") auto

declare hex2binary_loop.simps [simp del]

definition hex2binary :: "byte list \<Rightarrow> nat \<Rightarrow> byte list \<Rightarrow> byte list res" where
  "hex2binary hex len buf = hex2binary_loop 0 hex len buf"

text \<open>The context of \<open>shahash\<close> is an uninitialised local variable.\<close>

definition local_context :: "machine \<Rightarrow> SHA1Context" where
  "local_context m = \<lparr>totalLength = 0, hash = [], bufferLength = 0,
     buffer = map (stack_byte m) [0..<64]\<rparr>"

definition shahash :: "machine \<Rightarrow> byte list \<Rightarrow> u32 \<Rightarrow> byte list \<Rightarrow> byte list res" where
  "shahash m str len target =
     rbind (SHA1Update (SHA1Init (local_context m)) str len) (\<lambda>sha.
     rbind (SHA1Final sha) (\<lambda>(sha', digest). buf_write target 0 digest))"

text \<open>
  \<open>make_chunks\<close>: the file is what is left to read; \<open>fread\<close> returns at most \<open>BT_CHUNK_SIZE\<close> bytes and
  0 at the end. \<open>chunk_hashes\<close> is the array of hash buffers the caller allocated.
\<close>

function make_chunks_loop ::
    "machine \<Rightarrow> byte list \<Rightarrow> nat \<Rightarrow> byte list list \<Rightarrow> (nat \<times> byte list list) res" where
  "make_chunks_loop m fp numchunks chunk_hashes =
     (let buffer = take BT_CHUNK_SIZE fp; numbytes = length buffer
      in if numbytes > 0 then
           rbind (bget chunk_hashes numchunks) (\<lambda>target.
           rbind (shahash m buffer (of_nat numbytes) target) (\<lambda>target'.
           make_chunks_loop m (drop numbytes fp) (Suc numchunks) (chunk_hashes[numchunks := target'])))
         else Inr (numchunks, chunk_hashes))"
  by pat_completeness auto
termination by (relation "measure (\<lambda>(m, fp, n, h). length fp)") (auto simp: BT_CHUNK_SIZE_def)

declare make_chunks_loop.simps [simp del]

definition make_chunks :: "machine \<Rightarrow> byte list \<Rightarrow> byte list list \<Rightarrow> (nat \<times> byte list list) res" where
  "make_chunks m fp chunk_hashes = make_chunks_loop m fp 0 chunk_hashes"

section \<open>Hexadecimal text\<close>

definition hex_string :: "byte list \<Rightarrow> byte list" where
  "hex_string bs = concat (map (\<lambda>b. [hex_digit (drop_bit 4 b), hex_digit (b AND 15)]) bs)"

fun unhex :: "byte list \<Rightarrow> byte list" where
  "unhex (h # l # s) = (push_bit 4 (hex2binary_digit h) OR hex2binary_digit l) # unhex s"
| "unhex _ = []"

lemma length_hex_string [simp]: "length (hex_string bs) = 2 * length bs"
  by (induction bs) (simp_all add: hex_string_def)

lemma hex_string_append: "hex_string (xs @ ys) = hex_string xs @ hex_string ys"
  by (simp add: hex_string_def)

lemma length_unhex: "length (unhex s) = length s div 2"
  by (induction s rule: unhex.induct) auto

lemma small_byte_cases:
  assumes "(d :: byte) < 16"
  shows "d \<in> {0, 1, 2, 3, 4, 5, 6, 7, 8, 9, 10, 11, 12, 13, 14, 15}"
proof -
  have "unat d < 16" using assms by (simp add: word_less_nat_alt)
  then have "unat d \<in> set [0..<16]" by simp
  then have "\<exists>k \<in> set [0..<16]. d = of_nat k" by (metis of_nat_unat ucast_id)
  then show ?thesis by (simp add: upt_rec)
qed

lemma hex2binary_digit_hex_digit: "d < 16 \<Longrightarrow> hex2binary_digit (hex_digit d) = d"
  by (drule small_byte_cases) (auto simp: hex2binary_digit_def hex_digit_def toupper_def)

lemma hex_digit_not_nul: "d < 16 \<Longrightarrow> hex_digit d \<noteq> 0"
  by (drule small_byte_cases) (auto simp: hex_digit_def)

lemma nibble_less: "drop_bit 4 b < (16 :: byte)" "b AND 15 < (16 :: byte)"
proof -
  have "unat (drop_bit 4 b) < 16"
    using unsigned_less [of b, where 'a = nat] by (simp add: drop_bit_eq_div unat_div)
  then show "drop_bit 4 b < (16 :: byte)" by (simp add: word_less_nat_alt)
  have "b AND 15 \<le> (15 :: byte)" by (rule word_and_le1)
  then show "b AND 15 < (16 :: byte)" by (simp add: word_le_nat_alt word_less_nat_alt)
qed

lemma nibbles: "push_bit 4 (drop_bit 4 b) OR (b AND 15) = (b :: byte)"
proof (rule bit_word_eqI)
  fix n assume "n < LENGTH(8)"
  then have "n \<in> set [0..<8]" by simp
  then show "bit (push_bit 4 (drop_bit 4 b) OR (b AND 15)) n = bit b n"
    by (simp add: upt_rec bit_simps) (elim disjE; simp add: bit_simps numeral_eq_Suc)
qed

lemma unhex_hex_string: "unhex (hex_string bs) = bs"
  by (induction bs) (simp_all add: hex_string_def hex2binary_digit_hex_digit nibble_less nibbles)

lemma nul_notin_hex_string: "0 \<notin> set (hex_string bs)"
  using hex_digit_not_nul [OF nibble_less(1)] hex_digit_not_nul [OF nibble_less(2)]
  by (auto simp: hex_string_def)

lemma length_sprintf_02x [simp]: "length (sprintf_02x b) = 3"
  by (simp add: sprintf_02x_def)

lemma unhex_append: "even (length xs) \<Longrightarrow> unhex (xs @ ys) = unhex xs @ unhex ys"
  by (induction xs rule: unhex.induct) auto

lemma take_Suc_hex:
  "i < length buf \<Longrightarrow> hex_string (take (Suc i) buf) =
    hex_string (take i buf) @ [hex_digit (drop_bit 4 (buf ! i)), hex_digit (buf ! i AND 15)]"
  by (simp add: take_Suc_conv_app_nth hex_string_append) (simp add: hex_string_def)

lemma binary2hex_loop_spec:
  assumes "i \<le> len" "len \<le> length buf" "2 * len + 1 \<le> length hex"
    "take (2 * i) hex = hex_string (take i buf)"
  shows "ok (binary2hex_loop i buf len hex) (\<lambda>hex'. length hex' = length hex \<and>
    take (2 * len) hex' = hex_string (take len buf) \<and>
    drop (2 * len + 1) hex' = drop (2 * len + 1) hex)"
  using assms
proof (induction i buf len hex rule: binary2hex_loop.induct)
  case (1 i buf len hex)
  show ?case
  proof (cases "i < len")
    case False
    with "1.prems" show ?thesis by (simp add: binary2hex_loop.simps)
  next
    case True
    let ?hex = "take (2 * i) hex @ sprintf_02x (buf ! i) @ drop (2 * i + 3) hex"
    have get: "bget buf i = Inr (buf ! i)" using True "1.prems" by (simp add: bget_def)
    have wr: "buf_write hex (i * 2) (sprintf_02x (buf ! i)) = Inr ?hex"
      using True "1.prems" by (simp add: buf_write_def mult.commute)
    have step: "binary2hex_loop i buf len hex = binary2hex_loop (Suc i) buf len ?hex"
      using True get wr by (subst binary2hex_loop.simps) simp
    have pre: "take (2 * Suc i) ?hex = hex_string (take (Suc i) buf)"
      using True "1.prems" take_Suc_hex [of i buf] by (simp add: sprintf_02x_def)
    have same: "drop (2 * len + 1) ?hex = drop (2 * len + 1) hex" "length ?hex = length hex"
      using True "1.prems" by simp_all
    have "ok (binary2hex_loop (Suc i) buf len ?hex) (\<lambda>hex'. length hex' = length ?hex \<and>
        take (2 * len) hex' = hex_string (take len buf) \<and>
        drop (2 * len + 1) hex' = drop (2 * len + 1) ?hex)"
      using True "1.prems" pre same(2) by (intro "1.IH" [OF True get wr]) simp_all
    with step same show ?thesis by simp
  qed
qed

lemma binary2hex_spec:
  assumes "len \<le> length buf" "2 * len + 1 \<le> length hex"
  shows "binary2hex buf len hex = Inr (hex_string (take len buf) @ 0 # drop (2 * len + 1) hex)"
proof -
  obtain h where h: "binary2hex_loop 0 buf len hex = Inr h" "length h = length hex"
      "take (2 * len) h = hex_string (take len buf)" "drop (2 * len + 1) h = drop (2 * len + 1) hex"
    using binary2hex_loop_spec [of 0 len buf hex] assms by (auto simp: ok_iff hex_string_def)
  have "h[2 * len := 0] = take (2 * len) h @ 0 # drop (2 * len + 1) h"
    using h(2) assms by (simp add: upd_conv_take_nth_drop)
  with h assms show ?thesis by (simp add: binary2hex_def bset_def mult.commute)
qed

lemma binary2hex_loop_overflow:
  "i < len \<Longrightarrow> len \<le> length buf \<Longrightarrow> length hex < 2 * len + 1 \<Longrightarrow>
   binary2hex_loop i buf len hex = Inl Out_Of_Bounds"
proof (induction i buf len hex rule: binary2hex_loop.induct)
  case (1 i buf len hex)
  have get: "bget buf i = Inr (buf ! i)" using "1.prems" by (simp add: bget_def)
  show ?case
  proof (cases "i * 2 + 3 \<le> length hex")
    case False
    then have "buf_write hex (i * 2) (sprintf_02x (buf ! i)) = Inl Out_Of_Bounds"
      by (simp add: buf_write_def sprintf_02x_def)
    with "1.prems" get show ?thesis by (subst binary2hex_loop.simps) simp
  next
    case True
    let ?hex = "take (i * 2) hex @ sprintf_02x (buf ! i) @ drop (i * 2 + 3) hex"
    have wr: "buf_write hex (i * 2) (sprintf_02x (buf ! i)) = Inr ?hex"
      using True by (simp add: buf_write_def)
    have len: "length ?hex = length hex" using True by (simp add: sprintf_02x_def)
    have "Suc i < len" using "1.prems" True by linarith
    then have "binary2hex_loop (Suc i) buf len ?hex = Inl Out_Of_Bounds"
      using "1.prems" len by (intro "1.IH" [OF _ get wr]) simp_all
    then show ?thesis using "1.prems" get wr by (subst binary2hex_loop.simps) simp
  qed
qed

lemma binary2hex_overflow:
  "len \<le> length buf \<Longrightarrow> length hex < 2 * len + 1 \<Longrightarrow> binary2hex buf len hex = Inl Out_Of_Bounds"
  using binary2hex_loop_overflow [of 0 len buf hex]
  by (cases "len = 0") (simp_all add: binary2hex_def bset_def binary2hex_loop.simps)

lemma hex2binary_loop_spec:
  assumes "k \<le> n" "2 * n \<le> length hex" "n \<le> length buf" "take k buf = unhex (take (2 * k) hex)"
  shows "hex2binary_loop (2 * k) hex (2 * n) buf = Inr (unhex (take (2 * n) hex) @ drop n buf)"
  using assms
proof (induction "n - k" arbitrary: k buf)
  case 0
  then have "k = n" by simp
  with "0.prems" show ?case
    by (subst hex2binary_loop.simps) (simp, metis append_take_drop_id)
next
  case (Suc d)
  then have k: "k < n" by linarith
  let ?v = "push_bit 4 (hex2binary_digit (hex ! (2 * k))) OR hex2binary_digit (hex ! (2 * k + 1))"
  let ?buf = "buf[k := ?v]"
  have two: "take (2 * Suc k) hex = take (2 * k) hex @ [hex ! (2 * k), hex ! (2 * k + 1)]"
    using k Suc.prems by (simp add: take_Suc_conv_app_nth)
  have "take (Suc k) ?buf = unhex (take (2 * Suc k) hex)"
    using k Suc.prems by (simp only: two unhex_append) (simp add: take_Suc_conv_app_nth unhex_append)
  then have "hex2binary_loop (2 * Suc k) hex (2 * n) ?buf = Inr (unhex (take (2 * n) hex) @ drop n ?buf)"
    using Suc k by (intro Suc.hyps(1)) simp_all
  then show ?case
    using k Suc.prems by (subst hex2binary_loop.simps) (simp add: bget_def bset_def)
qed

lemma hex2binary_spec:
  "2 * n \<le> length hex \<Longrightarrow> n \<le> length buf \<Longrightarrow>
   hex2binary hex (2 * n) buf = Inr (unhex (take (2 * n) hex) @ drop n buf)"
  using hex2binary_loop_spec [of 0 n hex buf] by (simp add: hex2binary_def)

lemma hex2binary_loop_overflow:
  "i < len \<Longrightarrow> even i \<Longrightarrow> length buf < (len + 1) div 2 \<Longrightarrow>
   hex2binary_loop i hex len buf = Inl Out_Of_Bounds"
proof (induction i hex len buf rule: hex2binary_loop.induct)
  case (1 i hex len buf)
  let ?v = "push_bit 4 (hex2binary_digit (hex ! i)) OR hex2binary_digit (hex ! (i + 1))"
  consider "length hex \<le> i + 1" | "i + 1 < length hex" "length buf \<le> i div 2"
    | "i + 1 < length hex" "i div 2 < length buf" by linarith
  then show ?case
  proof cases
    case 3
    have "i + 2 < len" using 3(2) "1.prems" by (elim evenE) simp
    then have "hex2binary_loop (i + 2) hex len (buf[i div 2 := ?v]) = Inl Out_Of_Bounds"
      using 3 "1.prems" by (intro "1.IH") (simp_all add: bget_def bset_def)
    with 3 "1.prems" show ?thesis by (subst hex2binary_loop.simps) (simp add: bget_def bset_def)
  qed (use "1.prems" in \<open>subst hex2binary_loop.simps, simp add: bget_def bset_def\<close>)+
qed

lemma hex2binary_overflow:
  "length buf < (len + 1) div 2 \<Longrightarrow> hex2binary hex len buf = Inl Out_Of_Bounds"
  using hex2binary_loop_overflow [of 0 len buf hex] by (simp add: hex2binary_def)

section \<open>Hashes of buffers and of files\<close>

lemma shahash_spec:
  assumes "unat len \<le> length str" "20 \<le> length target"
  shows "shahash m str len target = Inr (sha1_spec (take (unat len) str) @ drop 20 target)"
proof -
  have "sha_rep (SHA1Init (local_context m)) []"
    by (rule sha_rep_init) (simp add: local_context_def)
  from SHA1Update_rep [OF this assms(1)] obtain sha where
    sha: "SHA1Update (SHA1Init (local_context m)) str len = Inr sha" "sha_rep sha (take (unat len) str)"
    by (auto simp: ok_iff)
  from SHA1Final_rep [OF sha(2)] obtain sha' where
    "SHA1Final sha = Inr (sha', sha1_spec (take (unat len) str))"
    by (auto simp: ok_iff)
  with sha(1) assms(2) show ?thesis
    by (simp add: shahash_def buf_write_def length_sha1_spec)
qed

function file_chunks :: "byte list \<Rightarrow> byte list list" where
  "file_chunks f = (if f = [] then [] else take BT_CHUNK_SIZE f # file_chunks (drop BT_CHUNK_SIZE f))"
  by pat_completeness auto
termination by (relation "measure length") (auto simp: BT_CHUNK_SIZE_def)

declare file_chunks.simps [simp del]

lemma length_file_chunks: "length (file_chunks f) = (length f + BT_CHUNK_SIZE - 1) div BT_CHUNK_SIZE"
proof (induction f rule: file_chunks.induct)
  case (1 f)
  have pos: "0 < BT_CHUNK_SIZE" by (simp add: BT_CHUNK_SIZE_def)
  show ?case
  proof (cases "f = []")
    case True
    then show ?thesis using pos by (simp add: file_chunks.simps)
  next
    case False
    have "length f - BT_CHUNK_SIZE + BT_CHUNK_SIZE - 1 = length f - 1" if "BT_CHUNK_SIZE \<le> length f"
      using that by simp
    moreover have "(length f + BT_CHUNK_SIZE - 1) div BT_CHUNK_SIZE = Suc ((length f - 1) div BT_CHUNK_SIZE)"
    proof -
      have "length f + BT_CHUNK_SIZE - 1 = (length f - 1) + BT_CHUNK_SIZE"
        using False by (cases f) auto
      moreover have "((length f - 1) + BT_CHUNK_SIZE) div BT_CHUNK_SIZE = Suc ((length f - 1) div BT_CHUNK_SIZE)"
        using pos by (subst div_add_self2) auto
      ultimately show ?thesis by (simp only:)
    qed
    moreover have "(length f - BT_CHUNK_SIZE + BT_CHUNK_SIZE - 1) div BT_CHUNK_SIZE = 0 \<and>
        (length f - 1) div BT_CHUNK_SIZE = 0" if "\<not> BT_CHUNK_SIZE \<le> length f"
      using that False pos by (cases f) auto
    ultimately show ?thesis using 1 [OF False] False
      by (cases "BT_CHUNK_SIZE \<le> length f") (simp_all add: file_chunks.simps [of f])
  qed
qed

lemma make_chunks_loop_spec:
  assumes "k + length (file_chunks f) \<le> length hs" "\<forall>h \<in> set hs. length h = 20"
  shows "make_chunks_loop m f k hs = Inr (k + length (file_chunks f),
    take k hs @ map sha1_spec (file_chunks f) @ drop (k + length (file_chunks f)) hs)"
  using assms
proof (induction f arbitrary: k hs rule: file_chunks.induct)
  case (1 f)
  show ?case
  proof (cases "f = []")
    case True
    then show ?thesis by (simp add: make_chunks_loop.simps file_chunks.simps)
  next
    case False
    let ?b = "take BT_CHUNK_SIZE f" and ?r = "drop BT_CHUNK_SIZE f"
    have fc: "file_chunks f = ?b # file_chunks ?r" using False by (simp add: file_chunks.simps)
    have pos: "0 < length ?b" using False by (simp add: BT_CHUNK_SIZE_def)
    have "length ?b \<le> 524288" by (simp add: BT_CHUNK_SIZE_def)
    then have small: "unat (of_nat (length ?b) :: u32) = length ?b"
      by (intro unat_of_nat_small) simp
    have k: "k < length hs" using "1.prems"(1) fc by simp
    then have hk: "length (hs ! k) = 20" using "1.prems"(2) by simp
    have sha: "shahash m ?b (of_nat (length ?b)) (hs ! k) = Inr (sha1_spec ?b)"
      using shahash_spec [of "of_nat (length ?b)" ?b "hs ! k" m] small hk
      by (simp del: length_take take_take)
    have "\<forall>h \<in> set (hs[k := sha1_spec ?b]). length h = 20"
      using "1.prems"(2) length_sha1_spec set_update_subset_insert [of hs k "sha1_spec ?b"] by blast
    then have IH: "make_chunks_loop m ?r (Suc k) (hs[k := sha1_spec ?b]) =
        Inr (Suc k + length (file_chunks ?r), take (Suc k) (hs[k := sha1_spec ?b]) @
          map sha1_spec (file_chunks ?r) @ drop (Suc k + length (file_chunks ?r)) (hs[k := sha1_spec ?b]))"
      using "1.prems"(1) fc False by (intro "1.IH") simp_all
    have "drop (length ?b) f = ?r" by (cases "length f \<le> BT_CHUNK_SIZE") simp_all
    then have "make_chunks_loop m f k hs = make_chunks_loop m ?r (Suc k) (hs[k := sha1_spec ?b])"
      using pos k sha by (subst make_chunks_loop.simps) (simp add: bget_def Let_def)
    with IH k show ?thesis by (simp add: fc take_Suc_conv_app_nth)
  qed
qed

section \<open>Properties\<close>

text \<open>
  C22. \<open>shahash\<close> computes SHA-1: for any contents of the uninitialised context, the target buffer
  receives the digest the standard defines for the first \<open>len\<close> bytes, nothing behind it changes, and
  no buffer is overrun.
\<close>

theorem shahash_is_sha1:
  assumes "unat len \<le> length str" "SHA1_HASH_SIZE \<le> length target"
  shows "shahash m str len target = Inr (sha1_spec (take (unat len) str) @ drop SHA1_HASH_SIZE target)"
  using assms by (simp add: shahash_spec SHA1_HASH_SIZE_def)

theorem shahash_is_sha1_witness:
  "shahash \<lparr>stack_byte = (\<lambda>i. of_nat i), heap_byte = (\<lambda>i. 0), literal_tail = [], frame_slack = 0,
     heap_slack = 0\<rparr> [97, 98, 99] 3 (replicate 20 0) = Inr (sha1_spec [97, 98, 99])"
  using shahash_is_sha1 [of 3 "[97, 98, 99]" "replicate 20 0"] by (simp add: SHA1_HASH_SIZE_def)

text \<open>
  C24. Decoding the text that \<open>binary2hex\<close> writes gives back the bytes, in buffers of the documented
  sizes (\<open>2 * len + 1\<close> characters, \<open>len\<close> bytes), and leaves what lies behind them alone.
\<close>

theorem hex_roundtrip:
  assumes "len \<le> length buf" "2 * len + 1 \<le> length hex" "len \<le> length out"
  shows "rbind (binary2hex buf len hex) (\<lambda>text. hex2binary text (2 * len) out) =
    Inr (take len buf @ drop len out)"
proof -
  have "2 * len \<le> length (hex_string (take len buf) @ 0 # drop (2 * len + 1) hex)"
    using assms(1) by simp
  with assms show ?thesis
    by (simp add: binary2hex_spec hex2binary_spec) (simp add: unhex_hex_string)
qed

theorem hex_roundtrip_witness:
  "rbind (binary2hex [0xDA, 0x5F] 2 (replicate 5 1)) (\<lambda>text. hex2binary text 4 [9, 9, 9]) =
    Inr [0xDA, 0x5F, 9]"
  using hex_roundtrip [of 2 "[0xDA, 0x5F]" "replicate 5 1" "[9, 9, 9]"] by simp

text \<open>
  C25. \<open>make_chunks\<close> cuts a file into blocks of \<open>BT_CHUNK_SIZE\<close> bytes (the last one shorter) and
  stores the SHA-1 of each, in order, in the caller's buffers; it returns the number of blocks,
  which is the file length divided by the block size, rounded up.
\<close>

theorem make_chunks_hashes:
  assumes "(length f + BT_CHUNK_SIZE - 1) div BT_CHUNK_SIZE \<le> length hs" "\<forall>h \<in> set hs. length h = SHA1_HASH_SIZE"
  shows "make_chunks m f hs = Inr ((length f + BT_CHUNK_SIZE - 1) div BT_CHUNK_SIZE,
    map sha1_spec (file_chunks f) @ drop ((length f + BT_CHUNK_SIZE - 1) div BT_CHUNK_SIZE) hs)"
  using assms make_chunks_loop_spec [of 0 f hs m]
  by (simp add: make_chunks_def length_file_chunks SHA1_HASH_SIZE_def)

theorem make_chunks_hashes_witness:
  "make_chunks \<lparr>stack_byte = (\<lambda>i. 0), heap_byte = (\<lambda>i. 0), literal_tail = [], frame_slack = 0,
     heap_slack = 0\<rparr> [1, 2, 3] [replicate 20 0, replicate 20 7] =
   Inr (1, [sha1_spec [1, 2, 3], replicate 20 7])"
  using make_chunks_hashes [of "[1, 2, 3]" "[replicate 20 0, replicate 20 7]"]
  by (simp add: BT_CHUNK_SIZE_def SHA1_HASH_SIZE_def file_chunks.simps)

end
