(* ===== verification/Stdio_C.thy ===== *)
theory Stdio_C
  imports Prelude_C
begin

text \<open>
  The parts of the C library the sources read text with: \<open>fgets\<close>, the conversions \<open>%d\<close> and \<open>%s\<close> of
  \<open>sscanf\<close>, \<open>atoi\<close>, \<open>strcpy\<close>, \<open>memcmp\<close>, and a file system that maps names to contents. They follow the
  C standard; numbers that do not fit are truncated to the width of their variable, as glibc does.
\<close>

type_synonym filesystem = "byte list \<Rightarrow> byte list option"

section \<open>Characters\<close>

definition isspace :: "byte \<Rightarrow> bool" where
  "isspace c \<longleftrightarrow> c = 32 \<or> (9 \<le> c \<and> c \<le> 13)"

definition isdigit :: "byte \<Rightarrow> bool" where
  "isdigit c \<longleftrightarrow> 48 \<le> c \<and> c \<le> 57"

definition newline :: byte where "newline = 10"

section \<open>Integers at their width\<close>

text \<open>
  The number of a \<open>%d\<close> or of \<open>atoi\<close>, as the C library of the build computes it: \<open>strtol\<close> keeps it in the range
  of a 64-bit \<open>long\<close>, and the assignment to an \<open>int\<close> drops the upper half.
\<close>

definition to_int :: "int \<Rightarrow> int" where
  "to_int v = sint (word_of_int (max (- (2 ^ 63)) (min (2 ^ 63 - 1) v)) :: 32 word)"

definition to_short :: "int \<Rightarrow> int" where
  "to_short v = sint (word_of_int v :: 16 word)"

lemma to_int_small: "- (2 ^ 31) \<le> v \<Longrightarrow> v < 2 ^ 31 \<Longrightarrow> to_int v = v"
  by (simp add: to_int_def min_absorb2 max_absorb2 sint_uint uint_word_of_int_eq signed_take_bit_take_bit signed_take_bit_int_eq_self)

lemma to_short_small: "- (2 ^ 15) \<le> v \<Longrightarrow> v < 2 ^ 15 \<Longrightarrow> to_short v = v"
  by (simp add: to_short_def sint_uint uint_word_of_int_eq signed_take_bit_take_bit signed_take_bit_int_eq_self)

section \<open>Scanning\<close>

definition skip_space :: "byte list \<Rightarrow> byte list" where
  "skip_space s = dropWhile isspace s"

definition digits_value :: "byte list \<Rightarrow> int" where
  "digits_value ds = foldl (\<lambda>v d. 10 * v + (uint d - 48)) 0 ds"

definition scan_digits :: "byte list \<Rightarrow> (int \<times> byte list) option" where
  "scan_digits s = (let ds = takeWhile isdigit s
     in if ds = [] then None else Some (digits_value ds, dropWhile isdigit s))"

text \<open>\<open>%d\<close>: white space, an optional sign, at least one digit.\<close>

definition scan_d :: "byte list \<Rightarrow> (int \<times> byte list) option" where
  "scan_d s =
     (case skip_space s of
        [] \<Rightarrow> None
      | c # t \<Rightarrow>
          if c = 45 then map_option (\<lambda>(v, r). (- v, r)) (scan_digits t)
          else if c = 43 then scan_digits t
          else scan_digits (c # t))"

text \<open>\<open>%s\<close>: white space, then the longest run of other characters, which must not be empty.\<close>

definition scan_s :: "byte list \<Rightarrow> (byte list \<times> byte list) option" where
  "scan_s s = (let t = skip_space s; w = takeWhile (\<lambda>c. \<not> isspace c) t
     in if w = [] then None else Some (w, dropWhile (\<lambda>c. \<not> isspace c) t))"

definition atoi :: "byte list \<Rightarrow> int" where
  "atoi s = (case scan_d s of None \<Rightarrow> 0 | Some (v, r) \<Rightarrow> to_int v)"

text \<open>\<open>printf\<close> of a natural number with \<open>%d\<close>.\<close>

fun dec :: "nat \<Rightarrow> byte list" where
  "dec n = (if n < 10 then [of_nat (48 + n)] else dec (n div 10) @ [of_nat (48 + n mod 10)])"

declare dec.simps [simp del]

lemma uint_digit: "d < 10 \<Longrightarrow> uint (of_nat (48 + d) :: byte) = int d + 48"
  by (simp add: uint_nat unat_of_nat take_bit_nat_eq_self del: of_nat_add)

lemma isdigit_digit: "d < 10 \<Longrightarrow> isdigit (of_nat (48 + d))"
  by (simp add: isdigit_def word_le_nat_alt unat_of_nat take_bit_nat_eq_self del: of_nat_add)

lemma dec_nonempty [simp]: "dec n \<noteq> []"
  by (subst dec.simps) simp

lemma isdigit_dec: "c \<in> set (dec n) \<Longrightarrow> isdigit c"
proof (induction n rule: dec.induct)
  case (1 n)
  have "n mod 10 < 10" by simp
  then show ?case
    using 1 isdigit_digit [of n] isdigit_digit [of "n mod 10"]
    by (subst (asm) (2) dec.simps) (auto split: if_splits)
qed

lemma digits_value_snoc: "digits_value (ds @ [d]) = 10 * digits_value ds + (uint d - 48)"
  by (simp add: digits_value_def)

lemma digits_value_dec: "digits_value (dec n) = int n"
proof (induction n rule: dec.induct)
  case (1 n)
  show ?case
  proof (cases "n < 10")
    case True
    have "digits_value [of_nat (48 + n)] = int n"
      using uint_digit [OF True] by (simp add: digits_value_def del: of_nat_add)
    with True show ?thesis by (subst dec.simps) simp
  next
    case False
    have "n mod 10 < 10" by simp
    from uint_digit [OF this] False 1 show ?thesis
      by (subst dec.simps) (simp add: digits_value_snoc zdiv_int zmod_int del: of_nat_add)
  qed
qed

lemma digit_not_space: "isdigit c \<Longrightarrow> \<not> isspace c"
  by (auto simp: isdigit_def isspace_def word_le_nat_alt)

lemma digit_not_sign: "isdigit c \<Longrightarrow> c \<noteq> 45 \<and> c \<noteq> 43"
  by (auto simp: isdigit_def)

lemma takeWhile_digits:
  "(\<And>c. c \<in> set ds \<Longrightarrow> P c) \<Longrightarrow> \<not> P c \<Longrightarrow> takeWhile P (ds @ c # r) = ds \<and> dropWhile P (ds @ c # r) = c # r"
  by (induction ds) auto

lemma scan_d_dec:
  assumes "\<not> isdigit c"
  shows "scan_d (dec n @ c # r) = Some (int n, c # r)"
proof -
  obtain d ds where d: "dec n = d # ds" by (cases "dec n") auto
  then have "isdigit d" using isdigit_dec [of d n] by simp
  then have "skip_space (dec n @ c # r) = d # ds @ c # r"
    using d digit_not_space by (simp add: skip_space_def)
  moreover have "scan_digits (dec n @ c # r) = Some (int n, c # r)"
    using takeWhile_digits [of "dec n" isdigit c r] isdigit_dec assms
    by (simp add: scan_digits_def Let_def digits_value_dec)
  ultimately show ?thesis
    using d \<open>isdigit d\<close> digit_not_sign [of d] by (simp add: scan_d_def)
qed

lemma scan_d_dec_end: "scan_d (dec n) = Some (int n, [])"
proof -
  obtain d ds where d: "dec n = d # ds" by (cases "dec n") auto
  then have "isdigit d" using isdigit_dec [of d n] by simp
  then have "skip_space (dec n) = d # ds"
    using d digit_not_space by (simp add: skip_space_def)
  moreover have "scan_digits (dec n) = Some (int n, [])"
  proof -
    have "takeWhile isdigit (dec n) = dec n" "dropWhile isdigit (dec n) = []"
      using isdigit_dec [of _ n] by (simp_all add: takeWhile_eq_all_conv dropWhile_eq_Nil_conv)
    then show ?thesis by (simp only: scan_digits_def Let_def digits_value_dec dec_nonempty if_False)
  qed
  ultimately show ?thesis
    using d \<open>isdigit d\<close> digit_not_sign [of d] by (simp add: scan_d_def)
qed

lemma atoi_dec: "n < 2 ^ 31 \<Longrightarrow> atoi (dec n) = int n"
  by (simp add: atoi_def scan_d_dec_end to_int_small)

lemma scan_d_space: "isspace sp \<Longrightarrow> scan_d (sp # s) = scan_d s"
  by (simp add: scan_d_def skip_space_def)

lemma scan_s_word:
  assumes "isspace sp" "isspace c" "w \<noteq> []" "\<And>x. x \<in> set w \<Longrightarrow> \<not> isspace x"
  shows "scan_s (sp # w @ c # r) = Some (w, c # r)"
proof -
  have "skip_space (sp # w @ c # r) = w @ c # r"
    using assms by (cases w) (simp_all add: skip_space_def)
  then show ?thesis
    using takeWhile_digits [of w "\<lambda>c. \<not> isspace c" c r] assms by (simp add: scan_s_def Let_def)
qed

lemma length_scan_digits: "scan_digits s = Some (v, r) \<Longrightarrow> length r \<le> length s"
  using length_dropWhile_le [of isdigit s] by (auto simp: scan_digits_def Let_def split: if_splits)

lemma length_scan_d: "scan_d s = Some (v, r) \<Longrightarrow> length r \<le> length s"
proof -
  assume *: "scan_d s = Some (v, r)"
  then obtain c t where t: "skip_space s = c # t" by (auto simp: scan_d_def split: list.splits)
  then have "length (c # t) \<le> length s" using length_dropWhile_le [of isspace s] by (simp add: skip_space_def)
  with * t show ?thesis
    using length_scan_digits [of "c # t" v r] length_scan_digits [of t]
    by (fastforce simp: scan_d_def split: if_splits)
qed

lemma length_scan_s: "scan_s s = Some (w, r) \<Longrightarrow> length w \<le> length s"
  using length_dropWhile_le [of isspace s] length_takeWhile_le [of "\<lambda>c. \<not> isspace c" "skip_space s"]
  by (auto simp: scan_s_def Let_def skip_space_def split: if_splits)

section \<open>Lines\<close>

text \<open>
  \<open>fgets(line, n, fp)\<close>: up to \<open>n - 1\<close> characters, through the first newline; NULL at the end of the
  file. \<open>fgets_lines\<close> are the lines the loops \<open>while (!feof(fp) && fgets(...))\<close> and
  \<open>while (fgets(...))\<close> see, each as a C string.
\<close>

definition fgets :: "nat \<Rightarrow> byte list \<Rightarrow> (byte list \<times> byte list) option" where
  "fgets n s =
     (if s = [] then None
      else let front = take (n - 1) s; body = takeWhile (\<lambda>c. c \<noteq> newline) front;
               k = (if length body < length front then length body + 1 else length front)
           in Some (take k s, drop k s))"

function fgets_lines :: "nat \<Rightarrow> byte list \<Rightarrow> byte list list" where
  "fgets_lines n s =
     (if n < 2 then [] else case fgets n s of None \<Rightarrow> [] | Some (line, rest) \<Rightarrow> c_string line # fgets_lines n rest)"
  by pat_completeness auto
termination
  by (relation "measure (\<lambda>(n, s). length s)") (auto simp: fgets_def Let_def split: if_splits)

declare fgets_lines.simps [simp del]

lemma fgets_line:
  assumes "newline \<notin> set l" "length l + 1 < n"
  shows "fgets n (l @ newline # rest) = Some (l @ [newline], rest)"
proof -
  have front: "take (n - 1) (l @ newline # rest) = l @ newline # take (n - 2 - length l) rest"
    using assms(2) by (simp add: take_Cons' numeral_2_eq_2)
  have "takeWhile (\<lambda>c. c \<noteq> newline) (l @ newline # take (n - 2 - length l) rest) = l"
    using assms(1) by (simp add: takeWhile_append)
  with front show ?thesis by (simp add: fgets_def Let_def)
qed

lemma fgets_lines_Cons:
  assumes "newline \<notin> set l" "0 \<notin> set l" "length l + 1 < n"
  shows "fgets_lines n (l @ newline # rest) = (l @ [newline]) # fgets_lines n rest"
proof -
  have "c_string (l @ [newline]) = l @ [newline]"
    using assms(2) by (induction l) (auto simp: c_string_def newline_def)
  then show ?thesis using assms fgets_line [OF assms(1,3), of rest]
    by (subst fgets_lines.simps) (simp add: assms)
qed

lemma fgets_lines_Nil [simp]: "fgets_lines n [] = []"
  by (subst fgets_lines.simps) (simp add: fgets_def)

lemma length_fgets: "fgets n s = Some (line, rest) \<Longrightarrow> length line \<le> n - 1"
  by (auto simp: fgets_def Let_def split: if_splits)

lemma length_fgets_lines: "l \<in> set (fgets_lines n s) \<Longrightarrow> length l \<le> n - 1"
proof (induction n s rule: fgets_lines.induct)
  case (1 n s)
  from "1.prems" have "2 \<le> n" by (simp add: fgets_lines.simps [of n s] split: if_splits)
  with "1.prems" obtain line rest where f: "fgets n s = Some (line, rest)"
    and l: "l = c_string line \<or> l \<in> set (fgets_lines n rest)"
    by (cases "fgets n s") (auto simp: fgets_lines.simps [of n s])
  have "length (c_string line) \<le> n - 1"
    using length_fgets [OF f] length_c_string [of line] by linarith
  with "1.IH" [OF _ f refl] \<open>2 \<le> n\<close> l show ?case by auto
qed

section \<open>Memory\<close>

definition memcmp_eq :: "byte list \<Rightarrow> byte list \<Rightarrow> nat \<Rightarrow> bool res" where
  "memcmp_eq a b n = rbind (buf_read a 0 n) (\<lambda>x. rbind (buf_read b 0 n) (\<lambda>y. Inr (x = y)))"

lemma memcmp_eq_Inr: "n \<le> length a \<Longrightarrow> n \<le> length b \<Longrightarrow> memcmp_eq a b n = Inr (take n a = take n b)"
  by (simp add: memcmp_eq_def buf_read_def)

text \<open>\<open>strcpy\<close> of a string into an array of \<open>cap\<close> characters.\<close>

definition strcpy :: "nat \<Rightarrow> byte list \<Rightarrow> byte list res" where
  "strcpy cap s = (if length s < cap then Inr s else Inl Out_Of_Bounds)"

end
