(* ===== verification/Debug_C.thy ===== *)
theory Debug_C
  imports Stdio_C
begin

text \<open>\<open>debug.c\<close> and \<open>debug.h\<close>: the debug mask and its option parser.\<close>

definition DEBUG_INIT :: u32 where "DEBUG_INIT = 2"

text \<open>
  \<open>set_debug\<close> returns the result code and the new mask; \<open>None\<close> is a NULL argument. The help text it
  prints is not modelled.
\<close>

definition set_debug :: "byte list option \<Rightarrow> u32 \<Rightarrow> int \<times> u32" where
  "set_debug arg dbg =
     (case arg of
        None \<Rightarrow> (-1, dbg)
      | Some [] \<Rightarrow> (-1, dbg)
      | Some (c # s) \<Rightarrow>
          if c = 63 \<or> c # s = cstr ''list'' then (-1, dbg)
          else if isdigit c then (0, dbg OR word_of_int (atoi (c # s)))
          else (0, dbg))"

end
