(* ===== verification/Bt_Parse_C.thy ===== *)
theory Bt_Parse_C
  imports Debug_C Packet_C
begin

text \<open>
  \<open>bt_parse.c\<close> and \<open>bt_parse.h\<close>: the configuration, the linked list of peers, the command line and the
  peer list file. Peers live in a heap of their own (\<open>peer_heap\<close>, with \<open>peer_brk\<close> the next fresh
  address), because other components keep pointers to them and one of them frees them. The result
  of \<open>getopt\<close> (the options with their arguments, 63 for an unknown one) and \<open>gethostbyname\<close> are
  arguments.
\<close>

section \<open>Data\<close>

definition BT_FILENAME_LEN :: nat where "BT_FILENAME_LEN = 255"

record bt_peer_t =
  peer_id :: int
  sin_addr :: u32
  sin_port :: u16
  peer_next :: "nat option"

record bt_config_t =
  chunk_file :: "byte list"
  has_chunk_file :: "byte list"
  output_file :: "byte list"
  peer_list_file :: "byte list"
  max_conn :: int
  identity :: int
  myport :: u16
  peers :: "nat option"
  peer_heap :: "bt_peer_t heap"
  peer_brk :: nat

section \<open>Operations\<close>

definition bt_init :: bt_config_t where
  "bt_init = \<lparr>chunk_file = [], has_chunk_file = [], output_file = cstr ''output.dat'',
     peer_list_file = cstr ''nodes.map'', max_conn = 0, identity = 0, myport = 0, peers = None,
     peer_heap = Map.empty, peer_brk = 0\<rparr>"

text \<open>
  The loops over the list of peers: \<open>find_peer\<close> returns the first peer that satisfies the test. A
  walk over more peers than were ever allocated is on a cycle.
\<close>

fun find_peer :: "nat \<Rightarrow> bt_peer_t heap \<Rightarrow> (bt_peer_t \<Rightarrow> bool) \<Rightarrow> nat option \<Rightarrow> nat option res" where
  "find_peer fuel h P None = Inr None"
| "find_peer 0 h P (Some a) = Inl Diverges"
| "find_peer (Suc k) h P (Some a) = rbind (deref h (Some a)) (\<lambda>p.
     if P p then Inr (Some a) else find_peer k h P (peer_next p))"

definition bt_peer_info :: "bt_config_t \<Rightarrow> int \<Rightarrow> nat option res" where
  "bt_peer_info c pid = find_peer (peer_brk c) (peer_heap c) (\<lambda>p. peer_id p = pid) (peers c)"

text \<open>
  One line of the peer list file. \<open>sscanf\<close> stores the fields it converts into variables that keep
  their values from line to line (\<open>None\<close>: never stored, reading it is a fault); the assertion only
  fails when the first conversion fails on a line that is not blank.
\<close>

record parse_vars =
  v_nodeid :: "int option"
  v_hostname :: "byte list option"
  v_port :: "int option"

definition sscanf_peer :: "byte list \<Rightarrow> parse_vars \<Rightarrow> int \<times> parse_vars" where
  "sscanf_peer line v =
     (case scan_d line of
        None \<Rightarrow> (if skip_space line = [] then -1 else 0, v)
      | Some (nodeid, r1) \<Rightarrow>
          (let v1 = v\<lparr>v_nodeid := Some (to_int nodeid)\<rparr>
           in case scan_s r1 of
                None \<Rightarrow> (1, v1)
              | Some (hostname, r2) \<Rightarrow>
                  (let v2 = v1\<lparr>v_hostname := Some hostname\<rparr>
                   in case scan_d r2 of
                        None \<Rightarrow> (2, v2)
                      | Some (port, r3) \<Rightarrow> (3, v2\<lparr>v_port := Some (to_int port)\<rparr>))))"

definition init_var :: "'a option \<Rightarrow> 'a res" where
  "init_var v = (case v of None \<Rightarrow> Inl Uninitialised | Some x \<Rightarrow> Inr x)"

definition add_peer :: "bt_config_t \<Rightarrow> int \<Rightarrow> u32 \<Rightarrow> int \<Rightarrow> bt_config_t" where
  "add_peer c nodeid addr port =
     (let a = peer_brk c;
          node = \<lparr>peer_id = to_short nodeid, sin_addr = addr,
            sin_port = htons (word_of_int port), peer_next = peers c\<rparr>
      in c\<lparr>peer_heap := (peer_heap c)(a \<mapsto> node), peer_brk := Suc a, peers := Some a\<rparr>)"

fun parse_peer_lines ::
    "(byte list \<Rightarrow> u32 option) \<Rightarrow> byte list list \<Rightarrow> parse_vars \<Rightarrow> bt_config_t \<Rightarrow> bt_config_t res" where
  "parse_peer_lines gethostbyname [] v c = Inr c"
| "parse_peer_lines gethostbyname (line # lines) v c =
     (if (case line of [] \<Rightarrow> False | ch # _ \<Rightarrow> ch = 35) then parse_peer_lines gethostbyname lines v c
      else case sscanf_peer line v of (n, v') \<Rightarrow>
        if n = 0 then Inl Assert_Failed
        else rbind (init_var (v_nodeid v')) (\<lambda>nodeid.
             rbind (init_var (v_hostname v')) (\<lambda>hostname.
             case gethostbyname hostname of
               None \<Rightarrow> Inl Assert_Failed
             | Some addr \<Rightarrow> rbind (init_var (v_port v')) (\<lambda>port.
                 parse_peer_lines gethostbyname lines v' (add_peer c nodeid addr port)))))"

definition bt_parse_peer_list ::
    "(byte list \<Rightarrow> u32 option) \<Rightarrow> filesystem \<Rightarrow> bt_config_t \<Rightarrow> bt_config_t res" where
  "bt_parse_peer_list gethostbyname fs c =
     (case fs (peer_list_file c) of
        None \<Rightarrow> Inl Assert_Failed
      | Some f \<Rightarrow> parse_peer_lines gethostbyname (fgets_lines BT_FILENAME_LEN f)
          \<lparr>v_nodeid = None, v_hostname = None, v_port = None\<rparr> c)"

text \<open>The option loop; the debug mask is threaded through.\<close>

fun parse_options :: "(byte \<times> byte list) list \<Rightarrow> bt_config_t \<Rightarrow> u32 \<Rightarrow> (bt_config_t \<times> u32) res" where
  "parse_options [] c dbg = Inr (c, dbg)"
| "parse_options ((opt, optarg) # opts) c dbg =
     (if opt = 104 then Inl (Exited 0)
      else if opt = 100 then
        (case set_debug (Some optarg) dbg of (rc, dbg') \<Rightarrow>
           if rc = -1 then Inl (Exited (-1)) else parse_options opts c dbg')
      else if opt = 112 then
        rbind (strcpy BT_FILENAME_LEN optarg) (\<lambda>s. parse_options opts (c\<lparr>peer_list_file := s\<rparr>) dbg)
      else if opt = 99 then
        rbind (strcpy BT_FILENAME_LEN optarg) (\<lambda>s. parse_options opts (c\<lparr>has_chunk_file := s\<rparr>) dbg)
      else if opt = 102 then
        rbind (strcpy BT_FILENAME_LEN optarg) (\<lambda>s. parse_options opts (c\<lparr>chunk_file := s\<rparr>) dbg)
      else if opt = 109 then parse_options opts (c\<lparr>max_conn := atoi optarg\<rparr>) dbg
      else if opt = 105 then parse_options opts (c\<lparr>identity := to_short (atoi optarg)\<rparr>) dbg
      else Inl (Exited (-1)))"

definition bt_parse_command_line ::
    "(byte list \<Rightarrow> u32 option) \<Rightarrow> filesystem \<Rightarrow> (byte \<times> byte list) list \<Rightarrow> bt_config_t \<Rightarrow> u32 \<Rightarrow>
     (bt_config_t \<times> u32) res" where
  "bt_parse_command_line gethostbyname fs opts config dbg =
     rbind (parse_options opts config dbg) (\<lambda>(c1, dbg').
     rbind (bt_parse_peer_list gethostbyname fs c1) (\<lambda>c2.
     if identity c2 = 0 then Inl (Exited (-1))
     else rbind (bt_peer_info c2 (identity c2)) (\<lambda>p.
       if p = None then Inl (Exited (-1))
       else rbind (deref (peer_heap c2) p) (\<lambda>me.
         let c3 = c2\<lparr>myport := ntohs (sin_port me)\<rparr>
         in if chunk_file c3 = [] \<or> has_chunk_file c3 = [] then Inl Assert_Failed
            else Inr (c3, dbg')))))"

text \<open>
  \<open>bt_dump_config\<close>: what it prints. \<open>dec_int\<close> is \<open>%d\<close>, \<open>inet_ntoa\<close> an address in network order as four
  numbers.
\<close>

definition dec_int :: "int \<Rightarrow> byte list" where
  "dec_int i = (if i < 0 then 45 # dec (nat (- i)) else dec (nat i))"

definition inet_ntoa :: "u32 \<Rightarrow> byte list" where
  "inet_ntoa a = dec (unat (a AND 255)) @ 46 # dec (unat (drop_bit 8 a AND 255)) @
     46 # dec (unat (drop_bit 16 a AND 255)) @ 46 # dec (unat (drop_bit 24 a))"

definition peer_text :: "bt_peer_t \<Rightarrow> byte list" where
  "peer_text p = cstr ''  peer '' @ dec_int (peer_id p) @ cstr '': '' @ inet_ntoa (sin_addr p) @ 58 #
     dec (unat (ntohs (sin_port p))) @ [newline]"

fun dump_peers :: "nat \<Rightarrow> bt_peer_t heap \<Rightarrow> nat option \<Rightarrow> byte list res" where
  "dump_peers fuel h None = Inr []"
| "dump_peers 0 h (Some a) = Inl Diverges"
| "dump_peers (Suc k) h (Some a) = rbind (deref h (Some a)) (\<lambda>p.
     rbind (dump_peers k h (peer_next p)) (\<lambda>out. Inr (peer_text p @ out)))"

definition bt_dump_config :: "bt_config_t \<Rightarrow> byte list res" where
  "bt_dump_config c = rbind (dump_peers (peer_brk c) (peer_heap c) (peers c)) (\<lambda>out.
     Inr (cstr ''15-441 PROJECT 2 PEER'' @ [newline, newline] @
       cstr ''chunk-file:     '' @ chunk_file c @ [newline] @
       cstr ''has-chunk-file: '' @ has_chunk_file c @ [newline] @
       cstr ''max-conn:       '' @ dec_int (max_conn c) @ [newline] @
       cstr ''peer-identity:  '' @ dec_int (identity c) @ [newline] @
       cstr ''peer-list-file: '' @ peer_list_file c @ [newline] @ out))"

section \<open>Well-formed peer lists\<close>

fun peer_path :: "bt_peer_t heap \<Rightarrow> nat option \<Rightarrow> nat list \<Rightarrow> bool" where
  "peer_path h p [] \<longleftrightarrow> p = None"
| "peer_path h p (a # as) \<longleftrightarrow> p = Some a \<and> (\<exists>pe. h a = Some pe \<and> peer_path h (peer_next pe) as)"

definition peers_ok :: "bt_config_t \<Rightarrow> nat list \<Rightarrow> bool" where
  "peers_ok c as \<longleftrightarrow> peer_path (peer_heap c) (peers c) as \<and> distinct as \<and> (\<forall>a \<in> set as. a < peer_brk c)"

fun first_peer :: "bt_peer_t heap \<Rightarrow> (bt_peer_t \<Rightarrow> bool) \<Rightarrow> nat list \<Rightarrow> nat option" where
  "first_peer h P [] = None"
| "first_peer h P (a # as) =
     (case h a of None \<Rightarrow> None | Some p \<Rightarrow> if P p then Some a else first_peer h P as)"

lemma peer_path_update: "a \<notin> set as \<Longrightarrow> peer_path (h(a := v)) p as = peer_path h p as"
  by (induction h p as rule: peer_path.induct) auto

lemma find_peer_path:
  "peer_path h p as \<Longrightarrow> length as \<le> fuel \<Longrightarrow> find_peer fuel h P p = Inr (first_peer h P as)"
proof (induction h p as arbitrary: fuel rule: peer_path.induct)
  case (2 h p a as)
  then show ?case by (cases fuel) auto
qed auto

lemma dump_peers_path:
  "peer_path h p as \<Longrightarrow> length as \<le> fuel \<Longrightarrow> dump_peers fuel h p = Inr (concat (map (\<lambda>a. peer_text (the (h a))) as))"
proof (induction h p as arbitrary: fuel rule: peer_path.induct)
  case (2 h p a as)
  then show ?case by (cases fuel) auto
qed auto

lemma peers_ok_length: "peers_ok c as \<Longrightarrow> length as \<le> peer_brk c"
proof -
  assume *: "peers_ok c as"
  then have "set as \<subseteq> {..<peer_brk c}" by (auto simp: peers_ok_def)
  then have "card (set as) \<le> peer_brk c" using card_mono [of "{..<peer_brk c}"] by simp
  with * show ?thesis by (simp add: peers_ok_def distinct_card)
qed

lemma peers_ok_init: "peers_ok bt_init []"
  by (simp add: peers_ok_def bt_init_def)

lemma peers_ok_add_peer: "peers_ok c as \<Longrightarrow> peers_ok (add_peer c n ad po) (peer_brk c # as)"
  by (auto simp: peers_ok_def add_peer_def Let_def peer_path_update less_Suc_eq)

lemma bt_peer_info_spec:
  "peers_ok c as \<Longrightarrow> bt_peer_info c pid = Inr (first_peer (peer_heap c) (\<lambda>p. peer_id p = pid) as)"
  by (simp add: bt_peer_info_def find_peer_path peers_ok_def peers_ok_length)

lemma parse_peer_lines_ok:
  "parse_peer_lines g ls v c = Inr c' \<Longrightarrow> peers_ok c as \<Longrightarrow> \<exists>bs. peers_ok c' (bs @ as)"
proof (induction g ls v c arbitrary: as rule: parse_peer_lines.induct)
  case (1 g v c)
  then show ?case by (auto intro: exI [of _ "[]"])
next
  case (2 g line lines v c)
  show ?case
  proof (cases "case line of [] \<Rightarrow> False | ch # _ \<Rightarrow> ch = 35")
    case True
    with 2 show ?thesis by simp
  next
    case False
    with "2.prems"(1) obtain n v' nodeid hostname addr port where
      sc: "sscanf_peer line v = (n, v')" "n \<noteq> 0" "init_var (v_nodeid v') = Inr nodeid"
      "init_var (v_hostname v') = Inr hostname" "g hostname = Some addr" "init_var (v_port v') = Inr port"
      and rest: "parse_peer_lines g lines v' (add_peer c nodeid addr port) = Inr c'"
      by (auto simp: rbind_Inr_iff split: prod.splits if_splits option.splits)
    from "2.IH"(2) [OF False sc(1)[symmetric] sc(2-6) rest peers_ok_add_peer [OF "2.prems"(2)]]
    obtain bs where "peers_ok c' (bs @ peer_brk c # as)" by blast
    then show ?thesis by (intro exI [of _ "bs @ [peer_brk c]"]) simp
  qed
qed


lemma parse_peer_lines_fields:
  "parse_peer_lines g ls v c = Inr c' \<Longrightarrow> identity c' = identity c \<and> chunk_file c' = chunk_file c \<and>
     has_chunk_file c' = has_chunk_file c \<and> peer_list_file c' = peer_list_file c \<and> max_conn c' = max_conn c"
proof (induction g ls v c rule: parse_peer_lines.induct)
  case (2 g line lines v c)
  have add: "identity (add_peer c n a p) = identity c" "chunk_file (add_peer c n a p) = chunk_file c"
    "has_chunk_file (add_peer c n a p) = has_chunk_file c" "peer_list_file (add_peer c n a p) = peer_list_file c"
    "max_conn (add_peer c n a p) = max_conn c" for n a p
    by (simp_all add: add_peer_def Let_def)
  show ?case
  proof (cases "case line of [] \<Rightarrow> False | ch # _ \<Rightarrow> ch = 35")
    case True
    with 2 show ?thesis by simp
  next
    case False
    with "2.prems"(1) obtain n v' nodeid hostname addr port where
      sc: "sscanf_peer line v = (n, v')" "n \<noteq> 0" "init_var (v_nodeid v') = Inr nodeid"
      "init_var (v_hostname v') = Inr hostname" "g hostname = Some addr" "init_var (v_port v') = Inr port"
      and rest: "parse_peer_lines g lines v' (add_peer c nodeid addr port) = Inr c'"
      by (auto simp: rbind_Inr_iff split: prod.splits if_splits option.splits)
    from "2.IH"(2) [OF False sc(1)[symmetric] sc(2-6) rest] show ?thesis by (simp only: add)
  qed
qed simp

lemma bt_parse_peer_list_fields:
  "bt_parse_peer_list g fs c = Inr c' \<Longrightarrow> identity c' = identity c \<and> chunk_file c' = chunk_file c \<and>
     has_chunk_file c' = has_chunk_file c \<and> peer_list_file c' = peer_list_file c \<and> max_conn c' = max_conn c"
  by (auto simp: bt_parse_peer_list_def dest: parse_peer_lines_fields split: option.splits)

section \<open>Well-formed peer list files\<close>

text \<open>Entries are a peer number, a host name and a port.\<close>

type_synonym peer_entry = "nat \<times> byte list \<times> nat"

definition peer_line :: "peer_entry \<Rightarrow> byte list" where
  "peer_line e = (case e of (n, host, port) \<Rightarrow> dec n @ 32 # host @ 32 # dec port)"

definition peer_list_text :: "peer_entry list \<Rightarrow> byte list" where
  "peer_list_text es = concat (map (\<lambda>e. peer_line e @ [newline]) es)"

definition entry_ok :: "(byte list \<Rightarrow> u32 option) \<Rightarrow> peer_entry \<Rightarrow> bool" where
  "entry_ok g e = (case e of (n, host, port) \<Rightarrow>
     n < 2 ^ 15 \<and> port < 2 ^ 16 \<and> host \<noteq> [] \<and> (\<forall>c \<in> set host. \<not> isspace c \<and> c \<noteq> 0) \<and>
     g host \<noteq> None \<and> length (peer_line e) < 254)"

definition entry_peer :: "(byte list \<Rightarrow> u32 option) \<Rightarrow> peer_entry \<Rightarrow> int \<times> u32 \<times> u16" where
  "entry_peer g e = (case e of (n, host, port) \<Rightarrow> (int n, the (g host), of_nat port))"

definition peer_view :: "bt_config_t \<Rightarrow> nat \<Rightarrow> int \<times> u32 \<times> u16" where
  "peer_view c a = (case peer_heap c a of None \<Rightarrow> (0, 0, 0)
     | Some p \<Rightarrow> (peer_id p, sin_addr p, ntohs (sin_port p)))"

lemma sscanf_peer_line:
  assumes "entry_ok g (n, host, port)"
  shows "sscanf_peer (peer_line (n, host, port) @ [newline]) v =
    (3, \<lparr>v_nodeid = Some (int n), v_hostname = Some host, v_port = Some (int port)\<rparr>)"
proof -
  have sp: "isspace 32" "isspace newline" by (simp_all add: isspace_def newline_def)
  have nd: "\<not> isdigit 32" "\<not> isdigit newline" by (simp_all add: isdigit_def newline_def word_le_nat_alt)
  have "scan_d (dec n @ 32 # host @ 32 # dec port @ [newline]) = Some (int n, 32 # host @ 32 # dec port @ [newline])"
    using nd by (simp add: scan_d_dec)
  moreover have "scan_s (32 # host @ 32 # dec port @ [newline]) = Some (host, 32 # dec port @ [newline])"
    using assms sp by (intro scan_s_word) (auto simp: entry_ok_def)
  moreover have "scan_d (32 # dec port @ [newline]) = Some (int port, [newline])"
    using sp nd scan_d_dec [of newline port "[]"] by (simp add: scan_d_space)
  ultimately show ?thesis
    using assms by (simp add: sscanf_peer_def peer_line_def Let_def entry_ok_def to_int_small)
qed

lemma peer_line_chars:
  assumes "entry_ok g e"
  shows "newline \<notin> set (peer_line e)" "0 \<notin> set (peer_line e)" "\<exists>c s. peer_line e = c # s \<and> c \<noteq> 35"
proof -
  obtain n host port where e: "e = (n, host, port)" by (cases e)
  have d: "newline \<notin> set (dec k)" "0 \<notin> set (dec k)" "35 \<notin> set (dec k)" for k
    using isdigit_dec [of newline k] isdigit_dec [of 0 k] isdigit_dec [of 35 k]
    by (auto simp: isdigit_def newline_def)
  have "\<not> isspace c \<and> c \<noteq> 0" if "c \<in> set host" for c using assms that by (auto simp: e entry_ok_def)
  moreover have "isspace newline" by (simp add: isspace_def newline_def)
  ultimately show "newline \<notin> set (peer_line e)" "0 \<notin> set (peer_line e)"
    using d by (auto simp: e peer_line_def newline_def)
  obtain c s where "dec n = c # s" by (cases "dec n") auto
  with d(3) [of n] show "\<exists>c s. peer_line e = c # s \<and> c \<noteq> 35" by (auto simp: e peer_line_def)
qed

lemma fgets_peer_list:
  "(\<And>e. e \<in> set es \<Longrightarrow> entry_ok g e) \<Longrightarrow>
   fgets_lines BT_FILENAME_LEN (peer_list_text es) = map (\<lambda>e. peer_line e @ [newline]) es"
proof (induction es)
  case (Cons e es)
  have e: "entry_ok g e" using Cons.prems by simp
  then have "length (peer_line e) + 1 < BT_FILENAME_LEN"
    by (auto simp: entry_ok_def BT_FILENAME_LEN_def)
  from fgets_lines_Cons [OF peer_line_chars(1,2) [OF e] this] Cons show ?case
    by (simp add: peer_list_text_def)
qed (simp add: peer_list_text_def)

lemma peer_view_add_old:
  "a < peer_brk c \<Longrightarrow> peer_view (add_peer c n ad po) a = peer_view c a"
  by (simp add: peer_view_def add_peer_def Let_def)

lemma parse_peer_lines_text:
  assumes "\<And>e. e \<in> set es \<Longrightarrow> entry_ok g e" "peers_ok c as"
  shows "ok (parse_peer_lines g (map (\<lambda>e. peer_line e @ [newline]) es) v c) (\<lambda>c'. \<exists>bs. peers_ok c' (bs @ as) \<and>
    map (peer_view c') (bs @ as) = rev (map (entry_peer g) es) @ map (peer_view c) as)"
  using assms
proof (induction es arbitrary: c as v)
  case Nil
  then show ?case by (auto intro: exI [of _ "[]"])
next
  case (Cons e es)
  obtain n host port where e: "e = (n, host, port)" by (cases e)
  have eok: "entry_ok g (n, host, port)" using Cons.prems(1) [of e] by (simp add: e)
  then obtain addr where addr: "g host = Some addr" by (auto simp: entry_ok_def)
  let ?v = "\<lparr>v_nodeid = Some (int n), v_hostname = Some host, v_port = Some (int port)\<rparr>"
  let ?c = "add_peer c (int n) addr (int port)" and ?a = "peer_brk c"
  obtain ch s where ch: "peer_line (n, host, port) = ch # s" "ch \<noteq> 35"
    using peer_line_chars(3) [OF eok] by blast
  have step: "parse_peer_lines g (map (\<lambda>e. peer_line e @ [newline]) (e # es)) v c =
      parse_peer_lines g (map (\<lambda>e. peer_line e @ [newline]) es) ?v ?c"
    using ch sscanf_peer_line [OF eok, of v] addr by (simp add: e init_var_def)
  have new: "peer_view ?c ?a = entry_peer g e"
    using eok addr by (simp add: e peer_view_def entry_peer_def add_peer_def Let_def entry_ok_def to_short_small)
  have "map (peer_view ?c) as = map (peer_view c) as"
    using Cons.prems(2) by (auto simp: peers_ok_def peer_view_add_old)
  moreover have "\<And>e. e \<in> set es \<Longrightarrow> entry_ok g e" using Cons.prems(1) by simp
  ultimately show ?case
    unfolding step
    using new by (intro ok_mono [OF Cons.IH [OF _ peers_ok_add_peer [OF Cons.prems(2)], of ?v "int n" addr "int port"]])
      (auto intro: exI [of _ "_ @ [?a]"])
qed

section \<open>Properties\<close>

text \<open>
  C35. Parsing a well-formed peer list file succeeds and puts one peer for each line in front of the
  list: the list is acyclic, and from its head on the peers are the lines, last to first, with their
  number, address and port.
\<close>

theorem peer_list_parsed:
  assumes "fs (peer_list_file c) = Some (peer_list_text es)" "\<And>e. e \<in> set es \<Longrightarrow> entry_ok g e"
    and "peers_ok c []"
  shows "ok (bt_parse_peer_list g fs c) (\<lambda>c'. \<exists>as. peers_ok c' as \<and>
    map (peer_view c') as = rev (map (entry_peer g) es))"
  using parse_peer_lines_text [OF assms(2,3), of es] fgets_peer_list [OF assms(2), of es] assms(1)
  by (simp add: bt_parse_peer_list_def)

theorem peer_list_parsed_witness:
  "ok (bt_parse_peer_list (\<lambda>h. Some 0x0100007F) (\<lambda>f. Some (peer_list_text [(1, cstr ''a'', 80)])) bt_init)
    (\<lambda>c'. \<exists>as. peers_ok c' as \<and> map (peer_view c') as = [(1, 0x0100007F, 80)])"
proof -
  have "entry_ok (\<lambda>h. Some 0x0100007F) (1, cstr ''a'', 80)"
    by (simp add: entry_ok_def cstr_def isspace_def peer_line_def dec.simps word_le_nat_alt)
  then show ?thesis
    by (intro ok_mono [OF peer_list_parsed [where es = "[(1, cstr ''a'', 80)]"]])
      (auto simp: peers_ok_init entry_peer_def)
qed

lemma first_peer_view:
  "peer_path (peer_heap c) p as \<Longrightarrow> List.find (\<lambda>v. fst v = k) (map (peer_view c) as) = Some v \<Longrightarrow>
   \<exists>a p. first_peer (peer_heap c) (\<lambda>p. peer_id p = k) as = Some a \<and> peer_heap c a = Some p \<and> peer_view c a = v"
proof (induction as arbitrary: p)
  case (Cons a as)
  then obtain pe where "peer_heap c a = Some pe" "peer_path (peer_heap c) (peer_next pe) as" by auto
  with Cons show ?case by (auto simp: peer_view_def split: if_splits)
qed simp

lemma find_rev_entries:
  assumes "i < 2 ^ 15" "List.find (\<lambda>e. fst e = i) (rev es) = Some (i, host, port)"
  shows "List.find (\<lambda>v. fst v = int i) (rev (map (entry_peer g) es)) = Some (int i, the (g host), of_nat port)"
proof -
  have "List.find (\<lambda>v. fst v = int i) (map (entry_peer g) xs) = map_option (entry_peer g) (List.find (\<lambda>e. fst e = i) xs)" for xs
    by (induction xs) (auto simp: entry_peer_def)
  from this [of "rev es"] assms(2) show ?thesis by (simp add: rev_map entry_peer_def)
qed

lemma bt_parse_command_line_ok:
  assumes "length plist < 255" "length hasf < 255" "length chunkf < 255" "hasf \<noteq> []" "chunkf \<noteq> []"
    and "m < 2 ^ 31" "i < 2 ^ 15" "i \<noteq> 0"
    and "fs plist = Some (peer_list_text es)" "\<And>e. e \<in> set es \<Longrightarrow> entry_ok g e"
    and "List.find (\<lambda>e. fst e = i) (rev es) = Some (i, host, port)"
  shows "ok (bt_parse_command_line g fs [(112, plist), (99, hasf), (102, chunkf), (109, dec m), (105, dec i)] bt_init dbg)
    (\<lambda>(c, dbg'). dbg' = dbg \<and> peer_list_file c = plist \<and> has_chunk_file c = hasf \<and> chunk_file c = chunkf \<and>
      max_conn c = int m \<and> identity c = int i \<and> myport c = of_nat port \<and>
      (\<exists>as. peers_ok c as \<and> map (peer_view c) as = rev (map (entry_peer g) es)))"
proof -
  let ?c1 = "bt_init\<lparr>peer_list_file := plist, has_chunk_file := hasf, chunk_file := chunkf, max_conn := int m,
    identity := int i\<rparr>"
  have opts: "parse_options [(112, plist), (99, hasf), (102, chunkf), (109, dec m), (105, dec i)] bt_init dbg =
      Inr (?c1, dbg)"
    using assms(1-3,6,7) atoi_dec [of m] atoi_dec [of i]
    by (simp add: strcpy_def BT_FILENAME_LEN_def to_short_small)
  have "peers_ok ?c1 []" by (simp add: peers_ok_def bt_init_def)
  from parse_peer_lines_text [OF assms(10) this, of es "\<lparr>v_nodeid = None, v_hostname = None, v_port = None\<rparr>"]
    fgets_peer_list [OF assms(10), of es] assms(9)
  obtain c2 bs where c2: "bt_parse_peer_list g fs ?c1 = Inr c2" "peers_ok c2 bs"
      "map (peer_view c2) bs = rev (map (entry_peer g) es)"
    by (auto simp: bt_parse_peer_list_def ok_iff)
  have same: "identity c2 = int i" "chunk_file c2 = chunkf" "has_chunk_file c2 = hasf" "peer_list_file c2 = plist"
      "max_conn c2 = int m"
    using bt_parse_peer_list_fields [OF c2(1)] by simp_all
  obtain a p where a: "first_peer (peer_heap c2) (\<lambda>p. peer_id p = int i) bs = Some a" "peer_heap c2 a = Some p"
      "peer_view c2 a = (int i, the (g host), of_nat port)"
    using first_peer_view [of c2 "peers c2" bs "int i"] c2(2,3) find_rev_entries [OF assms(7,11), of g]
    by (auto simp: peers_ok_def)
  have "bt_peer_info c2 (int i) = Inr (Some a)" using bt_peer_info_spec [OF c2(2)] a(1) by simp
  moreover have "ntohs (sin_port p) = of_nat port" using a(2,3) by (simp add: peer_view_def)
  moreover have "peers_ok (c2\<lparr>myport := x\<rparr>) bs" "map (peer_view (c2\<lparr>myport := x\<rparr>)) bs = map (peer_view c2) bs" for x
    using c2(2) by (simp_all add: peers_ok_def peer_view_def)
  ultimately show ?thesis
    using opts c2 same a assms(4,5,8) by (auto simp: bt_parse_command_line_def Let_def)
qed

text \<open>
  C36. Starting a peer: the options \<open>-p\<close>, \<open>-c\<close>, \<open>-f\<close>, \<open>-m\<close> and \<open>-i\<close> with names that fit their buffers are
  accepted if the peer list names the identity, and the configuration holds the options, the peers of
  the list and, as the port to listen on, the port of the last line with that number.
\<close>

theorem command_line_accepted:
  assumes "length plist < 255" "length hasf < 255" "length chunkf < 255" "hasf \<noteq> []" "chunkf \<noteq> []"
    and "m < 2 ^ 31" "i < 2 ^ 15" "i \<noteq> 0"
    and "fs plist = Some (peer_list_text es)" "\<And>e. e \<in> set es \<Longrightarrow> entry_ok g e"
    and "List.find (\<lambda>e. fst e = i) (rev es) = Some (i, host, port)"
  shows "ok (bt_parse_command_line g fs [(112, plist), (99, hasf), (102, chunkf), (109, dec m), (105, dec i)] bt_init dbg)
    (\<lambda>(c, dbg'). dbg' = dbg \<and> peer_list_file c = plist \<and> has_chunk_file c = hasf \<and> chunk_file c = chunkf \<and>
      max_conn c = int m \<and> identity c = int i \<and> myport c = of_nat port \<and>
      (\<exists>as. peers_ok c as \<and> map (peer_view c) as = rev (map (entry_peer g) es)))"
  using assms by (rule bt_parse_command_line_ok)

theorem command_line_accepted_witness:
  "ok (bt_parse_command_line (\<lambda>h. Some 0x0100007F) (\<lambda>f. Some (peer_list_text [(1, cstr ''a'', 80)]))
      [(112, [110]), (99, [104]), (102, [99]), (109, dec 4), (105, dec 1)] bt_init 0)
    (\<lambda>(c, dbg). identity c = 1 \<and> myport c = 80 \<and> max_conn c = 4)"
proof -
  have "entry_ok (\<lambda>h. Some 0x0100007F) (1, cstr ''a'', 80)"
    by (simp add: entry_ok_def cstr_def isspace_def peer_line_def dec.simps word_le_nat_alt)
  then show ?thesis
    by (intro ok_mono [OF command_line_accepted [where es = "[(1, cstr ''a'', 80)]"]]) auto
qed

end
