(* ===== verification/Tracker_C.thy ===== *)
theory Tracker_C
  imports Queue_C Chunk_C Stdio_C Bt_Parse_C
begin

text \<open>
  \<open>tracker.c\<close> and \<open>tracker.h\<close>: the chunks a peer downloads or offers. Chunk objects are shared
  between the download queue, the queue of finished chunks and the receivers, so they live in a
  heap (\<open>chunk_mem\<close>) and the queues hold their addresses; a holder is a pointer to a peer of the
  configuration (\<open>None\<close> is NULL). Packets are never shared and are values.
\<close>

section \<open>Data\<close>

definition TRACKER_LINE_LEN :: nat where "TRACKER_LINE_LEN = 255"
definition SHA_MAX_NUM :: nat where "SHA_MAX_NUM = (PKT_SIZE - HDR_SIZE - 4) div SHA1_HASH_SIZE"

lemma SHA_MAX_NUM_74: "SHA_MAX_NUM = 74"
  by (simp add: SHA_MAX_NUM_def packet_consts)

datatype chunk_state = READY | DOWNLOADING | FINISHED

text \<open>The enumeration constants compare as the integers they are.\<close>

fun state_code :: "chunk_state \<Rightarrow> nat" where
  "state_code READY = 0"
| "state_code DOWNLOADING = 1"
| "state_code FINISHED = 2"

instantiation chunk_state :: linorder
begin

definition less_eq_chunk_state :: "chunk_state \<Rightarrow> chunk_state \<Rightarrow> bool" where
  "less_eq_chunk_state a b = (state_code a \<le> state_code b)"

definition less_chunk_state :: "chunk_state \<Rightarrow> chunk_state \<Rightarrow> bool" where
  "less_chunk_state a b = (state_code a < state_code b)"

instance
proof
  fix x y z :: chunk_state
  show "(x < y) = (x \<le> y \<and> \<not> y \<le> x)" "x \<le> x" "x \<le> y \<or> y \<le> x"
    "x \<le> y \<Longrightarrow> y \<le> z \<Longrightarrow> x \<le> z"
    by (auto simp: less_eq_chunk_state_def less_chunk_state_def)
  show "x \<le> y \<Longrightarrow> y \<le> x \<Longrightarrow> x = y"
    by (cases x; cases y) (simp_all add: less_eq_chunk_state_def)
qed

end

record chunk_t =
  chunk_id :: int
  chunk_sha1 :: "byte list"
  c_state :: chunk_state
  holders :: "nat option qptr"
  chunk_data :: "byte list"

record chunk_mem =
  ch_heap :: "chunk_t heap"
  ch_brk :: nat

definition alloc_chunk :: "chunk_mem \<Rightarrow> chunk_t \<Rightarrow> nat \<times> chunk_mem" where
  "alloc_chunk mem c = (ch_brk mem, mem\<lparr>ch_heap := (ch_heap mem)(ch_brk mem \<mapsto> c), ch_brk := Suc (ch_brk mem)\<rparr>)"

definition zero_chunk :: chunk_t where
  "zero_chunk = \<lparr>chunk_id = 0, chunk_sha1 = replicate 255 0, c_state = READY, holders = Null,
     chunk_data = replicate BT_CHUNK_SIZE 0\<rparr>"

definition junk_chunk :: "machine \<Rightarrow> chunk_t" where
  "junk_chunk m = zero_chunk\<lparr>chunk_sha1 := map (heap_byte m) [0..<255],
     chunk_data := map (heap_byte m) [0..<BT_CHUNK_SIZE]\<rparr>"

section \<open>Chunks and the download queue\<close>

text \<open>\<open>sha1\<close> is the memory the caller's pointer points to.\<close>

definition init_chunk :: "chunk_t \<Rightarrow> int \<Rightarrow> byte list \<Rightarrow> chunk_t res" where
  "init_chunk chunk chunk_no sha1 = rbind (buf_read sha1 0 255) (\<lambda>s.
     rbind (buf_write (chunk_sha1 chunk) 0 s) (\<lambda>s'.
     Inr (chunk\<lparr>chunk_id := chunk_no, chunk_sha1 := s', holders := init_queue, c_state := READY\<rparr>)))"

text \<open>\<open>free_chunk\<close> frees every holder, an object of the heap of peers, and the chunk.\<close>

fun free_all :: "'a heap \<Rightarrow> nat option list \<Rightarrow> 'a heap res" where
  "free_all h [] = Inr h"
| "free_all h (p # ps) = rbind (hfree h p) (\<lambda>h'. free_all h' ps)"

definition free_chunk ::
    "chunk_mem \<Rightarrow> bt_peer_t heap \<Rightarrow> nat option \<Rightarrow> (chunk_mem \<times> bt_peer_t heap) res" where
  "free_chunk mem ph chunk = rbind (deref (ch_heap mem) chunk) (\<lambda>c.
     rbind (free_queue (holders c)) (\<lambda>hs.
     rbind (free_all ph (map (\<lambda>p. Option.bind p (\<lambda>x. x)) hs)) (\<lambda>ph'.
     rbind (hfree (ch_heap mem) chunk) (\<lambda>h'. Inr (mem\<lparr>ch_heap := h'\<rparr>, ph')))))"

definition is_ready :: "chunk_mem \<Rightarrow> nat option \<Rightarrow> bool res" where
  "is_ready mem chunk = rbind (deref (ch_heap mem) chunk) (\<lambda>c. Inr (c_state c = READY))"

definition contains_chunk :: "chunk_mem \<Rightarrow> nat qptr \<Rightarrow> nat option \<Rightarrow> nat option res" where
  "contains_chunk mem chunks chunk =
     (if chunks = Null \<or> chunk = None then Inr None
      else q_find chunks (\<lambda>a. rbind (deref (ch_heap mem) chunk) (\<lambda>c.
             rbind (deref (ch_heap mem) (Some a)) (\<lambda>cur.
             memcmp_eq (chunk_sha1 c) (chunk_sha1 cur) (2 * SHA1_HASH_SIZE)))))"

definition update_state :: "chunk_mem \<Rightarrow> nat qptr \<Rightarrow> nat option \<Rightarrow> chunk_state \<Rightarrow> chunk_mem res" where
  "update_state mem down_chunks chunk new_state =
     rbind (contains_chunk mem down_chunks chunk) (\<lambda>d.
     case d of
       None \<Rightarrow> Inr mem
     | Some a \<Rightarrow> rbind (deref (ch_heap mem) d) (\<lambda>c.
         if new_state > c_state c \<and> new_state \<le> FINISHED
         then Inr (mem\<lparr>ch_heap := (ch_heap mem)(a \<mapsto> c\<lparr>c_state := new_state\<rparr>)\<rparr>)
         else Inr mem))"

definition add_holder :: "chunk_mem \<Rightarrow> nat qptr \<Rightarrow> nat option \<Rightarrow> nat option \<Rightarrow> chunk_mem res" where
  "add_holder mem down_chunks chunk holder =
     rbind (contains_chunk mem down_chunks chunk) (\<lambda>d.
     case d of
       None \<Rightarrow> Inr mem
     | Some a \<Rightarrow> rbind (deref (ch_heap mem) d) (\<lambda>c.
         rbind (enqueue (if holders c = Null then init_queue else holders c) holder) (\<lambda>q.
         Inr (mem\<lparr>ch_heap := (ch_heap mem)(a \<mapsto> c\<lparr>holders := q\<rparr>)\<rparr>))))"

definition get_ready_to_download :: "chunk_mem \<Rightarrow> nat qptr \<Rightarrow> nat option \<Rightarrow> nat option res" where
  "get_ready_to_download mem down_chunks chunk =
     (if down_chunks = Null \<or> chunk = None then Inr None
      else rbind (contains_chunk mem down_chunks chunk) (\<lambda>d.
           rbind (deref (ch_heap mem) d) (\<lambda>c.
           Inr (if c_state c = READY then d else None))))"

fun choose_loop :: "chunk_t heap \<Rightarrow> nat \<Rightarrow> nat list \<Rightarrow> nat res" where
  "choose_loop h best [] = Inr best"
| "choose_loop h best (a # as) =
     rbind (deref h (Some a)) (\<lambda>cur. rbind (obj (holders cur)) (\<lambda>ch.
     rbind (deref h (Some best)) (\<lambda>down. rbind (obj (holders down)) (\<lambda>dh.
     if q_n ch < q_n dh then
       rbind (is_empty (holders cur)) (\<lambda>e. choose_loop h (if e then best else a) as)
     else choose_loop h best as))))"

definition choose_chunk_to_download :: "chunk_mem \<Rightarrow> nat qptr \<Rightarrow> nat option res" where
  "choose_chunk_to_download mem down_chunks =
     (if down_chunks = Null then Inr None
      else rbind (q_items down_chunks) (\<lambda>items.
        case items of
          [] \<Rightarrow> Inl Null_Deref
        | a # as \<Rightarrow> rbind (choose_loop (ch_heap mem) a items) (\<lambda>best. Inr (Some best))))"

definition scan_chunk_done :: "chunk_mem \<Rightarrow> nat qptr \<Rightarrow> nat qptr \<Rightarrow> (nat qptr \<times> nat qptr) res" where
  "scan_chunk_done mem down_chunks done_chunks =
     (if down_chunks = Null \<or> done_chunks = Null then Inr (down_chunks, done_chunks)
      else rbind (obj down_chunks) (\<lambda>q.
        partition_loop dequeue enqueue
          (\<lambda>a. rbind (deref (ch_heap mem) (Some a)) (\<lambda>c. Inr (c_state c = FINISHED)))
          (nat (q_n q)) down_chunks done_chunks))"

section \<open>Chunk files\<close>

text \<open>\<open>sscanf(line, "%d %s", &id, sha1)\<close>: a conversion that fails leaves its target as it was.\<close>

definition sscanf_chunk :: "byte list \<Rightarrow> int \<Rightarrow> byte list \<Rightarrow> (int \<times> byte list) res" where
  "sscanf_chunk line cid sha1 =
     (case scan_d line of
        None \<Rightarrow> Inr (cid, sha1)
      | Some (v, r) \<Rightarrow>
          (case scan_s r of
             None \<Rightarrow> Inr (to_int v, sha1)
           | Some (w, r') \<Rightarrow> rbind (buf_write sha1 0 (w @ [0])) (\<lambda>s. Inr (to_int v, s))))"

fun list_chunks_loop :: "byte list list \<Rightarrow> chunk_mem \<Rightarrow> nat qptr \<Rightarrow> (nat qptr \<times> chunk_mem) res" where
  "list_chunks_loop [] mem chunks = Inr (chunks, mem)"
| "list_chunks_loop (line # lines) mem chunks =
     rbind (sscanf_chunk line (chunk_id zero_chunk) (chunk_sha1 zero_chunk)) (\<lambda>(cid, sha1).
     rbind (init_chunk (zero_chunk\<lparr>chunk_id := cid, chunk_sha1 := sha1\<rparr>) cid sha1) (\<lambda>c.
     case alloc_chunk mem c of (a, mem') \<Rightarrow>
       rbind (enqueue chunks a) (\<lambda>chunks'. list_chunks_loop lines mem' chunks')))"

definition list_chunks :: "filesystem \<Rightarrow> chunk_mem \<Rightarrow> byte list \<Rightarrow> (nat qptr \<times> chunk_mem) res" where
  "list_chunks fs mem chunkfile =
     (case fs chunkfile of
        None \<Rightarrow> Inr (Null, mem)
      | Some f \<Rightarrow> list_chunks_loop (fgets_lines TRACKER_LINE_LEN f) mem init_queue)"

section \<open>Chunks and packets\<close>

text \<open>
  \<open>chunks2pkts\<close>: \<open>rest\<close> are the chunks from \<open>cur_node\<close> on, which moves on from packet to packet.
  Chunk pointers in the queues are never NULL, so the inner loop has no \<open>break\<close>.
\<close>

fun hash_list_loop ::
    "chunk_t heap \<Rightarrow> nat \<Rightarrow> nat \<Rightarrow> byte list \<Rightarrow> byte list \<Rightarrow> nat list \<Rightarrow> (byte list \<times> nat list) res" where
  "hash_list_loop h sha1_num idx bin_sha1 data [] = Inr (data, [])"
| "hash_list_loop h sha1_num idx bin_sha1 data (a # rest) =
     (if idx < sha1_num then
        rbind (deref h (Some a)) (\<lambda>chunk.
        rbind (hex2binary (chunk_sha1 chunk) (2 * SHA1_HASH_SIZE) bin_sha1) (\<lambda>bin.
        rbind (buf_write data (4 + idx * SHA1_HASH_SIZE) bin) (\<lambda>data'.
        hash_list_loop h sha1_num (Suc idx) bin data' rest)))
      else Inr (data, a # rest))"

fun chunks2pkts_loop ::
    "chunk_t heap \<Rightarrow> pkt_type \<Rightarrow> nat \<Rightarrow> nat \<Rightarrow> nat \<Rightarrow> nat list \<Rightarrow> packet qptr \<Rightarrow> packet qptr res" where
  "chunks2pkts_loop h type n num 0 rest pkts = Inr pkts"
| "chunks2pkts_loop h type n num (Suc k) rest pkts =
     (let i = num - Suc k;
          sha1_num = (if i < num - 1 then SHA_MAX_NUM else n mod SHA_MAX_NUM);
          data_size = 4 + SHA1_HASH_SIZE * sha1_num
      in rbind (buf_write (replicate data_size 0) 0 [of_nat sha1_num]) (\<lambda>data.
         rbind (hash_list_loop h sha1_num 0 (replicate SHA1_HASH_SIZE 0) data rest) (\<lambda>(data', rest').
         rbind (make_PKT type 0 (of_nat data_size) data') (\<lambda>pkt.
         rbind (enqueue pkts pkt) (\<lambda>pkts'.
         chunks2pkts_loop h type n num k rest' pkts')))))"

definition chunks2pkts :: "chunk_mem \<Rightarrow> nat qptr \<Rightarrow> pkt_type \<Rightarrow> packet qptr res" where
  "chunks2pkts mem chunks type =
     (if chunks = Null \<or> (type \<noteq> WHOHAS \<and> type \<noteq> IHAVE) then Inr Null
      else rbind (obj chunks) (\<lambda>q. rbind (q_items chunks) (\<lambda>items.
        let n = nat (q_n q);
            num = n div SHA_MAX_NUM + (if n mod SHA_MAX_NUM > 0 then 1 else 0)
        in chunks2pkts_loop (ch_heap mem) type n num num items init_queue)))"

text \<open>The count of hashes is a (signed) char.\<close>

fun pkt2chunks_loop ::
    "byte list \<Rightarrow> nat \<Rightarrow> nat \<Rightarrow> chunk_mem \<Rightarrow> nat qptr \<Rightarrow> (nat qptr \<times> chunk_mem) res" where
  "pkt2chunks_loop data i 0 mem chunks = Inr (chunks, mem)"
| "pkt2chunks_loop data i (Suc k) mem chunks =
     rbind (buf_read data (4 + i * SHA1_HASH_SIZE) SHA1_HASH_SIZE) (\<lambda>bin_sha1.
     rbind (binary2hex bin_sha1 SHA1_HASH_SIZE (chunk_sha1 zero_chunk)) (\<lambda>sha1.
     rbind (init_chunk (zero_chunk\<lparr>chunk_sha1 := sha1\<rparr>) (chunk_id zero_chunk) sha1) (\<lambda>c.
     case alloc_chunk mem c of (a, mem') \<Rightarrow>
       rbind (enqueue chunks a) (\<lambda>chunks'. pkt2chunks_loop data (Suc i) k mem' chunks'))))"

definition pkt2chunks :: "chunk_mem \<Rightarrow> packet \<Rightarrow> pkt_type \<Rightarrow> (nat qptr \<times> chunk_mem) res" where
  "pkt2chunks mem pkt type =
     (if type \<noteq> WHOHAS \<and> type \<noteq> IHAVE then Inr (Null, mem)
      else rbind (bget (pkt_data pkt) 0) (\<lambda>sha1_num.
        pkt2chunks_loop (pkt_data pkt) 0 (nat (sint sha1_num)) mem init_queue))"

fun which_loop :: "chunk_mem \<Rightarrow> nat qptr \<Rightarrow> nat list \<Rightarrow> nat qptr \<Rightarrow> nat qptr res" where
  "which_loop mem chunks [] have = Inr have"
| "which_loop mem chunks (a # as) have =
     rbind (contains_chunk mem chunks (Some a)) (\<lambda>d.
     case d of
       None \<Rightarrow> which_loop mem chunks as have
     | Some c \<Rightarrow> rbind (enqueue have c) (\<lambda>have'. which_loop mem chunks as have'))"

definition which_i_have ::
    "filesystem \<Rightarrow> chunk_mem \<Rightarrow> nat qptr \<Rightarrow> byte list \<Rightarrow> (nat qptr \<times> chunk_mem) res" where
  "which_i_have fs mem who_has_chunks has_file =
     rbind (list_chunks fs mem has_file) (\<lambda>(chunks, mem').
     rbind (q_items who_has_chunks) (\<lambda>items.
     rbind (which_loop mem' chunks items init_queue) (\<lambda>have. Inr (have, mem'))))"

fun chunk2pkts_loop :: "byte list \<Rightarrow> nat \<Rightarrow> nat \<Rightarrow> packet list res" where
  "chunk2pkts_loop data i 0 = Inr []"
| "chunk2pkts_loop data i (Suc k) =
     rbind (buf_read data (i * DATA_SIZE) DATA_SIZE) (\<lambda>d.
     rbind (make_DATA (of_nat (i + 1)) (of_nat DATA_SIZE) d) (\<lambda>pkt.
     rbind (chunk2pkts_loop data (Suc i) k) (\<lambda>pkts. Inr (pkt # pkts))))"

definition chunk2pkts :: "chunk_t \<Rightarrow> (packet list \<times> nat) res" where
  "chunk2pkts data_chunk =
     (let data = chunk_data data_chunk;
          total = BT_CHUNK_SIZE div DATA_SIZE + (if BT_CHUNK_SIZE mod DATA_SIZE > 0 then 1 else 0);
          i = total - 1
      in rbind (chunk2pkts_loop data 0 i) (\<lambda>pkts.
         rbind (make_DATA (of_nat (i + 1)) (of_nat (BT_CHUNK_SIZE mod DATA_SIZE)) (drop (i * DATA_SIZE) data))
           (\<lambda>pkt. Inr (pkts @ [pkt], total))))"

section \<open>Chunk data\<close>

text \<open>
  \<open>get_data_chunk\<close>. The first line names the file, the second one is skipped, the rest are scanned for
  the hash in the request. A line buffer that \<open>fgets\<close> does not fill stays as it was; \<open>file_name\<close> is
  an uninitialised local unless the first conversion stores it. \<open>int_mult\<close> is the product of two
  ints, \<open>fseek\<close> leaves the position alone when the offset is negative, \<open>fread\<close> stores the bytes there
  are.
\<close>

definition sscanf_file :: "byte list \<Rightarrow> byte list option" where
  "sscanf_file line =
     (if take 5 line = cstr ''File:'' then map_option fst (scan_s (drop 5 line)) else None)"

definition int_mult :: "int \<Rightarrow> int \<Rightarrow> int res" where
  "int_mult a b = (if - (2 ^ 31) \<le> a * b \<and> a * b < 2 ^ 31 then Inr (a * b) else Inl Signed_Overflow)"

definition fgets_rest :: "nat \<Rightarrow> byte list \<Rightarrow> byte list \<Rightarrow> byte list \<times> byte list" where
  "fgets_rest n line fp = (case fgets n fp of None \<Rightarrow> (line, fp) | Some (l, rest) \<Rightarrow> (c_string l, rest))"

fun find_hash_loop :: "byte list \<Rightarrow> byte list list \<Rightarrow> int \<Rightarrow> byte list \<Rightarrow> (int \<times> byte list) res" where
  "find_hash_loop sha1 [] cid csha = Inr (cid, csha)"
| "find_hash_loop sha1 (line # lines) cid csha =
     rbind (sscanf_chunk line cid csha) (\<lambda>(cid', csha').
     rbind (memcmp_eq sha1 csha' SHA1_HASH_SIZE) (\<lambda>eq.
     if eq then Inr (cid', csha') else find_hash_loop sha1 lines cid' csha'))"

definition fread_chunk :: "byte list \<Rightarrow> int \<Rightarrow> byte list \<Rightarrow> byte list" where
  "fread_chunk f offset buf =
     (let bytes = take BT_CHUNK_SIZE (drop (if offset < 0 then 0 else nat offset) f)
      in bytes @ drop (length bytes) buf)"

definition get_data_chunk ::
    "machine \<Rightarrow> filesystem \<Rightarrow> chunk_mem \<Rightarrow> byte list \<Rightarrow> packet \<Rightarrow> (nat option \<times> chunk_mem) res" where
  "get_data_chunk m fs mem chunkfile pkt =
     (case fs chunkfile of
        None \<Rightarrow> Inr (None, mem)
      | Some fp \<Rightarrow>
          rbind (buf_read (pkt_data pkt) 0 SHA1_HASH_SIZE) (\<lambda>data.
          rbind (binary2hex data SHA1_HASH_SIZE (replicate 255 0)) (\<lambda>sha1.
          case fgets_rest TRACKER_LINE_LEN [] fp of (file_line, fp1) \<Rightarrow>
          case fgets_rest TRACKER_LINE_LEN [] fp1 of (line, fp2) \<Rightarrow>
          rbind (init_chunk (junk_chunk m) 0 (0 # literal_tail m)) (\<lambda>data_chunk.
          rbind (find_hash_loop sha1 (fgets_lines TRACKER_LINE_LEN fp2) (chunk_id data_chunk)
                   (chunk_sha1 data_chunk)) (\<lambda>(cid, csha).
          rbind (init_var (sscanf_file file_line)) (\<lambda>file_name.
          case fs file_name of
            None \<Rightarrow> Inl Null_Deref
          | Some f \<Rightarrow> rbind (int_mult cid (int BT_CHUNK_SIZE)) (\<lambda>offset.
              case alloc_chunk mem (data_chunk\<lparr>chunk_id := cid, chunk_sha1 := csha,
                  chunk_data := fread_chunk f offset (chunk_data data_chunk)\<rparr>) of
                (a, mem') \<Rightarrow> Inr (Some a, mem'))))))))"

text \<open>
  \<open>check_chunk\<close> keeps the 41 characters that \<open>binary2hex\<close> writes in an array of 20: the array is
  modelled with the bytes behind it that the frame does not use.
\<close>

definition check_chunk :: "machine \<Rightarrow> chunk_t \<Rightarrow> byte list \<Rightarrow> bool res" where
  "check_chunk m chunk sha1 =
     rbind (shahash m (chunk_data chunk) (of_nat BT_CHUNK_SIZE) (map (stack_byte m) [0..<2 * SHA1_HASH_SIZE]))
       (\<lambda>target.
     rbind (binary2hex target SHA1_HASH_SIZE
              (replicate SHA1_HASH_SIZE 0 @ map (stack_byte m) [0..<frame_slack m])) (\<lambda>target_hex.
     memcmp_eq target_hex sha1 (2 * SHA1_HASH_SIZE)))"


section \<open>Well-formed chunk memory\<close>

definition chunk_ok :: "chunk_t \<Rightarrow> bool" where
  "chunk_ok c \<longleftrightarrow> length (chunk_sha1 c) = 255 \<and> length (chunk_data c) = BT_CHUNK_SIZE \<and>
     (\<exists>hs. repr (holders c) hs)"

definition mem_ok :: "chunk_mem \<Rightarrow> bool" where
  "mem_ok mem \<longleftrightarrow> (\<forall>a c. ch_heap mem a = Some c \<longrightarrow> a < ch_brk mem \<and> chunk_ok c)"

definition valid :: "chunk_mem \<Rightarrow> nat list \<Rightarrow> bool" where
  "valid mem as \<longleftrightarrow> (\<forall>a \<in> set as. \<exists>c. ch_heap mem a = Some c)"

definition chunk_at :: "chunk_mem \<Rightarrow> nat \<Rightarrow> chunk_t" where
  "chunk_at mem a = the (ch_heap mem a)"

definition key :: "chunk_t \<Rightarrow> byte list" where
  "key c = take (2 * SHA1_HASH_SIZE) (chunk_sha1 c)"

definition key_at :: "chunk_mem \<Rightarrow> nat \<Rightarrow> byte list" where
  "key_at mem a = key (chunk_at mem a)"

lemma mem_okD: "mem_ok mem \<Longrightarrow> ch_heap mem a = Some c \<Longrightarrow> a < ch_brk mem \<and> chunk_ok c"
  by (simp add: mem_ok_def)

lemma chunk_at_Some: "ch_heap mem a = Some c \<Longrightarrow> chunk_at mem a = c"
  by (simp add: chunk_at_def)

lemma valid_simps [simp]:
  "valid mem []"
  "valid mem (a # as) \<longleftrightarrow> (\<exists>c. ch_heap mem a = Some c) \<and> valid mem as"
  "valid mem (as @ bs) \<longleftrightarrow> valid mem as \<and> valid mem bs"
  by (auto simp: valid_def)

lemma validD: "valid mem as \<Longrightarrow> a \<in> set as \<Longrightarrow> ch_heap mem a = Some (chunk_at mem a)"
  by (auto simp: valid_def chunk_at_def)

lemma mem_ok_set:
  "mem_ok mem \<Longrightarrow> ch_heap mem a = Some c \<Longrightarrow> chunk_ok c' \<Longrightarrow> mem_ok (mem\<lparr>ch_heap := (ch_heap mem)(a \<mapsto> c')\<rparr>)"
  by (auto simp: mem_ok_def)

lemma valid_set: "valid mem as \<Longrightarrow> valid (mem\<lparr>ch_heap := (ch_heap mem)(a \<mapsto> c')\<rparr>) as"
  by (auto simp: valid_def)

lemma mem_ok_alloc:
  assumes "mem_ok mem" "chunk_ok c" "alloc_chunk mem c = (a, mem')"
  shows "mem_ok mem'" "ch_heap mem' a = Some c" "a = ch_brk mem" "ch_brk mem' = Suc a"
    "\<And>b. b < ch_brk mem \<Longrightarrow> ch_heap mem' b = ch_heap mem b" "ch_heap mem a = None"
proof -
  have "ch_heap mem (ch_brk mem) = None"
  proof (cases "ch_heap mem (ch_brk mem)")
    case (Some d)
    then show ?thesis using mem_okD [OF assms(1) Some] by simp
  qed simp
  then show "mem_ok mem'" "ch_heap mem' a = Some c" "a = ch_brk mem" "ch_brk mem' = Suc a"
    "\<And>b. b < ch_brk mem \<Longrightarrow> ch_heap mem' b = ch_heap mem b" "ch_heap mem a = None"
    using assms by (auto simp: alloc_chunk_def mem_ok_def less_Suc_eq split: if_splits)
qed

lemma valid_alloc:
  assumes "mem_ok mem" "alloc_chunk mem c = (a, mem')" "valid mem as"
  shows "valid mem' as"
  using assms by (auto simp: alloc_chunk_def mem_ok_def valid_def)

lemma zero_chunk_fields [simp]:
  "length (chunk_sha1 zero_chunk) = 255" "length (chunk_data zero_chunk) = BT_CHUNK_SIZE"
  "chunk_id zero_chunk = 0"
  by (simp_all add: zero_chunk_def)

lemma junk_chunk_fields [simp]:
  "length (chunk_sha1 (junk_chunk m)) = 255" "length (chunk_data (junk_chunk m)) = BT_CHUNK_SIZE"
  by (simp_all add: junk_chunk_def)

lemma init_chunk_Inr:
  assumes "255 \<le> length s" "length (chunk_sha1 c) = 255"
  shows "init_chunk c i s = Inr (c\<lparr>chunk_id := i, chunk_sha1 := take 255 s, holders := init_queue,
    c_state := READY\<rparr>)"
  using assms by (simp add: init_chunk_def buf_read_def buf_write_def)

text \<open>\<open>alloc_all\<close> allocates the chunks of a list, the last one at the highest address.\<close>

definition empty_mem :: chunk_mem where
  "empty_mem = \<lparr>ch_heap = Map.empty, ch_brk = 0\<rparr>"

fun alloc_all :: "chunk_mem \<Rightarrow> chunk_t list \<Rightarrow> chunk_mem" where
  "alloc_all mem [] = mem"
| "alloc_all mem (c # cs) = alloc_all (snd (alloc_chunk mem c)) cs"

lemma alloc_all_old:
  "mem_ok mem \<Longrightarrow> \<forall>c \<in> set cs. chunk_ok c \<Longrightarrow>
   mem_ok (alloc_all mem cs) \<and> ch_brk (alloc_all mem cs) = ch_brk mem + length cs \<and>
   (\<forall>b. b < ch_brk mem \<longrightarrow> ch_heap (alloc_all mem cs) b = ch_heap mem b) \<and>
   (\<forall>i < length cs. ch_heap (alloc_all mem cs) (ch_brk mem + i) = Some (cs ! i))"
proof (induction cs arbitrary: mem)
  case Nil
  then show ?case by simp
next
  case (Cons c cs)
  obtain a mem1 where al: "alloc_chunk mem c = (a, mem1)" by fastforce
  note m = mem_ok_alloc [OF Cons.prems(1) _ al]
  have ok: "chunk_ok c" using Cons.prems(2) by simp
  note m = m [OF ok]
  have IH: "mem_ok (alloc_all mem1 cs)" "ch_brk (alloc_all mem1 cs) = Suc (ch_brk mem) + length cs"
    "\<And>b. b < Suc (ch_brk mem) \<Longrightarrow> ch_heap (alloc_all mem1 cs) b = ch_heap mem1 b"
    "\<And>i. i < length cs \<Longrightarrow> ch_heap (alloc_all mem1 cs) (Suc (ch_brk mem) + i) = Some (cs ! i)"
    using Cons.IH [OF m(1)] Cons.prems(2) m(3,4) by auto
  have "ch_heap (alloc_all mem1 cs) (ch_brk mem + i) = Some ((c # cs) ! i)" if "i < Suc (length cs)" for i
    using that IH(3) [of "ch_brk mem"] IH(4) [of "i - 1"] m(2,3) by (cases i) auto
  then show ?case using IH m by (simp add: al less_SucI)
qed

lemma mem_ok_empty: "mem_ok empty_mem"
  by (simp add: mem_ok_def empty_mem_def)

lemma alloc_all_empty:
  assumes "\<forall>c \<in> set cs. chunk_ok c"
  shows "mem_ok (alloc_all empty_mem cs)" "valid (alloc_all empty_mem cs) [0..<length cs]"
    "\<And>i. i < length cs \<Longrightarrow> ch_heap (alloc_all empty_mem cs) i = Some (cs ! i)"
    "\<And>i. i < length cs \<Longrightarrow> chunk_at (alloc_all empty_mem cs) i = cs ! i"
proof -
  show mem: "mem_ok (alloc_all empty_mem cs)"
    using alloc_all_old [OF mem_ok_empty assms] by simp
  show h: "ch_heap (alloc_all empty_mem cs) i = Some (cs ! i)" if "i < length cs" for i
    using alloc_all_old [OF mem_ok_empty assms] that by (simp add: empty_mem_def)
  show "valid (alloc_all empty_mem cs) [0..<length cs]" using h by (auto simp: valid_def)
  show "chunk_at (alloc_all empty_mem cs) i = cs ! i" if "i < length cs" for i
    using h [OF that] by (simp add: chunk_at_def)
qed

lemma chunk_ok_zero: "repr hq hs \<Longrightarrow> length s = 255 \<Longrightarrow>
    chunk_ok (zero_chunk\<lparr>chunk_sha1 := s, c_state := st, holders := hq\<rparr>)"
  by (auto simp: chunk_ok_def)

section \<open>The download queue\<close>

lemma contains_chunk_test:
  assumes "mem_ok mem" "ch_heap mem a = Some c" "ch_heap mem b = Some d"
  shows "rbind (deref (ch_heap mem) (Some a)) (\<lambda>c. rbind (deref (ch_heap mem) (Some b)) (\<lambda>cur.
    memcmp_eq (chunk_sha1 c) (chunk_sha1 cur) (2 * SHA1_HASH_SIZE))) = Inr (key_at mem b = key_at mem a)"
  using assms mem_okD [OF assms(1,2)] mem_okD [OF assms(1,3)]
  by (auto simp: memcmp_eq_Inr SHA1_HASH_SIZE_def chunk_ok_def key_at_def key_def chunk_at_Some)

lemma contains_chunk_spec:
  assumes "mem_ok mem" "repr q xs" "valid mem xs" "ch_heap mem a = Some c"
  shows "contains_chunk mem q (Some a) = Inr (List.find (\<lambda>b. key_at mem b = key_at mem a) xs)"
proof -
  have "q \<noteq> Null" using assms(2) by (auto simp: repr_def)
  moreover have "q_find q (\<lambda>b. rbind (deref (ch_heap mem) (Some a)) (\<lambda>c.
      rbind (deref (ch_heap mem) (Some b)) (\<lambda>cur.
      memcmp_eq (chunk_sha1 c) (chunk_sha1 cur) (2 * SHA1_HASH_SIZE)))) =
    Inr (List.find (\<lambda>b. key_at mem b = key_at mem a) xs)"
    by (rule cq.search_pure [OF assms(2)])
      (rule contains_chunk_test [OF assms(1,4) validD [OF assms(3)]], simp)
  ultimately show ?thesis by (simp only: contains_chunk_def) simp
qed

lemma contains_chunk_Null [simp]: "contains_chunk mem Null p = Inr None"
  by (simp add: contains_chunk_def)

lemma find_SomeD: "List.find P xs = Some a \<Longrightarrow> a \<in> set xs \<and> P a"
  by (auto simp: find_Some_iff)

lemma update_state_spec:
  assumes "mem_ok mem" "repr q xs" "valid mem xs" "ch_heap mem a = Some c"
  shows "update_state mem q (Some a) st = Inr
    (case List.find (\<lambda>b. key_at mem b = key_at mem a) xs of
       None \<Rightarrow> mem
     | Some b \<Rightarrow> mem\<lparr>ch_heap := (ch_heap mem)(b \<mapsto> (chunk_at mem b)\<lparr>c_state := max (c_state (chunk_at mem b)) st\<rparr>)\<rparr>)"
proof -
  have le: "st \<le> FINISHED" for st
    by (cases st) (simp_all add: less_eq_chunk_state_def)
  show ?thesis
  proof (cases "List.find (\<lambda>b. key_at mem b = key_at mem a) xs")
    case None
    with contains_chunk_spec [OF assms] show ?thesis by (simp add: update_state_def)
  next
    case (Some b)
    then have b: "ch_heap mem b = Some (chunk_at mem b)"
      using validD [OF assms(3)] find_SomeD [OF Some] by simp
    have "mem\<lparr>ch_heap := (ch_heap mem)(b \<mapsto> chunk_at mem b)\<rparr> = mem"
      using b by (simp add: fun_upd_idem_iff)
    then show ?thesis
      using Some contains_chunk_spec [OF assms] b le
      by (auto simp: update_state_def max_def not_less)
  qed
qed

lemma add_holder_spec:
  assumes "mem_ok mem" "repr q xs" "valid mem xs" "ch_heap mem a = Some c"
  shows "ok (add_holder mem q (Some a) p) (\<lambda>mem'.
    (case List.find (\<lambda>b. key_at mem b = key_at mem a) xs of
       None \<Rightarrow> mem' = mem
     | Some b \<Rightarrow> (\<exists>hs q'. repr (holders (chunk_at mem b)) hs \<and> repr q' (hs @ [p]) \<and>
         mem' = mem\<lparr>ch_heap := (ch_heap mem)(b \<mapsto> (chunk_at mem b)\<lparr>holders := q'\<rparr>)\<rparr>)))"
proof (cases "List.find (\<lambda>b. key_at mem b = key_at mem a) xs")
  case None
  with contains_chunk_spec [OF assms] show ?thesis by (simp add: add_holder_def)
next
  case (Some b)
  then have b: "ch_heap mem b = Some (chunk_at mem b)"
    using validD [OF assms(3)] find_SomeD [OF Some] by simp
  obtain hs where hs: "repr (holders (chunk_at mem b)) hs"
    using mem_okD [OF assms(1) b] by (auto simp: chunk_ok_def)
  then have "holders (chunk_at mem b) \<noteq> Null" by (auto simp: repr_def)
  then show ?thesis
    using Some contains_chunk_spec [OF assms] b hs
    by (auto simp: add_holder_def ok_rbind_iff intro!: cq.enq_wp [OF hs])
qed


text \<open>\<open>holders_of\<close> reads the queue of holders as a list.\<close>

definition holders_of :: "chunk_t \<Rightarrow> nat option list" where
  "holders_of c = (case q_items (holders c) of Inl e \<Rightarrow> [] | Inr hs \<Rightarrow> hs)"

definition holder_count :: "chunk_mem \<Rightarrow> nat \<Rightarrow> nat" where
  "holder_count mem a = length (holders_of (chunk_at mem a))"

lemma holders_of_repr: "repr (holders c) hs \<Longrightarrow> holders_of c = hs"
  by (simp add: holders_of_def cq.rep_items)

lemma chunk_ok_holders:
  "chunk_ok c \<Longrightarrow> \<exists>q. holders c = Obj q \<and> q_n q = int (length (holders_of c)) \<and>
     is_empty (holders c) = Inr (holders_of c = []) \<and> repr (holders c) (holders_of c)"
  unfolding chunk_ok_def using repr_length cq.rep_emp holders_of_repr by fastforce

fun rarest :: "(nat \<Rightarrow> nat) \<Rightarrow> nat \<Rightarrow> nat list \<Rightarrow> nat" where
  "rarest f best [] = best"
| "rarest f best (a # as) = rarest f (if f a < f best \<and> f a \<noteq> 0 then a else best) as"

lemma rarest_in: "rarest f b as \<in> insert b (set as)"
  by (induction f b as rule: rarest.induct) (auto split: if_splits)

lemma rarest_min:
  "f b \<noteq> 0 \<Longrightarrow> f (rarest f b as) \<noteq> 0 \<and> f (rarest f b as) \<le> f b \<and>
     (\<forall>a \<in> set as. f a \<noteq> 0 \<longrightarrow> f (rarest f b as) \<le> f a)"
proof (induction f b as rule: rarest.induct)
  case (2 f b a as)
  then show ?case by (cases "f a < f b \<and> f a \<noteq> 0") auto
qed simp

lemma rarest_none: "f b = 0 \<Longrightarrow> rarest f b as = b"
  by (induction f b as rule: rarest.induct) auto

lemma choose_loop_spec:
  assumes "mem_ok mem" "valid mem (b # as)"
  shows "choose_loop (ch_heap mem) b as = Inr (rarest (holder_count mem) b as)"
  using assms(2)
proof (induction as arbitrary: b)
  case Nil
  then show ?case by simp
next
  case (Cons a as)
  then have a: "ch_heap mem a = Some (chunk_at mem a)" and b: "ch_heap mem b = Some (chunk_at mem b)"
    using validD [OF Cons.prems] by auto
  obtain qa where qa: "holders (chunk_at mem a) = Obj qa" "q_n qa = int (holder_count mem a)"
    "is_empty (Obj qa) = Inr (holder_count mem a = 0)"
    using chunk_ok_holders [of "chunk_at mem a"] mem_okD [OF assms(1) a] by (auto simp: holder_count_def)
  obtain qb where qb: "holders (chunk_at mem b) = Obj qb" "q_n qb = int (holder_count mem b)"
    using chunk_ok_holders [of "chunk_at mem b"] mem_okD [OF assms(1) b] by (auto simp: holder_count_def)
  have IH: "choose_loop (ch_heap mem) c as = Inr (rarest (holder_count mem) c as)" if "c \<in> {a, b}" for c
    using Cons.IH [of c] Cons.prems that by auto
  show ?case using a b qa qb IH by auto
qed

lemma choose_chunk_spec:
  assumes "mem_ok mem" "repr q (a # as)" "valid mem (a # as)"
  shows "choose_chunk_to_download mem q = Inr (Some (rarest (holder_count mem) a as))"
proof -
  have "valid mem (a # a # as)" using assms(3) by simp
  moreover have "q \<noteq> Null" using assms(2) by (auto simp: repr_def)
  ultimately show ?thesis
    using choose_loop_spec [OF assms(1), of a "a # as"] assms(2)
    by (simp add: choose_chunk_to_download_def cq.rep_items del: choose_loop.simps)
qed

definition finished :: "chunk_mem \<Rightarrow> nat \<Rightarrow> bool" where
  "finished mem a \<longleftrightarrow> c_state (chunk_at mem a) = FINISHED"

lemma scan_chunk_done_spec:
  assumes "repr q xs" "repr d ds" "valid mem xs"
  shows "ok (scan_chunk_done mem q d) (\<lambda>(q', d').
    repr q' (filter (\<lambda>a. \<not> finished mem a) xs) \<and> repr d' (ds @ filter (finished mem) xs))"
proof -
  have ptrs: "q \<noteq> Null" "d \<noteq> Null" using assms(1,2) by (auto simp: repr_def)
  obtain q1 where q1: "q = Obj q1" "q_n q1 = int (length xs)" using repr_length [OF assms(1)] by blast
  have "ok (partition_loop dequeue enqueue
      (\<lambda>a. rbind (deref (ch_heap mem) (Some a)) (\<lambda>c. Inr (c_state c = FINISHED))) (length xs) q d)
    (\<lambda>(q', d'). repr q' ([] @ filter (\<lambda>a. \<not> finished mem a) xs) \<and> repr d' (ds @ filter (finished mem) xs))"
    by (rule cq.partition_rep)
      (use assms validD [OF assms(3)] in \<open>auto simp: finished_def\<close>)
  with ptrs q1 show ?thesis by (simp add: scan_chunk_done_def)
qed


section \<open>Properties\<close>

text \<open>
  C27. The choice of the next chunk: \<open>choose_chunk_to_download\<close> returns an element of the queue; if the
  first chunk has a holder, the chosen one has a holder and no chunk with a holder has fewer (the
  rarest first); if the first chunk has none, the first chunk is chosen, whatever the others have.
\<close>

theorem choose_rarest:
  assumes "mem_ok mem" "repr q (a # as)" "valid mem (a # as)"
  shows "\<exists>best \<in> set (a # as). choose_chunk_to_download mem q = Inr (Some best) \<and>
    (if holder_count mem a = 0 then best = a
     else holder_count mem best \<noteq> 0 \<and>
       (\<forall>b \<in> set (a # as). holder_count mem b \<noteq> 0 \<longrightarrow> holder_count mem best \<le> holder_count mem b))"
  using choose_chunk_spec [OF assms] rarest_in [of "holder_count mem" a as]
    rarest_min [of "holder_count mem" a as] rarest_none [of "holder_count mem" a as]
  by (intro bexI [of _ "rarest (holder_count mem) a as"]) auto

theorem choose_rarest_witness:
  "choose_chunk_to_download (alloc_all empty_mem
      [zero_chunk\<lparr>holders := queue_of [Some 3, Some 4]\<rparr>, zero_chunk\<lparr>holders := queue_of [Some 3]\<rparr>])
    (queue_of [0, 1]) = Inr (Some 1)"
proof -
  let ?cs = "[zero_chunk\<lparr>holders := queue_of [Some 3, Some 4]\<rparr>, zero_chunk\<lparr>holders := queue_of [Some 3]\<rparr>]"
  have ok: "\<forall>c \<in> set ?cs. chunk_ok c"
    using repr_queue_of by (auto simp: chunk_ok_def)
  note mem = alloc_all_empty [OF ok]
  have count: "holder_count (alloc_all empty_mem ?cs) 0 = 2" "holder_count (alloc_all empty_mem ?cs) 1 = 1"
    using mem(4) [of 0] mem(4) [of 1] by (simp_all add: holder_count_def holders_of_def cq.rep_items [OF repr_queue_of])
  have "valid (alloc_all empty_mem ?cs) [0, 1]" using mem(2) by (simp add: upt_rec)
  from choose_rarest [OF mem(1) repr_queue_of this] show ?thesis using count by auto
qed

text \<open>
  C28. The state of a chunk only moves forward, READY to DOWNLOADING to FINISHED: \<open>update_state\<close> keeps
  the chunk memory well formed, lowers no state and, asked for READY, changes nothing at all.
\<close>

theorem update_state_forward:
  assumes "mem_ok mem" "repr q xs" "valid mem xs" "ch_heap mem a = Some c"
  shows "ok (update_state mem q (Some a) st) (\<lambda>mem'. mem_ok mem' \<and>
    (\<forall>b d. ch_heap mem b = Some d \<longrightarrow> (\<exists>d'. ch_heap mem' b = Some d' \<and> c_state d \<le> c_state d')) \<and>
    (\<forall>b \<in> set xs. key_at mem b = key_at mem a \<longrightarrow>
      (\<exists>b' \<in> set xs. key_at mem b' = key_at mem a \<and> st \<le> c_state (chunk_at mem' b'))) \<and>
    (st = READY \<longrightarrow> mem' = mem))"
proof (cases "List.find (\<lambda>b. key_at mem b = key_at mem a) xs")
  case None
  then have "\<forall>b \<in> set xs. key_at mem b \<noteq> key_at mem a" by (auto simp: find_None_iff)
  then show ?thesis using assms(1) None by (simp add: update_state_spec [OF assms])
next
  case (Some b)
  let ?c = "chunk_at mem b" and ?st = "max (c_state (chunk_at mem b)) st"
  have b: "ch_heap mem b = Some ?c" "b \<in> set xs" "key_at mem b = key_at mem a"
    using validD [OF assms(3)] find_SomeD [OF Some] by auto
  have "chunk_ok (?c\<lparr>c_state := ?st\<rparr>)" using mem_okD [OF assms(1) b(1)] by (simp add: chunk_ok_def)
  then have "mem_ok (mem\<lparr>ch_heap := (ch_heap mem)(b \<mapsto> ?c\<lparr>c_state := ?st\<rparr>)\<rparr>)"
    by (rule mem_ok_set [OF assms(1) b(1)])
  moreover have "mem\<lparr>ch_heap := (ch_heap mem)(b \<mapsto> ?c\<lparr>c_state := ?st\<rparr>)\<rparr> = mem" if "st = READY"
  proof -
    have "?st = c_state ?c" using that
      by (cases "c_state ?c") (simp_all add: max_def less_eq_chunk_state_def)
    then show ?thesis using b(1) by (simp add: fun_upd_idem_iff)
  qed
  moreover obtain d where d: "ch_heap mem b = Some d" "chunk_at mem b = d" using b(1) by blast
  have "c_state e \<le> max (c_state d) st" if "ch_heap mem b = Some e" for e using that d(1) by simp
  moreover have "chunk_at (mem\<lparr>ch_heap := (ch_heap mem)(b \<mapsto> e)\<rparr>) b = e" for e
    by (simp add: chunk_at_def)
  ultimately show ?thesis
    using b(2,3) Some d by (auto simp: update_state_spec [OF assms] intro!: bexI [of _ b])
qed

theorem update_state_forward_witness:
  "ok (update_state (alloc_all empty_mem [zero_chunk\<lparr>c_state := DOWNLOADING, holders := init_queue\<rparr>])
      (queue_of [0]) (Some 0) FINISHED) (\<lambda>mem. FINISHED \<le> c_state (chunk_at mem 0))"
proof -
  let ?cs = "[zero_chunk\<lparr>c_state := DOWNLOADING, holders := init_queue\<rparr>]"
  have ok: "\<forall>c \<in> set ?cs. chunk_ok c" using cq.rep_new by (auto simp: chunk_ok_def)
  note mem = alloc_all_empty [OF ok]
  have "valid (alloc_all empty_mem ?cs) [0]" using mem(2) by simp
  moreover have "ch_heap (alloc_all empty_mem ?cs) 0 = Some (?cs ! 0)" by (rule mem(3)) simp
  ultimately show ?thesis
    by (intro ok_mono [OF update_state_forward [OF mem(1) repr_queue_of]]) auto
qed

text \<open>
  C29. \<open>scan_chunk_done\<close> moves exactly the finished chunks, in order, behind the chunks that were
  already done, and leaves the others in the download queue, in order.
\<close>

theorem scan_chunk_done_partitions:
  assumes "repr q xs" "repr d ds" "valid mem xs"
  shows "ok (scan_chunk_done mem q d) (\<lambda>(q', d').
    repr q' (filter (\<lambda>a. c_state (chunk_at mem a) \<noteq> FINISHED) xs) \<and>
    repr d' (ds @ filter (\<lambda>a. c_state (chunk_at mem a) = FINISHED) xs))"
  using scan_chunk_done_spec [OF assms] by (simp add: finished_def [abs_def])

theorem scan_chunk_done_partitions_witness:
  "ok (scan_chunk_done (alloc_all empty_mem [zero_chunk\<lparr>c_state := FINISHED, holders := init_queue\<rparr>,
      zero_chunk\<lparr>holders := init_queue\<rparr>]) (queue_of [0, 1]) (queue_of [7]))
    (\<lambda>(q, d). repr q [1] \<and> repr d [7, 0])"
proof -
  let ?cs = "[zero_chunk\<lparr>c_state := FINISHED, holders := init_queue\<rparr>, zero_chunk\<lparr>holders := init_queue\<rparr>]"
  have ok: "\<forall>c \<in> set ?cs. chunk_ok c" using cq.rep_new by (auto simp: chunk_ok_def)
  note mem = alloc_all_empty [OF ok]
  have v: "valid (alloc_all empty_mem ?cs) [0, 1]" using mem(2) by (simp add: upt_rec)
  have "c_state (chunk_at (alloc_all empty_mem ?cs) 0) = FINISHED"
    "c_state (chunk_at (alloc_all empty_mem ?cs) 1) = READY"
    using mem(4) [of 0] mem(4) [of 1] by (simp_all add: zero_chunk_def)
  then show ?thesis
    using scan_chunk_done_partitions [OF repr_queue_of repr_queue_of v, of "[7]"] by simp
qed

end
