(* ===== verification/Tracker_Packets.thy ===== *)
theory Tracker_Packets
  imports Tracker_C
begin

text \<open>
  What the conversions of \<open>tracker.c\<close> between chunks and packets do: the hash lists of WHOHAS and IHAVE
  packets, the answer to a WHOHAS, and the DATA packets of a chunk.
\<close>

section \<open>Hash lists\<close>

definition bin_hash :: "chunk_mem \<Rightarrow> nat \<Rightarrow> byte list" where
  "bin_hash mem a = unhex (key_at mem a)"

definition hash_payload :: "byte list list \<Rightarrow> byte list" where
  "hash_payload bs = [of_nat (length bs), 0, 0, 0] @ concat bs"

definition hash_packet :: "pkt_type \<Rightarrow> byte list list \<Rightarrow> packet" where
  "hash_packet type bs = \<lparr>header = sized_header type 0 (4 + 20 * length bs), pkt_data = hash_payload bs\<rparr>"

fun batches :: "nat \<Rightarrow> nat \<Rightarrow> 'a list \<Rightarrow> 'a list list" where
  "batches n 0 xs = []"
| "batches n (Suc 0) xs = [take (n mod SHA_MAX_NUM) xs]"
| "batches n (Suc (Suc k)) xs = take SHA_MAX_NUM xs # batches n (Suc k) (drop SHA_MAX_NUM xs)"

lemma length_bin_hash:
  "mem_ok mem \<Longrightarrow> ch_heap mem a = Some c \<Longrightarrow> length (bin_hash mem a) = 20"
  by (drule (1) mem_okD)
    (simp add: bin_hash_def key_at_def key_def chunk_at_Some chunk_ok_def length_unhex SHA1_HASH_SIZE_def)

lemma length_concat_const: "(\<And>b. b \<in> set bs \<Longrightarrow> length b = k) \<Longrightarrow> length (concat bs) = k * length bs"
  by (induction bs) simp_all

lemma hash_list_loop_spec:
  assumes "mem_ok mem" "valid mem rest" "idx \<le> num" "length data = 4 + 20 * num" "length bin = 20"
  shows "hash_list_loop (ch_heap mem) num idx bin data rest =
    Inr (take (4 + 20 * idx) data @ concat (map (bin_hash mem) (take (num - idx) rest)) @
         drop (4 + 20 * (idx + min (num - idx) (length rest))) data, drop (num - idx) rest)"
  using assms(2-)
proof (induction rest arbitrary: idx bin data)
  case Nil
  then show ?case by simp
next
  case (Cons a rest)
  show ?case
  proof (cases "idx < num")
    case False
    with Cons.prems show ?thesis by simp
  next
    case True
    from Cons.prems obtain c where c: "ch_heap mem a = Some c" by auto
    then have len: "length (chunk_sha1 c) = 255" using mem_okD [OF assms(1)] by (auto simp: chunk_ok_def)
    have key: "unhex (take 40 (chunk_sha1 c)) = bin_hash mem a"
      using c by (simp add: bin_hash_def key_at_def key_def chunk_at_Some SHA1_HASH_SIZE_def)
    have hb: "hex2binary (chunk_sha1 c) (2 * SHA1_HASH_SIZE) bin = Inr (bin_hash mem a)"
      using hex2binary_spec [of 20 "chunk_sha1 c" bin] len Cons.prems(4) key
      by (simp add: SHA1_HASH_SIZE_def)
    let ?d = "take (4 + 20 * idx) data @ bin_hash mem a @ drop (4 + 20 * idx + 20) data"
    have lb: "length (bin_hash mem a) = 20" using length_bin_hash [OF assms(1) c] .
    have wr: "buf_write data (4 + idx * SHA1_HASH_SIZE) (bin_hash mem a) = Inr ?d"
      using True Cons.prems(3) lb by (simp add: buf_write_def SHA1_HASH_SIZE_def mult.commute)
    have "hash_list_loop (ch_heap mem) num (Suc idx) (bin_hash mem a) ?d rest =
      Inr (take (4 + 20 * Suc idx) ?d @ concat (map (bin_hash mem) (take (num - Suc idx) rest)) @
         drop (4 + 20 * (Suc idx + min (num - Suc idx) (length rest))) ?d, drop (num - Suc idx) rest)"
      using True Cons.prems lb by (intro Cons.IH) auto
    moreover have "take (4 + 20 * Suc idx) ?d = take (4 + 20 * idx) data @ bin_hash mem a"
      using True Cons.prems(3) lb by simp
    moreover have "drop (4 + 20 * (Suc idx + k)) ?d = drop (4 + 20 * (Suc idx + k)) data" for k
      using True Cons.prems(3) lb by (simp add: ac_simps)
    moreover obtain j where "num - idx = Suc j" "num - Suc idx = j" using True
      by (metis Suc_diff_Suc)
    ultimately show ?thesis using True c hb wr by simp
  qed
qed

lemma hash_packet_step:
  assumes "mem_ok mem" "valid mem rest" "num \<le> length rest" "num \<le> SHA_MAX_NUM"
  shows "rbind (buf_write (replicate (4 + SHA1_HASH_SIZE * num) 0) 0 [of_nat num]) (\<lambda>data.
      rbind (hash_list_loop (ch_heap mem) num 0 (replicate SHA1_HASH_SIZE 0) data rest) (\<lambda>(data', rest').
      rbind (make_PKT type 0 (of_nat (4 + SHA1_HASH_SIZE * num)) data') (\<lambda>pkt. f pkt rest'))) =
    f (hash_packet type (map (bin_hash mem) (take num rest))) (drop num rest)"
proof -
  let ?d = "[of_nat num] @ drop 1 (replicate (4 + 20 * num) 0) :: byte list"
  let ?bs = "map (bin_hash mem) (take num rest)"
  have d: "take 4 ?d = [of_nat num, 0, 0, 0]" by (simp add: numeral_eq_Suc)
  have loop: "hash_list_loop (ch_heap mem) num 0 (replicate 20 0) ?d rest = Inr (hash_payload ?bs, drop num rest)"
    using hash_list_loop_spec [OF assms(1,2), of 0 num ?d "replicate 20 0"] d assms(3)
    by (simp add: hash_payload_def)
  have "length (concat ?bs) = 20 * length ?bs"
    by (rule length_concat_const)
      (use length_bin_hash [OF assms(1)] assms(2) in \<open>auto simp: valid_def dest!: in_set_takeD\<close>)
  then have len: "length (hash_payload ?bs) = 4 + 20 * num"
    using assms(3) by (simp add: hash_payload_def min_absorb2)
  have u: "unat (of_nat (4 + 20 * num) :: u32) = 4 + 20 * num"
    using assms(4) by (simp add: unat_of_nat take_bit_nat_eq_self SHA_MAX_NUM_74 del: of_nat_add)
  have "make_PKT type 0 (of_nat (4 + 20 * num)) (hash_payload ?bs) = Inr (hash_packet type ?bs)"
    using make_PKT_Inr [of "of_nat (4 + 20 * num)" "hash_payload ?bs" type 0] u len assms(3,4)
    by (simp add: hash_packet_def SHA_MAX_NUM_74 min_absorb2)
  with loop show ?thesis by (simp add: SHA1_HASH_SIZE_def buf_write_def)
qed


lemma chunks2pkts_loop_Suc:
  assumes "mem_ok mem" "valid mem rest" "s = (if num - Suc k < num - 1 then SHA_MAX_NUM else n mod SHA_MAX_NUM)"
    "s \<le> length rest"
  shows "chunks2pkts_loop (ch_heap mem) type n num (Suc k) rest pkts =
    rbind (enqueue pkts (hash_packet type (map (bin_hash mem) (take s rest))))
      (chunks2pkts_loop (ch_heap mem) type n num k (drop s rest))"
proof -
  have "s \<le> SHA_MAX_NUM" using assms(3) by (simp add: SHA_MAX_NUM_74)
  from hash_packet_step [OF assms(1,2,4) this] show ?thesis
    by (simp only: chunks2pkts_loop.simps Let_def assms(3) [symmetric])
qed

lemma chunks2pkts_loop_spec:
  assumes "mem_ok mem" "valid mem rest" "repr pkts ps" "k \<le> num"
    "k \<noteq> 0 \<longrightarrow> SHA_MAX_NUM * (k - 1) + n mod SHA_MAX_NUM \<le> length rest"
  shows "ok (chunks2pkts_loop (ch_heap mem) type n num k rest pkts) (\<lambda>q.
    repr q (ps @ map (\<lambda>b. hash_packet type (map (bin_hash mem) b)) (batches n k rest)))"
  using assms(2-)
proof (induction n k rest arbitrary: pkts ps rule: batches.induct)
  case (1 n xs)
  then show ?case by simp
next
  case (2 n xs)
  let ?p = "hash_packet type (map (bin_hash mem) (take (n mod SHA_MAX_NUM) xs))"
  have "ok (enqueue pkts ?p) (\<lambda>q. repr q (ps @ [?p]))"
    by (rule cq.rep_enq) (rule "2.prems"(2))
  then show ?case
    using "2.prems"(3,4) chunks2pkts_loop_Suc [OF assms(1) "2.prems"(1), of "n mod SHA_MAX_NUM" num 0 n]
    by (simp add: ok_rbind_iff del: chunks2pkts_loop.simps(2))
next
  case (3 n k xs)
  let ?p = "hash_packet type (map (bin_hash mem) (take SHA_MAX_NUM xs))"
  let ?rest = "drop SHA_MAX_NUM xs"
  have i: "num - Suc (Suc k) < num - 1" using "3.prems"(3) by linarith
  have rest: "valid mem ?rest"
    using "3.prems"(1) by (auto simp: valid_def dest!: in_set_dropD)
  have "ok (enqueue pkts ?p) (\<lambda>q. ok (chunks2pkts_loop (ch_heap mem) type n num (Suc k) ?rest q)
    (\<lambda>q. repr q (ps @ ?p # map (\<lambda>b. hash_packet type (map (bin_hash mem) b)) (batches n (Suc k) ?rest))))"
  proof (rule cq.enq_wp [OF "3.prems"(2)])
    fix q assume "repr q (ps @ [?p])"
    from "3.IH" [OF rest this] show "ok (chunks2pkts_loop (ch_heap mem) type n num (Suc k) ?rest q)
      (\<lambda>q. repr q (ps @ ?p # map (\<lambda>b. hash_packet type (map (bin_hash mem) b)) (batches n (Suc k) ?rest)))"
      using "3.prems" by (simp del: chunks2pkts_loop.simps)
  qed
  then show ?case
    using i "3.prems"(4) chunks2pkts_loop_Suc [OF assms(1) "3.prems"(1), of SHA_MAX_NUM num "Suc k" n]
    by (simp add: ok_rbind_iff del: chunks2pkts_loop.simps)
qed

lemma batches_fit:
  "d + (if r > 0 then 1 else 0) \<noteq> (0 :: nat) \<longrightarrow> s * (d + (if r > 0 then 1 else 0) - 1) + r \<le> s * d + r"
  by simp

definition batch_count :: "nat \<Rightarrow> nat" where
  "batch_count n = n div SHA_MAX_NUM + (if n mod SHA_MAX_NUM > 0 then 1 else 0)"

lemma chunks2pkts_spec:
  assumes "mem_ok mem" "repr q xs" "valid mem xs" "type = WHOHAS \<or> type = IHAVE"
  shows "ok (chunks2pkts mem q type) (\<lambda>p.
    repr p (map (\<lambda>b. hash_packet type (map (bin_hash mem) b))
      (batches (length xs) (batch_count (length xs)) xs)))"
proof -
  have "q \<noteq> Null" using assms(2) by (auto simp: repr_def)
  moreover obtain q1 where "q = Obj q1" "q_n q1 = int (length xs)"
    using repr_length [OF assms(2)] by blast
  moreover have "batch_count n \<noteq> 0 \<longrightarrow> SHA_MAX_NUM * (batch_count n - 1) + n mod SHA_MAX_NUM \<le> n" for n
    using batches_fit [of "n div SHA_MAX_NUM" "n mod SHA_MAX_NUM" SHA_MAX_NUM]
    by (simp only: batch_count_def mult_div_mod_eq)
  ultimately show ?thesis
    using assms(4) cq.rep_items [OF assms(2)]
      chunks2pkts_loop_spec [OF assms(1,3) cq.rep_new, of "batch_count (length xs)"
        "batch_count (length xs)" "length xs" type]
    by (auto simp: chunks2pkts_def Let_def batch_count_def)
qed

lemma concat_batches:
  "concat (batches n (Suc k) xs) = take (SHA_MAX_NUM * k + n mod SHA_MAX_NUM) xs"
proof (induction k arbitrary: xs)
  case 0
  then show ?case by simp
next
  case (Suc k)
  have "SHA_MAX_NUM * Suc k + n mod SHA_MAX_NUM = SHA_MAX_NUM + (SHA_MAX_NUM * k + n mod SHA_MAX_NUM)"
    by simp
  then show ?case using Suc by (simp only: take_add batches.simps concat.simps)
qed

lemma length_batches: "b \<in> set (batches n k xs) \<Longrightarrow> length b \<le> SHA_MAX_NUM"
  by (induction n k xs rule: batches.induct) (auto simp: SHA_MAX_NUM_74 min_le_iff_disj)

lemma announced_all:
  assumes "length xs mod SHA_MAX_NUM \<noteq> 0"
  shows "concat (batches (length xs) (batch_count (length xs)) xs) = xs"
  using assms mult_div_mod_eq [of SHA_MAX_NUM "length xs"]
  by (simp add: batch_count_def concat_batches)

lemma announced_short:
  assumes "length xs mod SHA_MAX_NUM = 0" "xs \<noteq> []"
  shows "concat (batches (length xs) (batch_count (length xs)) xs) = take (length xs - SHA_MAX_NUM) xs"
proof -
  have "length xs = SHA_MAX_NUM * (length xs div SHA_MAX_NUM)"
    using assms(1) mult_div_mod_eq [of SHA_MAX_NUM "length xs"] by simp
  moreover from this assms(2) obtain j where "length xs div SHA_MAX_NUM = Suc j"
    by (cases "length xs div SHA_MAX_NUM") auto
  ultimately show ?thesis using assms(1) by (simp add: batch_count_def concat_batches)
qed

lemma concat_announced:
  "concat (batches (length xs) (batch_count (length xs)) xs) =
     (if length xs mod SHA_MAX_NUM = 0 then take (length xs - SHA_MAX_NUM) xs else xs)"
proof (cases "xs = []")
  case True
  then show ?thesis by (simp add: batch_count_def)
next
  case False
  then show ?thesis using announced_all [of xs] announced_short [of xs] by presburger
qed

section \<open>Reading a hash list\<close>

definition hash_chunk :: "byte list \<Rightarrow> chunk_t" where
  "hash_chunk b = zero_chunk\<lparr>chunk_sha1 := hex_string b @ replicate (255 - 2 * length b) 0,
     holders := init_queue\<rparr>"

lemma chunk_ok_hash_chunk: "length b = 20 \<Longrightarrow> chunk_ok (hash_chunk b)"
  using cq.rep_new by (auto simp: chunk_ok_def hash_chunk_def)

lemma key_hash_chunk: "length b = 20 \<Longrightarrow> key (hash_chunk b) = hex_string b"
  by (simp add: key_def hash_chunk_def SHA1_HASH_SIZE_def)

lemma pkt2chunks_loop_spec:
  assumes "4 + 20 * (i + k) \<le> length data" "repr q as" "mem_ok mem"
    "bs = map (\<lambda>j. take 20 (drop (4 + 20 * (i + j)) data)) [0..<k]"
  shows "ok (pkt2chunks_loop data i k mem q) (\<lambda>(q', mem').
    repr q' (as @ [ch_brk mem..<ch_brk mem + k]) \<and> mem' = alloc_all mem (map hash_chunk bs))"
  using assms
proof (induction k arbitrary: i q as mem bs)
  case 0
  then show ?case by simp
next
  case (Suc k)
  let ?b = "take 20 (drop (4 + 20 * i) data)"
  have b: "length ?b = 20" using Suc.prems(1) by simp
  have rd: "buf_read data (4 + i * SHA1_HASH_SIZE) SHA1_HASH_SIZE = Inr ?b"
    using Suc.prems(1) by (simp add: buf_read_def SHA1_HASH_SIZE_def mult.commute)
  have zeros: "(0 :: byte) # replicate 214 0 = replicate 215 0" by (simp flip: replicate_Suc)
  have hx: "binary2hex ?b SHA1_HASH_SIZE (chunk_sha1 zero_chunk) = Inr (chunk_sha1 (hash_chunk ?b))"
    using binary2hex_spec [of 20 ?b "chunk_sha1 zero_chunk"] b zeros
    by (simp add: SHA1_HASH_SIZE_def hash_chunk_def zero_chunk_def)
  have ini: "init_chunk (zero_chunk\<lparr>chunk_sha1 := chunk_sha1 (hash_chunk ?b)\<rparr>) 0
      (chunk_sha1 (hash_chunk ?b)) = Inr (hash_chunk ?b)"
    using b by (subst init_chunk_Inr) (simp_all add: hash_chunk_def zero_chunk_def)
  obtain a mem1 where al: "alloc_chunk mem (hash_chunk ?b) = (a, mem1)" by fastforce
  note m = mem_ok_alloc [OF Suc.prems(3) chunk_ok_hash_chunk [OF b] al]
  let ?bs = "map (\<lambda>j. take 20 (drop (4 + 20 * (Suc i + j)) data)) [0..<k]"
  have bs: "bs = ?b # ?bs"
    by (simp only: Suc.prems(4) map_upt_Suc) simp
  have "ok (enqueue q a) (\<lambda>q'. ok (pkt2chunks_loop data (Suc i) k mem1 q')
    (\<lambda>(q', mem'). repr q' (as @ [ch_brk mem..<ch_brk mem + Suc k]) \<and>
      mem' = alloc_all mem (map hash_chunk bs)))"
  proof (rule cq.enq_wp [OF Suc.prems(2)])
    fix q' assume q': "repr q' (as @ [a])"
    have "as @ [a] @ [ch_brk mem1..<ch_brk mem1 + k] = as @ [ch_brk mem..<ch_brk mem + Suc k]"
      using m(3,4) by (simp add: upt_rec [of "ch_brk mem"])
    moreover have "alloc_all mem1 (map hash_chunk ?bs) = alloc_all mem (map hash_chunk bs)"
      by (simp only: bs list.map alloc_all.simps al snd_conv)
    ultimately show "ok (pkt2chunks_loop data (Suc i) k mem1 q')
      (\<lambda>(q', mem'). repr q' (as @ [ch_brk mem..<ch_brk mem + Suc k]) \<and>
        mem' = alloc_all mem (map hash_chunk bs))"
      using Suc.IH [OF _ q' m(1) refl, of "Suc i"] Suc.prems(1) by simp
  qed
  then show ?case by (simp add: rd hx ini al ok_rbind_iff)
qed


lemma hash_payload_nth:
  assumes "\<And>b. b \<in> set bs \<Longrightarrow> length b = 20"
  shows "map (\<lambda>j. take 20 (drop (4 + 20 * (0 + j)) (hash_payload bs @ junk))) [0..<length bs] = bs"
proof -
  have "take 20 (drop (20 * j) (concat bs @ junk)) = bs ! j" if "j < length bs" for j
    using assms that
  proof (induction bs arbitrary: j)
    case (Cons b bs)
    then show ?case by (cases j) auto
  qed simp
  moreover have "drop (4 + n) (hash_payload bs @ junk) = drop n (concat bs @ junk)" for n
  proof -
    have "drop (4 + n) (hash_payload bs @ junk) = drop n (drop 4 (hash_payload bs @ junk))"
      by (simp only: drop_drop add.commute)
    then show ?thesis by (simp add: hash_payload_def)
  qed
  ultimately have "map (\<lambda>j. take 20 (drop (4 + 20 * (0 + j)) (hash_payload bs @ junk))) [0..<length bs] =
    map ((!) bs) [0..<length bs]"
    by (intro map_cong refl) (simp only: add_0 set_upt atLeastLessThan_iff)
  then show ?thesis by (simp only: map_nth)
qed

lemma sint_of_small_nat: "k < 128 \<Longrightarrow> sint (of_nat k :: byte) = int k"
  by (simp add: signed_of_nat signed_take_bit_int_eq_self)

lemma pkt2chunks_hash_payload:
  assumes "mem_ok mem" "\<And>b. b \<in> set bs \<Longrightarrow> length b = 20" "length bs \<le> SHA_MAX_NUM"
    "type = WHOHAS \<or> type = IHAVE" "pkt_data pkt = hash_payload bs @ junk"
  shows "ok (pkt2chunks mem pkt type) (\<lambda>(q, mem').
    repr q [ch_brk mem..<ch_brk mem + length bs] \<and> mem' = alloc_all mem (map hash_chunk bs))"
proof -
  have "nat (sint (of_nat (length bs) :: byte)) = length bs"
    using assms(3) by (simp add: sint_of_small_nat SHA_MAX_NUM_74)
  moreover have "length (concat bs) = 20 * length bs" by (rule length_concat_const) (rule assms(2))
  then have "4 + 20 * (0 + length bs) \<le> length (hash_payload bs @ junk)"
    by (simp add: hash_payload_def)
  ultimately show ?thesis
    using pkt2chunks_loop_spec [of 0 "length bs" "hash_payload bs @ junk" init_queue "[]" mem bs]
      assms(1,4,5) cq.rep_new hash_payload_nth [of bs junk] assms(2)
    by (auto simp: pkt2chunks_def bget_def hash_payload_def)
qed


section \<open>Which chunks a peer has\<close>

definition matches :: "chunk_mem \<Rightarrow> nat list \<Rightarrow> nat \<Rightarrow> nat list" where
  "matches mem own a = (case List.find (\<lambda>b. key_at mem b = key_at mem a) own of None \<Rightarrow> [] | Some b \<Rightarrow> [b])"

lemma matchesD: "b \<in> set (matches mem own a) \<Longrightarrow> b \<in> set own \<and> key_at mem b = key_at mem a"
  by (cases "List.find (\<lambda>b. key_at mem b = key_at mem a) own") (auto simp: matches_def dest: find_SomeD)

lemma which_loop_spec:
  assumes "mem_ok mem" "repr chunks own" "valid mem own" "valid mem as" "repr have hs"
  shows "ok (which_loop mem chunks as have) (\<lambda>q. repr q (hs @ concat (map (matches mem own) as)))"
  using assms(4,5)
proof (induction as arbitrary: "have" hs)
  case Nil
  then show ?case by simp
next
  case (Cons a as)
  from Cons.prems(1) obtain c where c: "ch_heap mem a = Some c" by auto
  note cc = contains_chunk_spec [OF assms(1-3) c]
  show ?case
  proof (cases "List.find (\<lambda>b. key_at mem b = key_at mem a) own")
    case None
    with cc Cons.IH [OF _ Cons.prems(2)] Cons.prems(1) show ?thesis by (simp add: matches_def)
  next
    case (Some b)
    have "ok (enqueue have b) (\<lambda>q. ok (which_loop mem chunks as q)
        (\<lambda>q. repr q (hs @ b # concat (map (matches mem own) as))))"
    proof (rule cq.enq_wp [OF Cons.prems(2)])
      fix q assume "repr q (hs @ [b])"
      from Cons.IH [OF _ this] Cons.prems(1)
      show "ok (which_loop mem chunks as q) (\<lambda>q. repr q (hs @ b # concat (map (matches mem own) as)))"
        by simp
    qed
    moreover have "matches mem own a = [b]" using Some by (simp add: matches_def)
    ultimately show ?thesis using cc Some by (simp add: ok_rbind_iff)
  qed
qed

lemma which_loop_Null: "repr have hs \<Longrightarrow> which_loop mem Null as have = Inr have"
  by (induction as) simp_all

section \<open>The DATA packets of a chunk\<close>

definition data_packet :: "byte list \<Rightarrow> nat \<Rightarrow> packet" where
  "data_packet data i = (let d = take DATA_SIZE (drop (i * DATA_SIZE) data)
     in \<lparr>header = sized_header DATA (of_nat (i + 1)) (length d), pkt_data = d\<rparr>)"

definition CHUNK_PKTS :: nat where "CHUNK_PKTS = 375"

lemma chunk2pkts_loop_spec:
  assumes "(i + k) * DATA_SIZE \<le> length data"
  shows "chunk2pkts_loop data i k = Inr (map (data_packet data) [i..<i + k])"
  using assms
proof (induction k arbitrary: i)
  case 0
  then show ?case by simp
next
  case (Suc k)
  let ?d = "take DATA_SIZE (drop (i * DATA_SIZE) data)"
  have "i * DATA_SIZE + DATA_SIZE \<le> length data"
    using Suc.prems by (simp add: DATA_SIZE_def)
  then have rd: "buf_read data (i * DATA_SIZE) DATA_SIZE = Inr ?d" "length ?d = 1400"
    by (simp_all add: buf_read_def DATA_SIZE_def)
  have "make_DATA (of_nat (i + 1)) (of_nat DATA_SIZE) ?d = Inr (data_packet data i)"
    using make_PKT_Inr [of "of_nat DATA_SIZE" ?d DATA "of_nat (i + 1)"] rd(2)
    by (simp add: make_DATA_def data_packet_def Let_def) (simp add: DATA_SIZE_def)
  then show ?case using rd(1) Suc.IH [of "Suc i"] Suc.prems
    by (simp add: upt_rec [of i])
qed

lemma chunk2pkts_spec:
  assumes "length (chunk_data c) = BT_CHUNK_SIZE"
  shows "chunk2pkts c = Inr (map (data_packet (chunk_data c)) [0..<CHUNK_PKTS], CHUNK_PKTS)"
proof -
  let ?d = "drop (374 * DATA_SIZE) (chunk_data c)"
  have total: "BT_CHUNK_SIZE div DATA_SIZE + (if BT_CHUNK_SIZE mod DATA_SIZE > 0 then 1 else 0) = 375"
    "BT_CHUNK_SIZE mod DATA_SIZE = 688"
    by (simp_all add: BT_CHUNK_SIZE_def DATA_SIZE_def)
  have len: "length ?d = 688" using assms by (simp add: BT_CHUNK_SIZE_def DATA_SIZE_def)
  have last: "make_DATA (of_nat (374 + 1)) (of_nat 688) ?d = Inr (data_packet (chunk_data c) 374)"
    using make_PKT_Inr [of "of_nat 688" ?d DATA "of_nat (374 + 1)"] len
    by (simp add: make_DATA_def data_packet_def Let_def) (simp add: DATA_SIZE_def)
  have loop: "chunk2pkts_loop (chunk_data c) 0 374 = Inr (map (data_packet (chunk_data c)) [0..<374])"
    using chunk2pkts_loop_spec [of 0 374 "chunk_data c"] assms by (simp add: BT_CHUNK_SIZE_def DATA_SIZE_def)
  have split: "[0..<375] = [0..<374] @ [374 :: nat]"
    using upt_Suc_append [of 0 374] by simp
  show ?thesis
    unfolding chunk2pkts_def Let_def total(1) CHUNK_PKTS_def split
    unfolding total(2) using loop last by (simp del: upt_conv_Nil upt_Suc)
qed

lemma data_packets_concat:
  assumes "length data = BT_CHUNK_SIZE"
  shows "concat (map (\<lambda>i. pkt_data (data_packet data i)) [0..<CHUNK_PKTS]) = data"
proof -
  have "concat (map (\<lambda>i. take DATA_SIZE (drop (DATA_SIZE * i) data)) [0..<CHUNK_PKTS]) =
    take (DATA_SIZE * CHUNK_PKTS) data"
    by (rule concat_map_blocks)
  then show ?thesis
    using assms by (simp add: data_packet_def Let_def mult.commute DATA_SIZE_def CHUNK_PKTS_def BT_CHUNK_SIZE_def del: upt_rec_numeral)
qed


section \<open>Properties\<close>

text \<open>The hashes in a payload, as \<open>packet.h\<close> documents it: their number, three bytes of padding, the hashes.\<close>

definition announced :: "packet \<Rightarrow> byte list list" where
  "announced p = map (\<lambda>j. take 20 (drop (4 + 20 * j) (pkt_data p))) [0..<unat (hd (pkt_data p))]"

lemma announced_hash_packet:
  assumes "\<And>b. b \<in> set bs \<Longrightarrow> length b = 20" "length bs \<le> SHA_MAX_NUM"
  shows "announced (hash_packet type bs) = bs"
proof -
  have "unat (of_nat (length bs) :: byte) = length bs"
    using assms(2) by (simp add: unat_of_nat take_bit_nat_eq_self SHA_MAX_NUM_74)
  then have "hd (pkt_data (hash_packet type bs)) = of_nat (length bs)"
    "unat (hd (pkt_data (hash_packet type bs))) = length bs"
    by (simp_all add: hash_packet_def hash_payload_def)
  with hash_payload_nth [OF assms(1), of bs "[]"] show ?thesis
    by (simp only: announced_def) (simp add: hash_packet_def)
qed

lemma hash_packets_announce:
  assumes "mem_ok mem" "valid mem (concat bb)" "\<And>b. b \<in> set bb \<Longrightarrow> length b \<le> SHA_MAX_NUM"
  shows "concat (map (\<lambda>b. announced (hash_packet type (map (bin_hash mem) b))) bb) = map (bin_hash mem) (concat bb)"
  using assms(2,3)
proof (induction bb)
  case (Cons b bb)
  have "announced (hash_packet type (map (bin_hash mem) b)) = map (bin_hash mem) b"
    using Cons.prems length_bin_hash [OF assms(1)]
    by (intro announced_hash_packet) (auto simp: valid_def)
  then show ?case using Cons by simp
qed simp

lemma set_concat_batches: "a \<in> set (concat (batches n k xs)) \<Longrightarrow> a \<in> set xs"
  by (induction n k xs rule: batches.induct) (auto dest: in_set_takeD in_set_dropD)

text \<open>
  C30. WHOHAS and IHAVE announcements: \<open>chunks2pkts\<close> builds packets of at most \<open>PKT_SIZE\<close> bytes whose
  hash lists, concatenated, are the hashes of the chunks in order, provided the number of chunks is
  not a multiple of 74; if it is one, the last packet announces no hash and the last 74 chunks are
  left out.
\<close>

theorem announcement_hashes:
  assumes "mem_ok mem" "repr q xs" "valid mem xs" "type = WHOHAS \<or> type = IHAVE"
  shows "ok (chunks2pkts mem q type) (\<lambda>p. \<exists>pkts. repr p pkts \<and>
    concat (map announced pkts) = map (bin_hash mem)
      (if length xs mod SHA_MAX_NUM = 0 then take (length xs - SHA_MAX_NUM) xs else xs) \<and>
    (\<forall>pkt \<in> set pkts. packet_type (header pkt) = pkt_code type \<and>
       unat (total_pkt_len (header pkt)) = HDR_SIZE + length (pkt_data pkt) \<and>
       unat (total_pkt_len (header pkt)) \<le> PKT_SIZE))"
proof (rule ok_mono [OF chunks2pkts_spec [OF assms]])
  fix p
  let ?bb = "batches (length xs) (batch_count (length xs)) xs"
  let ?pkts = "map (\<lambda>b. hash_packet type (map (bin_hash mem) b)) ?bb"
  assume p: "repr p ?pkts"
  have v: "valid mem (concat ?bb)" using assms(3) set_concat_batches by (fastforce simp: valid_def)
  note all = concat_announced [of xs]
  have "packet_type (header pkt) = pkt_code type \<and>
      unat (total_pkt_len (header pkt)) = HDR_SIZE + length (pkt_data pkt) \<and>
      unat (total_pkt_len (header pkt)) \<le> PKT_SIZE" if pkt: "pkt \<in> set ?pkts" for pkt
  proof -
    obtain b where b: "b \<in> set ?bb" "pkt = hash_packet type (map (bin_hash mem) b)" using pkt by auto
    have "length b \<le> 74" using length_batches [OF b(1)] by (simp add: SHA_MAX_NUM_74)
    moreover have "length (concat (map (bin_hash mem) b)) = 20 * length (map (bin_hash mem) b)"
      by (rule length_concat_const) (use b(1) v length_bin_hash [OF assms(1)] in \<open>auto simp: valid_def\<close>)
    ultimately show ?thesis
      using unat_sized_total [of "4 + 20 * length b" type 0]
      by (simp add: b(2) hash_packet_def hash_payload_def HDR_SIZE_def PKT_SIZE_def)
        (simp add: sized_header_def)
  qed
  then have "\<forall>pkt \<in> set ?pkts. packet_type (header pkt) = pkt_code type \<and>
      unat (total_pkt_len (header pkt)) = HDR_SIZE + length (pkt_data pkt) \<and>
      unat (total_pkt_len (header pkt)) \<le> PKT_SIZE" by blast
  moreover have "concat (map announced ?pkts) = map (bin_hash mem)
      (if length xs mod SHA_MAX_NUM = 0 then take (length xs - SHA_MAX_NUM) xs else xs)"
    using hash_packets_announce [OF assms(1) v length_batches, where type = type] all
    by (simp only: comp_def map_map)
  ultimately show "\<exists>pkts. repr p pkts \<and> concat (map announced pkts) = map (bin_hash mem)
      (if length xs mod SHA_MAX_NUM = 0 then take (length xs - SHA_MAX_NUM) xs else xs) \<and>
    (\<forall>pkt \<in> set pkts. packet_type (header pkt) = pkt_code type \<and>
       unat (total_pkt_len (header pkt)) = HDR_SIZE + length (pkt_data pkt) \<and>
       unat (total_pkt_len (header pkt)) \<le> PKT_SIZE)"
    using p by blast
qed

theorem announcement_hashes_witness:
  "ok (chunks2pkts (alloc_all empty_mem [hash_chunk (replicate 20 171)]) (queue_of [0]) WHOHAS)
    (\<lambda>p. \<exists>pkts. repr p pkts \<and> concat (map announced pkts) = [replicate 20 171])"
proof -
  let ?cs = "[hash_chunk (replicate 20 171)]"
  have ok: "\<forall>c \<in> set ?cs. chunk_ok c" using chunk_ok_hash_chunk by simp
  note mem = alloc_all_empty [OF ok]
  have v: "valid (alloc_all empty_mem ?cs) [0]" using mem(2) by simp
  have "chunk_at (alloc_all empty_mem ?cs) 0 = ?cs ! 0" by (rule mem(4)) simp
  then have "bin_hash (alloc_all empty_mem ?cs) 0 = replicate 20 171"
    by (simp only: bin_hash_def key_at_def nth_Cons_0 key_hash_chunk length_replicate unhex_hex_string)
  then show ?thesis
    by (intro ok_mono [OF announcement_hashes [OF mem(1) repr_queue_of v]]) (auto simp: SHA_MAX_NUM_74)
qed

lemma pkt2chunks_fresh:
  assumes "mem_ok mem" "\<forall>b \<in> set bs. length b = SHA1_HASH_SIZE" "length bs \<le> SHA_MAX_NUM"
    "type = WHOHAS \<or> type = IHAVE" "pkt_data pkt = hash_payload bs @ junk"
  shows "ok (pkt2chunks mem pkt type) (\<lambda>(q, mem'). mem_ok mem' \<and>
    (\<exists>as. repr q as \<and> valid mem' as \<and> map (key_at mem') as = map hex_string bs \<and>
       (\<forall>a \<in> set as. ch_heap mem a = None)) \<and>
    (\<forall>a c. ch_heap mem a = Some c \<longrightarrow> ch_heap mem' a = Some c))"
proof -
  have len: "\<And>b. b \<in> set bs \<Longrightarrow> length b = 20" using assms(2) by (simp add: SHA1_HASH_SIZE_def)
  let ?cs = "map hash_chunk bs" and ?as = "[ch_brk mem..<ch_brk mem + length bs]"
  have cs: "\<forall>c \<in> set ?cs. chunk_ok c" using len chunk_ok_hash_chunk by auto
  note old = alloc_all_old [OF assms(1) cs]
  have at: "ch_heap (alloc_all mem ?cs) (ch_brk mem + i) = Some (hash_chunk (bs ! i))" if "i < length bs" for i
    using old that by simp
  have "valid (alloc_all mem ?cs) ?as"
    unfolding valid_def
  proof
    fix a assume "a \<in> set ?as"
    then show "\<exists>c. ch_heap (alloc_all mem ?cs) a = Some c" using at [of "a - ch_brk mem"] by auto
  qed
  moreover have "map (key_at (alloc_all mem ?cs)) ?as = map hex_string bs"
    by (rule nth_equalityI) (use at len in \<open>auto simp: key_at_def chunk_at_def key_hash_chunk\<close>)
  moreover have "ch_heap mem a = None" if "a \<in> set ?as" for a
    using that mem_okD [OF assms(1), of a] by (cases "ch_heap mem a") auto
  moreover have "ch_heap (alloc_all mem ?cs) a = Some c" if "ch_heap mem a = Some c" for a c
    using old mem_okD [OF assms(1) that] that by simp
  ultimately show ?thesis
    using old by (intro ok_mono [OF pkt2chunks_hash_payload [OF assms(1) len assms(3,4,5)]]) auto
qed

text \<open>
  Reading a hash list: from the payload of a WHOHAS or IHAVE packet that lists at most 74 hashes
  (whatever the receive buffer holds behind it) \<open>pkt2chunks\<close> builds one fresh chunk for each hash, in
  order, whose text is the hash in hexadecimal, and leaves every other chunk alone.
\<close>

theorem pkt2chunks_reads_hashes:
  assumes "mem_ok mem" "\<forall>b \<in> set bs. length b = SHA1_HASH_SIZE" "length bs \<le> SHA_MAX_NUM"
    "type = WHOHAS \<or> type = IHAVE" "pkt_data pkt = hash_payload bs @ junk"
  shows "ok (pkt2chunks mem pkt type) (\<lambda>(q, mem'). mem_ok mem' \<and>
    (\<exists>as. repr q as \<and> valid mem' as \<and> map (key_at mem') as = map hex_string bs \<and>
       (\<forall>a \<in> set as. ch_heap mem a = None)) \<and>
    (\<forall>a c. ch_heap mem a = Some c \<longrightarrow> ch_heap mem' a = Some c))"
  using assms by (rule pkt2chunks_fresh)

theorem pkt2chunks_reads_hashes_witness:
  "ok (pkt2chunks empty_mem \<lparr>header = sized_header IHAVE 0 24, pkt_data = hash_payload [replicate 20 5] @ [9, 9]\<rparr>
      IHAVE) (\<lambda>(q, mem). \<exists>as. repr q as \<and> map (key_at mem) as = [hex_string (replicate 20 5)])"
  by (rule ok_mono [OF pkt2chunks_reads_hashes [of empty_mem "[replicate 20 5]" IHAVE _ "[9, 9]"]])
    (auto simp: mem_ok_empty SHA1_HASH_SIZE_def SHA_MAX_NUM_74)

text \<open>
  C31. A chunk becomes 375 DATA packets, numbered from 1 on, of 1400 bytes each but for the last one,
  whose payloads put together are the data of the chunk.
\<close>

theorem chunk2pkts_splits:
  assumes "length (chunk_data c) = BT_CHUNK_SIZE"
  shows "ok (chunk2pkts c) (\<lambda>(pkts, total). total = 375 \<and> length pkts = total \<and>
    concat (map pkt_data pkts) = chunk_data c \<and>
    (\<forall>i < total. seq_num (header (pkts ! i)) = of_nat (i + 1) \<and> packet_type (header (pkts ! i)) = pkt_code DATA \<and>
       unat (total_pkt_len (header (pkts ! i))) = HDR_SIZE + length (pkt_data (pkts ! i)) \<and>
       length (pkt_data (pkts ! i)) = (if i < 374 then DATA_SIZE else 688)))"
proof -
  have "length (pkt_data (data_packet (chunk_data c) i)) = (if i < 374 then DATA_SIZE else 688)"
    if "i < 375" for i
  proof -
    have "i * 1400 + 1400 \<le> 523600" if "i < 374" using that by linarith
    moreover have "i = 374" if "\<not> i < 374" using that \<open>i < 375\<close> by simp
    ultimately show ?thesis
      using assms by (cases "i < 374") (simp_all add: data_packet_def Let_def DATA_SIZE_def BT_CHUNK_SIZE_def)
  qed
  moreover have "unat (total_pkt_len (header (data_packet d i))) = HDR_SIZE + length (pkt_data (data_packet d i))" for d i
    by (simp add: data_packet_def Let_def unat_sized_total DATA_SIZE_def HDR_SIZE_def)
  moreover have "seq_num (header (data_packet d i)) = of_nat (i + 1)"
    "packet_type (header (data_packet d i)) = pkt_code DATA" for d i
    by (simp_all add: data_packet_def Let_def sized_header_def)
  ultimately show ?thesis
    using chunk2pkts_spec [OF assms] data_packets_concat [OF assms]
    by (simp add: CHUNK_PKTS_def comp_def del: upt_rec_numeral pkt_code.simps)
qed

theorem chunk2pkts_splits_witness:
  "ok (chunk2pkts zero_chunk) (\<lambda>(pkts, total). total = 375 \<and> concat (map pkt_data pkts) = replicate BT_CHUNK_SIZE 0)"
  by (rule ok_mono [OF chunk2pkts_splits [of zero_chunk]]) (auto simp: zero_chunk_def)

end
