(* ===== verification/Tracker_Files.thy ===== *)
theory Tracker_Files
  imports Tracker_Packets
begin

text \<open>
  What the functions of \<open>tracker.c\<close> that read files do: \<open>list_chunks\<close> and \<open>which_i_have\<close> never fault,
  whatever the file holds, and read back the lists that \<open>make-chunks\<close> writes; \<open>get_data_chunk\<close>
  delivers the chunk a GET asks for; \<open>check_chunk\<close> accepts a chunk exactly if its hash is the expected
  one.
\<close>

section \<open>Any chunk file\<close>

lemma sscanf_chunk_ok:
  assumes "length line \<le> 254" "length sha1 = 255"
  shows "ok (sscanf_chunk line i sha1) (\<lambda>(i', s). length s = 255)"
proof (cases "scan_d line")
  case (Some vr)
  obtain v r where vr: "vr = (v, r)" by (cases vr)
  show ?thesis
  proof (cases "scan_s r")
    case (Some wr)
    obtain w r' where wr: "wr = (w, r')" by (cases wr)
    have "length w \<le> 254"
      using length_scan_d [of line v r] length_scan_s [of r w r'] \<open>scan_d line = Some vr\<close> Some vr wr assms(1)
      by simp
    then show ?thesis
      using \<open>scan_d line = Some vr\<close> Some vr wr assms(2) by (simp add: sscanf_chunk_def buf_write_def)
  qed (simp add: sscanf_chunk_def \<open>scan_d line = Some vr\<close> vr assms(2))
qed (simp add: sscanf_chunk_def assms(2))

definition grows :: "chunk_mem \<Rightarrow> chunk_mem \<Rightarrow> bool" where
  "grows mem mem' \<longleftrightarrow> ch_brk mem \<le> ch_brk mem' \<and> (\<forall>b < ch_brk mem. ch_heap mem' b = ch_heap mem b)"

lemma grows_refl [simp]: "grows mem mem"
  by (simp add: grows_def)

lemma grows_trans: "grows a b \<Longrightarrow> grows b c \<Longrightarrow> grows a c"
  by (auto simp: grows_def)

lemma grows_alloc: "mem_ok mem \<Longrightarrow> alloc_chunk mem c = (a, mem') \<Longrightarrow> grows mem mem'"
  by (auto simp: grows_def alloc_chunk_def)

lemma grows_alloc_all: "grows mem (alloc_all mem cs)"
proof (induction cs arbitrary: mem)
  case (Cons c cs)
  have "grows mem (snd (alloc_chunk mem c))" by (auto simp: grows_def alloc_chunk_def)
  from grows_trans [OF this Cons.IH] show ?case by simp
qed simp

lemma grows_lookup: "grows mem mem' \<Longrightarrow> mem_ok mem \<Longrightarrow> ch_heap mem a = Some c \<Longrightarrow> ch_heap mem' a = Some c"
  by (auto simp: grows_def mem_ok_def)

lemma grows_valid: "grows mem mem' \<Longrightarrow> mem_ok mem \<Longrightarrow> valid mem as \<Longrightarrow> valid mem' as"
  unfolding valid_def using grows_lookup by blast

lemma grows_key: "grows mem mem' \<Longrightarrow> mem_ok mem \<Longrightarrow> ch_heap mem a = Some c \<Longrightarrow> key_at mem' a = key_at mem a"
  using grows_lookup [of mem mem' a c] by (simp add: key_at_def chunk_at_def)

lemma list_chunks_loop_ok:
  assumes "mem_ok mem" "repr q as" "valid mem as" "\<And>l. l \<in> set ls \<Longrightarrow> length l \<le> 254"
  shows "ok (list_chunks_loop ls mem q) (\<lambda>(q', mem'). mem_ok mem' \<and> grows mem mem' \<and>
    repr q' (as @ [ch_brk mem..<ch_brk mem + length ls]) \<and>
    valid mem' (as @ [ch_brk mem..<ch_brk mem + length ls]))"
  using assms
proof (induction ls arbitrary: mem q as)
  case Nil
  then show ?case by simp
next
  case (Cons l ls)
  obtain i s where sc: "sscanf_chunk l (chunk_id zero_chunk) (chunk_sha1 zero_chunk) = Inr (i, s)" "length s = 255"
    using sscanf_chunk_ok [of l "chunk_sha1 zero_chunk" "chunk_id zero_chunk"] Cons.prems(4)
    by (auto simp: ok_iff)
  let ?c = "zero_chunk\<lparr>chunk_id := i, chunk_sha1 := s, holders := init_queue, c_state := READY\<rparr>"
  have ini: "init_chunk (zero_chunk\<lparr>chunk_id := i, chunk_sha1 := s\<rparr>) i s = Inr ?c"
    using sc(2) by (simp add: init_chunk_Inr)
  have c: "chunk_ok ?c" using sc(2) cq.rep_new by (auto simp: chunk_ok_def)
  obtain a mem1 where al: "alloc_chunk mem ?c = (a, mem1)" by fastforce
  note m = mem_ok_alloc [OF Cons.prems(1) c al]
  have v: "valid mem1 (as @ [a])" using valid_alloc [OF Cons.prems(1) al Cons.prems(3)] m(2) by simp
  have range: "[a] @ [ch_brk mem1..<ch_brk mem1 + length ls] = [ch_brk mem..<ch_brk mem + length (l # ls)]"
    using m(3,4) by (simp add: upt_conv_Cons del: upt_Suc)
  have "ok (enqueue q a) (\<lambda>q'. ok (list_chunks_loop ls mem1 q') (\<lambda>(q', mem'). mem_ok mem' \<and> grows mem mem' \<and>
    repr q' (as @ [ch_brk mem..<ch_brk mem + length (l # ls)]) \<and>
    valid mem' (as @ [ch_brk mem..<ch_brk mem + length (l # ls)])))"
  proof (rule cq.enq_wp [OF Cons.prems(2)])
    fix q' assume q': "repr q' (as @ [a])"
    have rest: "length l' \<le> 254" if "l' \<in> set ls" for l' using Cons.prems(4) that by simp
    show "ok (list_chunks_loop ls mem1 q') (\<lambda>(q', mem'). mem_ok mem' \<and> grows mem mem' \<and>
      repr q' (as @ [ch_brk mem..<ch_brk mem + length (l # ls)]) \<and>
      valid mem' (as @ [ch_brk mem..<ch_brk mem + length (l # ls)]))"
      by (rule ok_mono [OF Cons.IH [OF m(1) q' v rest]])
        (use grows_trans [OF grows_alloc [OF Cons.prems(1) al]] range in \<open>auto simp only: append_assoc split_beta\<close>)
  qed
  then show ?case using sc(1) by (simp add: ini al ok_rbind_iff)
qed

lemma list_chunks_ok:
  assumes "mem_ok mem"
  shows "ok (list_chunks fs mem f) (\<lambda>(q, mem'). mem_ok mem' \<and> grows mem mem' \<and>
    (if fs f = None then q = Null \<and> mem' = mem
     else \<exists>own. repr q own \<and> valid mem' own \<and> own = [ch_brk mem..<ch_brk mem + length own]))"
proof (cases "fs f")
  case None
  with assms show ?thesis by (simp add: list_chunks_def)
next
  case (Some s)
  let ?ls = "fgets_lines TRACKER_LINE_LEN s"
  have "length l \<le> 254" if "l \<in> set ?ls" for l
    using length_fgets_lines [OF that] by (simp add: TRACKER_LINE_LEN_def)
  then have "ok (list_chunks_loop ?ls mem init_queue) (\<lambda>(q', mem'). mem_ok mem' \<and> grows mem mem' \<and>
      repr q' ([] @ [ch_brk mem..<ch_brk mem + length ?ls]) \<and>
      valid mem' ([] @ [ch_brk mem..<ch_brk mem + length ?ls]))"
    by (intro list_chunks_loop_ok assms cq.rep_new) simp_all
  then show ?thesis using Some
    by (auto simp: list_chunks_def elim!: ok_mono intro!: exI [of _ "[ch_brk mem..<ch_brk mem + length ?ls]"])
qed

lemma which_i_have_ok:
  assumes "mem_ok mem" "repr who as" "valid mem as"
  shows "ok (which_i_have fs mem who f) (\<lambda>(have, mem'). mem_ok mem' \<and> grows mem mem' \<and>
    (\<exists>own. own = [ch_brk mem..<ch_brk mem + length own] \<and> valid mem' own \<and>
       repr have (concat (map (matches mem' own) as)) \<and> valid mem' (concat (map (matches mem' own) as))))"
proof -
  obtain q mem' where l: "list_chunks fs mem f = Inr (q, mem')" "mem_ok mem'" "grows mem mem'"
    "if fs f = None then q = Null \<and> mem' = mem
     else \<exists>own. repr q own \<and> valid mem' own \<and> own = [ch_brk mem..<ch_brk mem + length own]"
    using list_chunks_ok [OF assms(1), of fs f] by (auto simp: ok_iff)
  have v: "valid mem' as" using grows_valid [OF l(3) assms(1,3)] .
  show ?thesis
  proof (cases "fs f")
    case None
    then have "which_i_have fs mem who f = Inr (init_queue, mem)"
      using l cq.rep_items [OF assms(2)] which_loop_Null [OF cq.rep_new]
      by (simp add: which_i_have_def)
    moreover have "concat (map (matches mem []) as) = []" by (simp add: matches_def)
    ultimately show ?thesis using assms(1) cq.rep_new
      by (simp del: concat_eq_Nil_conv) (intro exI [of _ "[]"], simp del: concat_eq_Nil_conv)
  next
    case (Some s)
    with l(4) obtain own where own: "repr q own" "valid mem' own" "own = [ch_brk mem..<ch_brk mem + length own]"
      by auto
    have "valid mem' (concat (map (matches mem' own) as))"
      using own(2) unfolding valid_def by (auto dest: matchesD)
    moreover have "ok (which_loop mem' q as init_queue) (\<lambda>h. repr h ([] @ concat (map (matches mem' own) as)))"
      by (rule which_loop_spec [OF l(2) own(1,2) v cq.rep_new])
    ultimately show ?thesis
      using l(1-3) own cq.rep_items [OF assms(2)] by (auto simp: which_i_have_def ok_rbind_iff elim!: ok_mono)
  qed
qed


section \<open>The lists that make-chunks writes\<close>

text \<open>A line \<open>"%d %s\n"\<close> and the text of a list of hashes, numbered from \<open>k\<close> on.\<close>

definition chunk_line :: "nat \<Rightarrow> byte list \<Rightarrow> byte list" where
  "chunk_line k h = dec k @ 32 # hex_string h"

fun chunk_list_text :: "nat \<Rightarrow> byte list list \<Rightarrow> byte list" where
  "chunk_list_text k [] = []"
| "chunk_list_text k (h # hs) = chunk_line k h @ newline # chunk_list_text (Suc k) hs"

lemma hex_digit_not_space: "d < 16 \<Longrightarrow> \<not> isspace (hex_digit d)"
  by (drule small_byte_cases) (auto simp: hex_digit_def isspace_def)

lemma hex_string_no_space: "c \<in> set (hex_string bs) \<Longrightarrow> \<not> isspace c"
  using hex_digit_not_space [OF nibble_less(1)] hex_digit_not_space [OF nibble_less(2)]
  by (auto simp: hex_string_def)

lemma isspace_newline [simp]: "isspace newline" "isspace 32"
  by (simp_all add: isspace_def newline_def)

lemma length_dec: "n < 10 ^ Suc k \<Longrightarrow> length (dec n) \<le> Suc k"
proof (induction k arbitrary: n)
  case 0
  then show ?case by (simp add: dec.simps [of n])
next
  case (Suc k)
  then have "n div 10 < 10 ^ Suc k" by (simp add: div_less_iff_less_mult mult.commute)
  with Suc.IH show ?case by (simp add: dec.simps [of n])
qed

lemma chunk_line_chars:
  "newline \<notin> set (chunk_line k h)" "0 \<notin> set (chunk_line k h)"
proof -
  have d: "newline \<notin> set (dec k)" "0 \<notin> set (dec k)"
    using isdigit_dec [of newline k] isdigit_dec [of 0 k] by (auto simp: isdigit_def newline_def)
  have "newline \<notin> set (hex_string h)" using hex_string_no_space [of newline h] by auto
  with d nul_notin_hex_string [of h] show "newline \<notin> set (chunk_line k h)" "0 \<notin> set (chunk_line k h)"
    by (auto simp: chunk_line_def newline_def)
qed

lemma length_chunk_line:
  assumes "length h = 20" "k < 2 ^ 31"
  shows "length (chunk_line k h) \<le> 51"
proof -
  have "k < 10 ^ Suc 9" using assms(2) by simp
  from length_dec [OF this] assms(1) show ?thesis by (simp add: chunk_line_def)
qed

lemma fgets_lines_chunk_list:
  assumes "\<And>h. h \<in> set hs \<Longrightarrow> length h = 20" "k + length hs \<le> 2 ^ 31"
  shows "fgets_lines TRACKER_LINE_LEN (chunk_list_text k hs) =
    map (\<lambda>i. chunk_line (k + i) (hs ! i) @ [newline]) [0..<length hs]"
  using assms
proof (induction hs arbitrary: k)
  case Nil
  then show ?case by simp
next
  case (Cons h hs)
  have "length (chunk_line k h) + 1 < TRACKER_LINE_LEN"
    using length_chunk_line [of h k] Cons.prems by (simp add: TRACKER_LINE_LEN_def)
  from fgets_lines_Cons [OF chunk_line_chars this]
  show ?case using Cons.IH [of "Suc k"] Cons.prems by (simp add: map_upt_Suc del: upt_Suc)
qed

lemma sscanf_chunk_line:
  assumes "length h = 20" "k < 2 ^ 31" "length s = 255"
  shows "sscanf_chunk (chunk_line k h @ [newline]) i s = Inr (int k, hex_string h @ 0 # drop 41 s)"
proof -
  have "\<not> isdigit 32" by (simp add: isdigit_def word_le_nat_alt)
  then have d: "scan_d (chunk_line k h @ [newline]) = Some (int k, 32 # hex_string h @ [newline])"
    by (simp add: chunk_line_def scan_d_dec)
  have "scan_s (32 # hex_string h @ [newline]) = Some (hex_string h, [newline])"
    using assms(1) hex_string_no_space [of _ h]
    by (intro scan_s_word) (auto simp: hex_string_def)
  with d assms show ?thesis
    by (simp add: sscanf_chunk_def to_int_small buf_write_def)
qed

definition listed_chunk :: "nat \<Rightarrow> byte list \<Rightarrow> chunk_t" where
  "listed_chunk k h = (hash_chunk h)\<lparr>chunk_id := int k\<rparr>"

lemma list_chunks_loop_text:
  assumes "mem_ok mem" "repr q as" "\<And>h. h \<in> set hs \<Longrightarrow> length h = 20" "k + length hs \<le> 2 ^ 31"
  shows "ok (list_chunks_loop (map (\<lambda>i. chunk_line (k + i) (hs ! i) @ [newline]) [0..<length hs]) mem q)
    (\<lambda>(q', mem'). repr q' (as @ [ch_brk mem..<ch_brk mem + length hs]) \<and>
       mem' = alloc_all mem (map (\<lambda>i. listed_chunk (k + i) (hs ! i)) [0..<length hs]))"
  using assms
proof (induction hs arbitrary: mem q as k)
  case Nil
  then show ?case by simp
next
  case (Cons h hs)
  let ?rest = "map (\<lambda>i. chunk_line (Suc k + i) (hs ! i) @ [newline]) [0..<length hs]"
  let ?cs = "map (\<lambda>i. listed_chunk (k + i) ((h # hs) ! i)) [0..<length (h # hs)]"
  have cs: "?cs = listed_chunk k h # map (\<lambda>i. listed_chunk (Suc k + i) (hs ! i)) [0..<length hs]"
    by (simp add: map_upt_Suc del: upt_Suc)
  have lines: "map (\<lambda>i. chunk_line (k + i) ((h # hs) ! i) @ [newline]) [0..<length (h # hs)] =
      (chunk_line k h @ [newline]) # ?rest"
    by (simp add: map_upt_Suc del: upt_Suc)
  have h: "length h = 20" "k < 2 ^ 31" using Cons.prems by auto
  have zeros: "0 # drop 41 (replicate 255 0) = replicate 215 (0 :: byte)" by (simp flip: replicate_Suc)
  have sc: "sscanf_chunk (chunk_line k h @ [newline]) (chunk_id zero_chunk) (chunk_sha1 zero_chunk) =
      Inr (int k, chunk_sha1 (hash_chunk h))"
    using sscanf_chunk_line [OF h, of "chunk_sha1 zero_chunk"] zeros h(1)
    by (simp add: hash_chunk_def zero_chunk_def)
  have ini: "init_chunk (zero_chunk\<lparr>chunk_id := int k, chunk_sha1 := chunk_sha1 (hash_chunk h)\<rparr>) (int k)
      (chunk_sha1 (hash_chunk h)) = Inr (listed_chunk k h)"
    using h(1) by (subst init_chunk_Inr) (simp_all add: hash_chunk_def listed_chunk_def zero_chunk_def)
  obtain a mem1 where al: "alloc_chunk mem (listed_chunk k h) = (a, mem1)" by fastforce
  have "chunk_ok (listed_chunk k h)"
    using chunk_ok_hash_chunk [OF h(1)] by (simp add: listed_chunk_def chunk_ok_def)
  note m = mem_ok_alloc [OF Cons.prems(1) this al]
  have range: "[a] @ [ch_brk mem1..<ch_brk mem1 + length hs] = [ch_brk mem..<ch_brk mem + length (h # hs)]"
    using m(3,4) by (simp add: upt_conv_Cons del: upt_Suc)
  have mem': "alloc_all mem1 (map (\<lambda>i. listed_chunk (Suc k + i) (hs ! i)) [0..<length hs]) = alloc_all mem ?cs"
    by (simp only: cs alloc_all.simps al snd_conv)
  have "ok (enqueue q a) (\<lambda>q'. ok (list_chunks_loop ?rest mem1 q') (\<lambda>(q', mem').
    repr q' (as @ [ch_brk mem..<ch_brk mem + length (h # hs)]) \<and> mem' = alloc_all mem ?cs))"
  proof (rule cq.enq_wp [OF Cons.prems(2)])
    fix q' assume q': "repr q' (as @ [a])"
    show "ok (list_chunks_loop ?rest mem1 q') (\<lambda>(q', mem').
      repr q' (as @ [ch_brk mem..<ch_brk mem + length (h # hs)]) \<and> mem' = alloc_all mem ?cs)"
      by (rule ok_mono [OF Cons.IH [OF m(1) q', of "Suc k"]])
        (use Cons.prems(3,4) range mem' in \<open>auto simp only: append_assoc split_beta list.size list.set\<close>)
  qed
  then show ?case by (simp only: lines list_chunks_loop.simps sc rbind_simps prod.case ini al ok_rbind_iff)
qed

lemma list_chunks_text:
  assumes "mem_ok mem" "\<And>h. h \<in> set hs \<Longrightarrow> length h = 20" "length hs \<le> 2 ^ 31"
    "fs f = Some (chunk_list_text 0 hs)"
  shows "ok (list_chunks fs mem f) (\<lambda>(q, mem'). repr q [ch_brk mem..<ch_brk mem + length hs] \<and>
    mem' = alloc_all mem (map (\<lambda>i. listed_chunk i (hs ! i)) [0..<length hs]))"
  using list_chunks_loop_text [OF assms(1) cq.rep_new assms(2), of hs 0] assms(3,4)
    fgets_lines_chunk_list [of hs 0] assms(2)
  by (simp add: list_chunks_def)


section \<open>The chunk a GET asks for\<close>

definition master_text :: "byte list \<Rightarrow> byte list list \<Rightarrow> byte list" where
  "master_text name hs = cstr ''File: '' @ name @ newline # cstr ''Chunks:'' @ newline # chunk_list_text 0 hs"

lemma take_hex_string: "take (2 * n) (hex_string h) = hex_string (take n h)"
proof -
  have "hex_string h = hex_string (take n h) @ hex_string (drop n h)"
    by (simp flip: hex_string_append)
  then show ?thesis
    by (cases "n \<le> length h") (simp_all add: take_append [of "2 * n"] min_absorb2)
qed

lemma hex_string_inject: "hex_string a = hex_string b \<longleftrightarrow> a = b"
  by (metis unhex_hex_string)

lemma memcmp_hash_prefix:
  assumes "length want = 20" "length h = 20"
  shows "memcmp_eq (hex_string want @ z) (hex_string h @ z') SHA1_HASH_SIZE = Inr (take 10 want = take 10 h)"
proof -
  have "take 20 (hex_string want @ z) = hex_string (take 10 want)"
    "take 20 (hex_string h @ z') = hex_string (take 10 h)"
    using take_hex_string [of 10 want] take_hex_string [of 10 h] assms by simp_all
  then show ?thesis
    using assms memcmp_eq_Inr [of 20 "hex_string want @ z" "hex_string h @ z'"]
    by (simp add: SHA1_HASH_SIZE_def hex_string_inject)
qed

text \<open>The entry the scan stops at: the first with the right prefix, else the last one.\<close>

fun pick :: "byte list \<Rightarrow> byte list list \<Rightarrow> nat" where
  "pick want [] = 0"
| "pick want [h] = 0"
| "pick want (h # h' # hs) = (if take 10 want = take 10 h then 0 else Suc (pick want (h' # hs)))"

lemma pick_bound: "hs \<noteq> [] \<Longrightarrow> pick want hs < length hs"
  by (induction want hs rule: pick.induct) auto

lemma pick_found:
  "i < length hs \<Longrightarrow> take 10 (hs ! i) = take 10 want \<Longrightarrow> (\<And>j. j < i \<Longrightarrow> take 10 (hs ! j) \<noteq> take 10 want) \<Longrightarrow>
   pick want hs = i"
proof (induction want hs arbitrary: i rule: pick.induct)
  case (3 want h h' hs)
  show ?case
  proof (cases i)
    case 0
    with 3 show ?thesis by simp
  next
    case (Suc j)
    with "3.prems"(3) [of 0] have "take 10 want \<noteq> take 10 h" by auto
    moreover have "take 10 ((h' # hs) ! l) \<noteq> take 10 want" if "l < j" for l
      using "3.prems"(3) [of "Suc l"] Suc that by simp
    ultimately show ?thesis using "3.IH" [of j] "3.prems" Suc by simp
  qed
qed auto

lemma pick_none:
  "hs \<noteq> [] \<Longrightarrow> \<forall>h \<in> set hs. take 10 h \<noteq> take 10 want \<Longrightarrow> pick want hs = length hs - 1"
  by (induction want hs rule: pick.induct) (auto dest: sym)

lemma find_hash_loop_text:
  assumes "hs \<noteq> []" "\<And>h. h \<in> set hs \<Longrightarrow> length h = 20" "length want = 20" "length s = 255"
    "k + length hs \<le> 2 ^ 31"
  shows "find_hash_loop (hex_string want @ z)
      (map (\<lambda>i. chunk_line (k + i) (hs ! i) @ [newline]) [0..<length hs]) cid s =
    Inr (int (k + pick want hs), hex_string (hs ! pick want hs) @ 0 # drop 41 s)"
  using assms
proof (induction want hs arbitrary: k cid s rule: pick.induct)
  case (2 want h)
  then show ?case
    by (simp add: sscanf_chunk_line memcmp_hash_prefix [of want h z "0 # drop 41 s"])
next
  case (3 want h h' hs)
  let ?rest = "map (\<lambda>i. chunk_line (Suc k + i) ((h' # hs) ! i) @ [newline]) [0..<length (h' # hs)]"
  let ?s = "hex_string h @ 0 # drop 41 s"
  have lines: "map (\<lambda>i. chunk_line (k + i) ((h # h' # hs) ! i) @ [newline]) [0..<length (h # h' # hs)] =
      (chunk_line k h @ [newline]) # ?rest"
    by (simp add: map_upt_Suc del: upt_Suc)
  have h: "length h = 20" "k < 2 ^ 31" using "3.prems" by auto
  have s': "length ?s = 255" "drop 41 ?s = drop 41 s" using h "3.prems"(4) by simp_all
  have rest: "find_hash_loop (hex_string want @ z) ?rest (int k) ?s =
    Inr (int (Suc k + pick want (h' # hs)), hex_string ((h' # hs) ! pick want (h' # hs)) @ 0 # drop 41 s)"
    if "take 10 want \<noteq> take 10 h"
    using "3.IH" [OF that _ _ "3.prems"(3) s'(1), of "Suc k" "int k"] "3.prems"(2,5) s'(2) by simp
  show ?case
    using memcmp_hash_prefix [OF "3.prems"(3) h(1), of z "0 # drop 41 s"] rest
    by (cases "take 10 want = take 10 h")
      (simp_all only: lines find_hash_loop.simps sscanf_chunk_line [OF h "3.prems"(4)] rbind_simps prod.case,
        simp_all)
qed simp

lemma sscanf_file_name:
  assumes "name \<noteq> []" "\<And>c. c \<in> set name \<Longrightarrow> \<not> isspace c"
  shows "sscanf_file (cstr ''File: '' @ name @ [newline]) = Some name"
proof -
  have "scan_s (32 # name @ [newline]) = Some (name, [newline])"
    using assms by (intro scan_s_word) auto
  then show ?thesis by (simp add: sscanf_file_def cstr_def)
qed

definition file_name_ok :: "byte list \<Rightarrow> bool" where
  "file_name_ok name \<longleftrightarrow> name \<noteq> [] \<and> (\<forall>c \<in> set name. \<not> isspace c \<and> c \<noteq> 0) \<and> length name \<le> 247"

lemma c_string_line: "0 \<notin> set l \<Longrightarrow> c_string (l @ [newline]) = l @ [newline]"
  by (induction l) (auto simp: c_string_def newline_def)

lemma fgets_rest_line:
  assumes "newline \<notin> set l" "0 \<notin> set l" "length l + 1 < n"
  shows "fgets_rest n b (l @ newline # rest) = (l @ [newline], rest)"
  using fgets_line [OF assms(1,3)] c_string_line [OF assms(2)] by (simp add: fgets_rest_def)

lemma get_data_chunk_text:
  assumes "file_name_ok name" "fs cf = Some (master_text name hs)" "fs name = Some f"
    and "hs \<noteq> []" "\<And>h. h \<in> set hs \<Longrightarrow> length h = 20" "length hs \<le> 4096"
    and "length want = 20" "pkt_data pkt = want @ junk" "254 \<le> length (literal_tail m)"
  shows "\<exists>c. chunk_data c = fread_chunk f (int (pick want hs) * int BT_CHUNK_SIZE) (chunk_data (junk_chunk m)) \<and>
      chunk_id c = int (pick want hs) \<and> get_data_chunk m fs mem cf pkt = Inr (Some (ch_brk mem), snd (alloc_chunk mem c))"
proof -
  let ?l1 = "cstr ''File: '' @ name"
  have l1: "newline \<notin> set ?l1" "0 \<notin> set ?l1" "length ?l1 + 1 < TRACKER_LINE_LEN"
    using assms(1) by (auto simp: file_name_ok_def cstr_def newline_def TRACKER_LINE_LEN_def isspace_def)
  have l2: "newline \<notin> set (cstr ''Chunks:'')" "0 \<notin> set (cstr ''Chunks:'')" "length (cstr ''Chunks:'') + 1 < TRACKER_LINE_LEN"
    by (auto simp: cstr_def newline_def TRACKER_LINE_LEN_def)
  have first: "fgets_rest TRACKER_LINE_LEN [] (master_text name hs) =
      (?l1 @ [newline], cstr ''Chunks:'' @ newline # chunk_list_text 0 hs)"
    using fgets_rest_line [OF l1] by (simp add: master_text_def)
  have second: "fgets_rest TRACKER_LINE_LEN [] (cstr ''Chunks:'' @ newline # chunk_list_text 0 hs) =
      (cstr ''Chunks:'' @ [newline], chunk_list_text 0 hs)"
    by (rule fgets_rest_line [OF l2])
  have req: "buf_read (pkt_data pkt) 0 SHA1_HASH_SIZE = Inr want"
    using assms(7,8) by (simp add: buf_read_def SHA1_HASH_SIZE_def)
  have hex: "binary2hex want SHA1_HASH_SIZE (replicate 255 0) = Inr (hex_string want @ 0 # drop 41 (replicate 255 0))"
    using binary2hex_spec [of 20 want "replicate 255 0"] assms(7) by (simp add: SHA1_HASH_SIZE_def)
  let ?dc = "(junk_chunk m)\<lparr>chunk_id := 0, chunk_sha1 := take 255 (0 # literal_tail m), holders := init_queue,
      c_state := READY\<rparr>"
  have ini: "init_chunk (junk_chunk m) 0 (0 # literal_tail m) = Inr ?dc"
    using assms(9) by (simp add: init_chunk_Inr)
  have lines: "fgets_lines TRACKER_LINE_LEN (chunk_list_text 0 hs) =
      map (\<lambda>i. chunk_line (0 + i) (hs ! i) @ [newline]) [0..<length hs]"
    by (rule fgets_lines_chunk_list) (use assms(5,6) in auto)
  have lens: "length (chunk_sha1 ?dc) = 255" using assms(9) by simp
  have loop: "find_hash_loop (hex_string want @ 0 # drop 41 (replicate 255 0))
      (fgets_lines TRACKER_LINE_LEN (chunk_list_text 0 hs)) (chunk_id ?dc) (chunk_sha1 ?dc) =
    Inr (int (0 + pick want hs), hex_string (hs ! pick want hs) @ 0 # drop 41 (chunk_sha1 ?dc))"
    unfolding lines by (rule find_hash_loop_text) (use assms lens in auto)
  have "int (pick want hs) < 4096" using pick_bound [OF assms(4), of want] assms(6) by linarith
  then have mult: "int_mult (int (pick want hs)) (int BT_CHUNK_SIZE) = Inr (int (pick want hs) * int BT_CHUNK_SIZE)"
    by (simp add: int_mult_def BT_CHUNK_SIZE_def)
  have name: "sscanf_file (?l1 @ [newline]) = Some name"
    using sscanf_file_name [of name] assms(1) by (simp add: file_name_ok_def)
  let ?c = "?dc\<lparr>chunk_id := int (pick want hs),
      chunk_sha1 := hex_string (hs ! pick want hs) @ 0 # drop 41 (chunk_sha1 ?dc),
      chunk_data := fread_chunk f (int (pick want hs) * int BT_CHUNK_SIZE) (chunk_data (junk_chunk m))\<rparr>"
  have "get_data_chunk m fs mem cf pkt = Inr (Some (ch_brk mem), snd (alloc_chunk mem ?c))"
    using assms(2,3) first second req hex ini loop mult name
    by (simp add: get_data_chunk_def init_var_def alloc_chunk_def)
  then show ?thesis by (intro exI [of _ ?c]) simp
qed

section \<open>The check of a finished chunk\<close>

lemma check_chunk_spec:
  assumes "length (chunk_data c) = BT_CHUNK_SIZE" "40 \<le> length sha1" "21 \<le> frame_slack m"
  shows "check_chunk m c sha1 = Inr (hex_string (sha1_spec (chunk_data c)) = take 40 sha1)"
proof -
  have len: "unat (of_nat BT_CHUNK_SIZE :: u32) = BT_CHUNK_SIZE"
    by (simp add: BT_CHUNK_SIZE_def)
  have sha: "shahash m (chunk_data c) (of_nat BT_CHUNK_SIZE) (map (stack_byte m) [0..<2 * SHA1_HASH_SIZE]) =
      Inr (sha1_spec (chunk_data c) @ drop 20 (map (stack_byte m) [0..<2 * SHA1_HASH_SIZE]))"
    using shahash_spec [of "of_nat BT_CHUNK_SIZE" "chunk_data c" "map (stack_byte m) [0..<2 * SHA1_HASH_SIZE]" m]
      len assms(1) by (simp add: SHA1_HASH_SIZE_def)
  have hex: "binary2hex (sha1_spec (chunk_data c) @ t) 20 buf =
      Inr (hex_string (sha1_spec (chunk_data c)) @ 0 # drop 41 buf)" if "41 \<le> length buf" for t buf
    using that binary2hex_spec [of 20 "sha1_spec (chunk_data c) @ t" buf] by (simp add: length_sha1_spec)
  show ?thesis
    using sha hex assms(2,3) memcmp_eq_Inr [of 40 _ sha1]
    by (simp add: check_chunk_def SHA1_HASH_SIZE_def length_sha1_spec)
qed

lemma check_chunk_overflow:
  assumes "length (chunk_data c) = BT_CHUNK_SIZE" "frame_slack m < 21"
  shows "check_chunk m c sha1 = Inl Out_Of_Bounds"
proof -
  have len: "unat (of_nat BT_CHUNK_SIZE :: u32) = BT_CHUNK_SIZE"
    by (simp add: BT_CHUNK_SIZE_def)
  have "shahash m (chunk_data c) (of_nat BT_CHUNK_SIZE) (map (stack_byte m) [0..<2 * SHA1_HASH_SIZE]) =
      Inr (sha1_spec (chunk_data c) @ drop 20 (map (stack_byte m) [0..<2 * SHA1_HASH_SIZE]))"
    using shahash_spec [of "of_nat BT_CHUNK_SIZE" "chunk_data c" "map (stack_byte m) [0..<2 * SHA1_HASH_SIZE]" m]
      len assms(1) by (simp add: SHA1_HASH_SIZE_def)
  then show ?thesis
    using assms(2) by (simp add: check_chunk_def SHA1_HASH_SIZE_def length_sha1_spec binary2hex_overflow)
qed


lemma get_data_chunk_block:
  assumes "file_name_ok name" "fs cf = Some (master_text name hs)" "fs name = Some f"
    and "\<forall>h \<in> set hs. length h = 20" "length hs \<le> 4096" "distinct (map (take 10) hs)" "i < length hs"
    and "pkt_data pkt = hs ! i @ junk" "254 \<le> length (literal_tail m)"
    and "(i + 1) * BT_CHUNK_SIZE \<le> length f"
  shows "ok (get_data_chunk m fs mem cf pkt) (\<lambda>(p, mem'). \<exists>c. p = Some (ch_brk mem) \<and>
    ch_heap mem' (ch_brk mem) = Some c \<and> chunk_id c = int i \<and>
    chunk_data c = take BT_CHUNK_SIZE (drop (i * BT_CHUNK_SIZE) f))"
proof -
  have ne: "hs \<noteq> []" using assms(7) by auto
  have pick: "pick (hs ! i) hs = i"
  proof (rule pick_found [OF assms(7) refl])
    show "take 10 (hs ! j) \<noteq> take 10 (hs ! i)" if "j < i" for j
      using nth_eq_iff_index_eq [OF assms(6), of j i] that assms(7) by auto
  qed
  obtain c where c: "chunk_data c = fread_chunk f (int i * int BT_CHUNK_SIZE) (chunk_data (junk_chunk m))"
    "chunk_id c = int i" "get_data_chunk m fs mem cf pkt = Inr (Some (ch_brk mem), snd (alloc_chunk mem c))"
    using get_data_chunk_text [OF assms(1-3) ne _ assms(5) _ assms(8,9), of mem] assms(4,7) pick by auto
  have "i * BT_CHUNK_SIZE + BT_CHUNK_SIZE \<le> length f" using assms(10) by simp
  moreover have "nat (int i * int BT_CHUNK_SIZE) = i * BT_CHUNK_SIZE" by (simp flip: of_nat_mult)
  ultimately have "chunk_data c = take BT_CHUNK_SIZE (drop (i * BT_CHUNK_SIZE) f)"
    by (simp add: c(1) fread_chunk_def Let_def mult_less_0_iff)
  with c(2,3) show ?thesis by (simp add: alloc_chunk_def)
qed

section \<open>Properties\<close>

lemma matches_keys:
  assumes "valid mem own"
  shows "map (key_at mem) (concat (map (matches mem own) as)) =
    filter (\<lambda>k. k \<in> key_at mem ` set own) (map (key_at mem) as)"
proof (induction as)
  case (Cons a as)
  have "map (key_at mem) (matches mem own a) = (if key_at mem a \<in> key_at mem ` set own then [key_at mem a] else [])"
  proof (cases "List.find (\<lambda>b. key_at mem b = key_at mem a) own")
    case None
    then have "\<forall>b \<in> set own. key_at mem b \<noteq> key_at mem a" by (auto simp: find_None_iff)
    then have "key_at mem a \<notin> key_at mem ` set own" by (metis imageE)
    then show ?thesis using None by (simp add: matches_def)
  next
    case (Some b)
    then have "key_at mem b = key_at mem a" "b \<in> set own" using find_SomeD [OF Some] by simp_all
    then have "key_at mem a \<in> key_at mem ` set own" by (metis imageI)
    moreover have "matches mem own a = [b]" using Some by (simp add: matches_def)
    ultimately show ?thesis using \<open>key_at mem b = key_at mem a\<close> by (simp only: if_True list.map)
  qed
  with Cons show ?case by simp
qed simp

lemma listed_chunks:
  assumes "mem_ok mem" "\<And>h. h \<in> set hs \<Longrightarrow> length h = 20"
  defines "mem' \<equiv> alloc_all mem (map (\<lambda>i. listed_chunk i (hs ! i)) [0..<length hs])"
    and "own \<equiv> [ch_brk mem..<ch_brk mem + length hs]"
  shows "mem_ok mem'" "valid mem' own" "map (key_at mem') own = map hex_string hs"
    "map (\<lambda>a. chunk_id (chunk_at mem' a)) own = map int [0..<length hs]"
proof -
  let ?cs = "map (\<lambda>i. listed_chunk i (hs ! i)) [0..<length hs]"
  have cs: "\<forall>c \<in> set ?cs. chunk_ok c"
    using chunk_ok_hash_chunk assms(2) by (auto simp: listed_chunk_def chunk_ok_def)
  note old = alloc_all_old [OF assms(1) cs]
  have at: "ch_heap mem' (ch_brk mem + i) = Some (listed_chunk i (hs ! i))" if "i < length hs" for i
    using old that by (simp add: mem'_def)
  show "mem_ok mem'" using old by (simp add: mem'_def)
  show "valid mem' own"
    unfolding valid_def
  proof
    fix a assume "a \<in> set own"
    then show "\<exists>c. ch_heap mem' a = Some c" using at [of "a - ch_brk mem"] by (auto simp: own_def)
  qed
  have "key (listed_chunk i h) = hex_string h" if "length h = 20" for i h
    using key_hash_chunk [OF that] by (simp add: listed_chunk_def key_def)
  then show "map (key_at mem') own = map hex_string hs"
    using at assms(2) by (intro nth_equalityI) (auto simp: own_def key_at_def chunk_at_def)
  show "map (\<lambda>a. chunk_id (chunk_at mem' a)) own = map int [0..<length hs]"
    using at by (intro nth_equalityI) (auto simp: own_def chunk_at_def listed_chunk_def)
qed

text \<open>
  With a list of hashes in the file, \<open>which_i_have\<close> makes a chunk object for each entry and returns, in the order
  of the request, the first of them with each requested hash. None of the objects is freed here.
\<close>

lemma which_i_have_text:
  assumes "mem_ok mem" "repr who as" "valid mem as"
    and "fs f = Some (chunk_list_text 0 hs)" "length hs \<le> 2 ^ 31" "\<forall>h \<in> set hs. length h = 20"
  defines "mem' \<equiv> alloc_all mem (map (\<lambda>i. listed_chunk i (hs ! i)) [0..<length hs])"
    and "own \<equiv> [ch_brk mem..<ch_brk mem + length hs]"
  shows "\<exists>h. which_i_have fs mem who f = Inr (h, mem') \<and> repr h (concat (map (matches mem' own) as)) \<and>
    map (key_at mem') (concat (map (matches mem' own) as)) = filter (\<lambda>k. k \<in> hex_string ` set hs) (map (key_at mem) as)"
proof -
  obtain q where q: "list_chunks fs mem f = Inr (q, mem')" "repr q own"
    using list_chunks_text [OF assms(1), of hs fs f] assms(4-6) by (auto simp: ok_iff mem'_def own_def)
  note l = listed_chunks [OF assms(1), of hs, folded mem'_def own_def]
  have v: "valid mem' as" unfolding mem'_def using grows_valid [OF grows_alloc_all assms(1,3)] .
  have keys: "map (key_at mem') as = map (key_at mem) as"
    unfolding mem'_def using validD [OF assms(3)] grows_key [OF grows_alloc_all assms(1)] by (auto intro: map_cong)
  have own: "key_at mem' ` set own = hex_string ` set hs" using l(3) assms(6) by (metis set_map)
  have "map (key_at mem') (concat (map (matches mem' own) as)) = filter (\<lambda>k. k \<in> hex_string ` set hs) (map (key_at mem) as)"
    using matches_keys [of mem' own as] l(2) assms(6) keys own by simp
  moreover have "ok (which_loop mem' q as init_queue) (\<lambda>h. repr h ([] @ concat (map (matches mem' own) as)))"
    using l(1,2) assms(6) by (intro which_loop_spec q(2) v cq.rep_new) auto
  then obtain h where "which_loop mem' q as init_queue = Inr h" "repr h (concat (map (matches mem' own) as))"
    by (auto simp only: ok_iff append_Nil)
  ultimately show ?thesis using q(1) cq.rep_items [OF assms(2)] by (simp add: which_i_have_def)
qed

lemma which_i_have_keys:
  assumes "mem_ok mem" "repr who as" "valid mem as"
  shows "ok (which_i_have fs mem who f) (\<lambda>(have, mem'). mem_ok mem' \<and>
    (\<exists>res. repr have res \<and> valid mem' res \<and>
      (\<forall>hs. fs f = Some (chunk_list_text 0 hs) \<and> length hs \<le> 2 ^ 31 \<and> (\<forall>h \<in> set hs. length h = 20) \<longrightarrow>
        map (key_at mem') res = filter (\<lambda>k. k \<in> hex_string ` set hs) (map (key_at mem) as))))"
proof -
  have *: "ok (which_i_have fs mem who f) (\<lambda>(have, mem').
      \<forall>res. repr have res \<longrightarrow> map (key_at mem') res = filter (\<lambda>k. k \<in> hex_string ` set hs) (map (key_at mem) as))"
    if hs: "fs f = Some (chunk_list_text 0 hs)" "length hs \<le> 2 ^ 31" "\<forall>h \<in> set hs. length h = 20" for hs
    using which_i_have_text [where fs = fs and f = f, OF assms hs] repr_unique by (simp only: ok_iff) fastforce
  obtain h mem' res where w: "which_i_have fs mem who f = Inr (h, mem')" "mem_ok mem'" "repr h res"
      "valid mem' res"
    using which_i_have_ok [OF assms, of fs f] by (auto simp: ok_iff)
  have "map (key_at mem') res = filter (\<lambda>k. k \<in> hex_string ` set hs) (map (key_at mem) as)"
    if "fs f = Some (chunk_list_text 0 hs) \<and> length hs \<le> 2 ^ 31 \<and> (\<forall>h \<in> set hs. length h = 20)" for hs
    using * [of hs] that w(1,3) by simp
  then show ?thesis using w by auto
qed

text \<open>
  Answering a WHOHAS: \<open>which_i_have\<close> returns without a fault whatever the has-chunk file holds (a
  missing file included), and from a file that lists the hashes \<open>hs\<close> it returns, in the order of the
  request, exactly the requested hashes that are among them.
\<close>

theorem which_i_have_answers:
  assumes "mem_ok mem" "repr who as" "valid mem as"
  shows "ok (which_i_have fs mem who f) (\<lambda>(have, mem'). mem_ok mem' \<and>
    (\<exists>res. repr have res \<and> valid mem' res \<and>
      (\<forall>hs. fs f = Some (chunk_list_text 0 hs) \<and> length hs \<le> 2 ^ 31 \<and> (\<forall>h \<in> set hs. length h = 20) \<longrightarrow>
        map (key_at mem') res = filter (\<lambda>k. k \<in> hex_string ` set hs) (map (key_at mem) as))))"
  using assms by (rule which_i_have_keys)

theorem which_i_have_answers_witness:
  "ok (which_i_have (\<lambda>f. Some (chunk_list_text 0 [replicate 20 1, replicate 20 2]))
      (alloc_all empty_mem [hash_chunk (replicate 20 2), hash_chunk (replicate 20 3)]) (queue_of [0, 1]) [])
    (\<lambda>(have, mem). \<exists>res. repr have res \<and> map (key_at mem) res = [hex_string (replicate 20 2)])"
proof -
  let ?cs = "[hash_chunk (replicate 20 2), hash_chunk (replicate 20 3)]"
  have ok: "\<forall>c \<in> set ?cs. chunk_ok c" using chunk_ok_hash_chunk by simp
  note mem = alloc_all_empty [OF ok]
  have v: "valid (alloc_all empty_mem ?cs) [0, 1]" using mem(2) by (simp add: upt_rec)
  have "key_at (alloc_all empty_mem ?cs) 0 = hex_string (replicate 20 2)"
    "key_at (alloc_all empty_mem ?cs) 1 = hex_string (replicate 20 3)"
    using mem(4) [of 0] mem(4) [of 1] by (simp_all add: key_at_def key_hash_chunk)
  moreover have "replicate 20 (3 :: byte) \<noteq> replicate 20 1" "replicate 20 (3 :: byte) \<noteq> replicate 20 2"
    by (simp_all add: replicate_eq_replicate)
  ultimately have "filter (\<lambda>k. k \<in> hex_string ` set [replicate 20 1, replicate 20 2])
      (map (key_at (alloc_all empty_mem ?cs)) [0, 1]) = [hex_string (replicate 20 2)]"
    by (simp add: hex_string_inject)
  moreover have "length [replicate 20 1, replicate 20 2 :: byte list] \<le> 2 ^ 31 \<and>
    (\<forall>h \<in> set [replicate 20 1, replicate 20 2 :: byte list]. length h = 20)" by simp
  ultimately show ?thesis
    by - (rule ok_mono [OF which_i_have_answers [OF mem(1) repr_queue_of v]], clarify, metis)
qed

text \<open>
  Serving a GET: with a well-formed master chunk file whose hashes differ in their first ten
  bytes, \<open>get_data_chunk\<close> returns a fresh chunk with the number of the requested hash and that block of
  the data file, for the first 4096 chunks (chunk 4096 and later overflow the int that holds the
  offset), on a machine with enough readable bytes behind the literal \<open>""\<close>.
\<close>

theorem get_data_chunk_delivers:
  assumes "file_name_ok name" "fs cf = Some (master_text name hs)" "fs name = Some f"
    and "\<forall>h \<in> set hs. length h = 20" "length hs \<le> 4096" "distinct (map (take 10) hs)" "i < length hs"
    and "pkt_data pkt = hs ! i @ junk" "254 \<le> length (literal_tail m)"
    and "(i + 1) * BT_CHUNK_SIZE \<le> length f"
  shows "ok (get_data_chunk m fs mem cf pkt) (\<lambda>(p, mem'). \<exists>c. p = Some (ch_brk mem) \<and>
    ch_heap mem' (ch_brk mem) = Some c \<and> chunk_id c = int i \<and>
    chunk_data c = take BT_CHUNK_SIZE (drop (i * BT_CHUNK_SIZE) f))"
  by (rule get_data_chunk_block [OF assms])

theorem get_data_chunk_delivers_witness:
  "ok (get_data_chunk \<lparr>stack_byte = (\<lambda>i. 0), heap_byte = (\<lambda>i. 0), literal_tail = replicate 254 0, frame_slack = 0,
        heap_slack = 0\<rparr> (\<lambda>n. if n = [97] then Some (replicate BT_CHUNK_SIZE 7) else Some (master_text [97] [replicate 20 5]))
      empty_mem [98] \<lparr>header = sized_header GET 0 20, pkt_data = replicate 20 5\<rparr>)
    (\<lambda>(p, mem). \<exists>c. ch_heap mem 0 = Some c \<and> chunk_data c = replicate BT_CHUNK_SIZE 7)"
  by (rule ok_mono [OF get_data_chunk_delivers [where name = "[97]" and hs = "[replicate 20 5]" and i = 0
        and junk = "[]" and f = "replicate BT_CHUNK_SIZE 7"]])
    (auto simp: file_name_ok_def isspace_def empty_mem_def word_le_nat_alt)

lemma block_fits: "hs \<noteq> [] \<Longrightarrow> length hs * k \<le> n \<Longrightarrow> (length hs - 1) * k + k \<le> n"
  by (cases hs) simp_all

text \<open>
  C32. A GET for a hash whose first ten bytes match no listed chunk is not refused: the peer serves
  the last chunk of the list.
\<close>

theorem get_data_chunk_unknown_hash:
  assumes "file_name_ok name" "fs cf = Some (master_text name hs)" "fs name = Some f"
    and "\<forall>h \<in> set hs. length h = 20" "length hs \<le> 4096" "hs \<noteq> []"
    and "length want = 20" "\<forall>h \<in> set hs. take 10 h \<noteq> take 10 want"
    and "pkt_data pkt = want @ junk" "254 \<le> length (literal_tail m)"
    and "length hs * BT_CHUNK_SIZE \<le> length f"
  shows "ok (get_data_chunk m fs mem cf pkt) (\<lambda>(p, mem'). \<exists>c. p = Some (ch_brk mem) \<and>
    ch_heap mem' (ch_brk mem) = Some c \<and> chunk_id c = int (length hs - 1) \<and>
    chunk_data c = take BT_CHUNK_SIZE (drop ((length hs - 1) * BT_CHUNK_SIZE) f))"
proof -
  define i where "i = length hs - 1"
  obtain c where c: "chunk_data c = fread_chunk f (int i * int BT_CHUNK_SIZE) (chunk_data (junk_chunk m))"
    "chunk_id c = int i" "get_data_chunk m fs mem cf pkt = Inr (Some (ch_brk mem), snd (alloc_chunk mem c))"
    using get_data_chunk_text [OF assms(1-3,6) _ assms(5,7,9,10), of mem] assms(4) pick_none [OF assms(6,8)]
    by (auto simp: i_def)
  have "nat (int i * int BT_CHUNK_SIZE) = i * BT_CHUNK_SIZE" by (simp flip: of_nat_mult)
  then have "chunk_data c = take BT_CHUNK_SIZE (drop (i * BT_CHUNK_SIZE) f)"
    using block_fits [OF assms(6,11), folded i_def] by (simp add: c(1) fread_chunk_def Let_def mult_less_0_iff)
  with c(2,3) show ?thesis by (simp add: alloc_chunk_def) (simp add: i_def)
qed

theorem get_data_chunk_unknown_hash_witness:
  "ok (get_data_chunk \<lparr>stack_byte = (\<lambda>i. 0), heap_byte = (\<lambda>i. 0), literal_tail = replicate 254 0, frame_slack = 0,
        heap_slack = 0\<rparr> (\<lambda>n. if n = [97] then Some (replicate BT_CHUNK_SIZE 7) else Some (master_text [97] [replicate 20 5]))
      empty_mem [98] \<lparr>header = sized_header GET 0 20, pkt_data = replicate 20 6\<rparr>)
    (\<lambda>(p, mem). \<exists>c. ch_heap mem 0 = Some c \<and> chunk_data c = replicate BT_CHUNK_SIZE 7)"
  by (rule ok_mono [OF get_data_chunk_unknown_hash [where name = "[97]" and hs = "[replicate 20 5]"
        and want = "replicate 20 6" and junk = "[]" and f = "replicate BT_CHUNK_SIZE 7"]])
    (auto simp: file_name_ok_def isspace_def empty_mem_def word_le_nat_alt replicate_eq_replicate)

text \<open>
  C33. \<open>check_chunk\<close> accepts a chunk exactly if the hexadecimal SHA-1 of its 512 KiB is the expected
  text, on a machine whose frame leaves 21 bytes behind the array \<open>target_hex\<close>; on any other the
  conversion to text writes out of bounds.
\<close>

theorem check_chunk_verdict:
  assumes "length (chunk_data c) = BT_CHUNK_SIZE" "40 \<le> length sha1"
  shows "check_chunk m c sha1 =
    (if frame_slack m < 21 then Inl Out_Of_Bounds else Inr (hex_string (sha1_spec (chunk_data c)) = take 40 sha1))"
  using check_chunk_spec [OF assms] check_chunk_overflow [OF assms(1)] by simp

theorem check_chunk_verdict_witness:
  "check_chunk \<lparr>stack_byte = (\<lambda>i. 0), heap_byte = (\<lambda>i. 0), literal_tail = [], frame_slack = 0, heap_slack = 0\<rparr>
     zero_chunk (replicate 40 48) = Inl Out_Of_Bounds"
  using check_chunk_verdict [of zero_chunk "replicate 40 48"] by simp

end
