(* ===== verification/Make_Chunks_C.thy ===== *)
theory Make_Chunks_C
  imports Complex_Main Tracker_Files
begin

text \<open>
  \<open>make_chunks.c\<close>: the tool that lists the hashes of a file. \<open>stat\<close> gives the length of a file that
  exists; the division by \<open>BT_CHUNK_SIZE\<close>, a power of two, is exact in double precision for every
  length below \<open>2 ^ 53\<close>. The result of \<open>main\<close> is what it prints, \<open>Exited\<close> its early exits.
\<close>

section \<open>Operations\<close>

definition get_numchunks :: "filesystem \<Rightarrow> byte list \<Rightarrow> int res" where
  "get_numchunks fs filename =
     (case fs filename of
        None \<Rightarrow> Inr (-1)
      | Some file \<Rightarrow>
          let c = ceiling (rat_of_nat (length file) / rat_of_nat BT_CHUNK_SIZE)
          in if c < 2 ^ 31 then Inr c else Inl Signed_Overflow)"

function print_hashes :: "machine \<Rightarrow> byte list list \<Rightarrow> nat \<Rightarrow> nat \<Rightarrow> byte list \<Rightarrow> byte list res" where
  "print_hashes m hashes chunks i ascii =
     (if i < chunks then
        rbind (bget hashes i) (\<lambda>h.
        rbind (binary2hex h SHA1_HASH_SIZE ascii) (\<lambda>ascii'.
        rbind (print_hashes m hashes chunks (Suc i) ascii') (\<lambda>out.
        Inr (dec i @ 32 # c_string ascii' @ newline # out))))
      else Inr [])"
  by pat_completeness auto
termination by (relation "measure (\<lambda>(m, hs, chunks, i, a). chunks - i)") auto

declare print_hashes.simps [simp del]

definition make_chunks_main :: "machine \<Rightarrow> filesystem \<Rightarrow> byte list list \<Rightarrow> byte list res" where
  "make_chunks_main m fs argv =
     (case argv of
        prog # input_file # _ \<Rightarrow>
          rbind (get_numchunks fs input_file) (\<lambda>numchunks.
          if numchunks < 0 then Inl (Exited (-1))
          else case fs input_file of
                 None \<Rightarrow> Inl (Exited (-1))
               | Some fp \<Rightarrow>
                   let hashes = replicate (nat numchunks) (map (heap_byte m) [0..<SHA1_HASH_SIZE])
                   in rbind (make_chunks m fp hashes) (\<lambda>(chunks, hashes').
                      print_hashes m hashes' chunks 0 (map (stack_byte m) [0..<SHA1_HASH_SIZE * 2 + 1])))
      | _ \<Rightarrow> Inl (Exited (-1)))"

section \<open>What it prints\<close>

lemma ceiling_blocks:
  assumes "0 < c"
  shows "ceiling (rat_of_nat n / rat_of_nat c) = int ((n + c - 1) div c)"
proof (rule ceiling_unique)
  let ?k = "(n + c - 1) div c"
  have k: "?k * c \<le> n + c - 1" "n + c - 1 < ?k * c + c"
    using assms div_times_less_eq_dividend [of "n + c - 1" c] dividend_less_div_times [of c "n + c - 1"]
    by (simp_all add: mult.commute)
  have "rat_of_nat (?k * c) < rat_of_nat (n + c)" using k(1) assms by (simp only: of_nat_less_iff)
  then have "(rat_of_nat ?k - 1) * rat_of_nat c < rat_of_nat n" by (simp add: left_diff_distrib)
  then show "rat_of_int (int ?k) - 1 < rat_of_nat n / rat_of_nat c"
    using assms by (simp add: pos_less_divide_eq)
  have "rat_of_nat n \<le> rat_of_nat (?k * c)" using k(2) assms by (simp only: of_nat_le_iff)
  then show "rat_of_nat n / rat_of_nat c \<le> rat_of_int (int ?k)"
    using assms by (simp add: pos_divide_le_eq)
qed

lemma get_numchunks_spec:
  assumes "fs name = Some f" "length f < 2 ^ 49"
  shows "get_numchunks fs name = Inr (int ((length f + BT_CHUNK_SIZE - 1) div BT_CHUNK_SIZE))"
proof -
  have "(length f + BT_CHUNK_SIZE - 1) div BT_CHUNK_SIZE < 2 ^ 31"
    using assms(2) by (intro less_mult_imp_div_less) (simp add: BT_CHUNK_SIZE_def)
  then show ?thesis
    using assms(1) ceiling_blocks [of BT_CHUNK_SIZE "length f"]
    by (simp add: get_numchunks_def BT_CHUNK_SIZE_def)
qed

lemma print_hashes_text:
  assumes "i \<le> length hs" "\<And>h. h \<in> set hs \<Longrightarrow> length h = 20" "41 \<le> length ascii"
  shows "print_hashes m hs (length hs) i ascii = Inr (chunk_list_text i (drop i hs))"
  using assms
proof (induction "length hs - i" arbitrary: i ascii)
  case 0
  then show ?case by (simp add: print_hashes.simps [of m hs])
next
  case (Suc k)
  then have i: "i < length hs" by linarith
  then have h: "length (hs ! i) = 20" using Suc.prems(2) by simp
  have hex: "binary2hex (hs ! i) SHA1_HASH_SIZE ascii = Inr (hex_string (hs ! i) @ 0 # drop 41 ascii)"
    using binary2hex_spec [of 20 "hs ! i" ascii] h Suc.prems(3) by (simp add: SHA1_HASH_SIZE_def)
  have "print_hashes m hs (length hs) (Suc i) (hex_string (hs ! i) @ 0 # drop 41 ascii) =
      Inr (chunk_list_text (Suc i) (drop (Suc i) hs))"
    using Suc.hyps(2) i h Suc.prems by (intro Suc.hyps(1)) auto
  moreover have "drop i hs = hs ! i # drop (Suc i) hs" using i by (simp add: Cons_nth_drop_Suc)
  ultimately show ?case
    using i hex c_string_no_nul [OF nul_notin_hex_string]
    by (simp add: print_hashes.simps [of m hs "length hs" i] bget_def chunk_line_def)
qed

lemma make_chunks_text:
  assumes "fs name = Some f" "length f < 2 ^ 49"
  shows "make_chunks_main m fs [prog, name] = Inr (chunk_list_text 0 (map sha1_spec (file_chunks f)))"
proof -
  let ?n = "(length f + BT_CHUNK_SIZE - 1) div BT_CHUNK_SIZE"
  let ?hs = "replicate ?n (map (heap_byte m) [0..<SHA1_HASH_SIZE])"
  have "make_chunks_loop m f 0 ?hs = Inr (0 + length (file_chunks f),
      take 0 ?hs @ map sha1_spec (file_chunks f) @ drop (0 + length (file_chunks f)) ?hs)"
    by (rule make_chunks_loop_spec) (simp_all add: length_file_chunks SHA1_HASH_SIZE_def)
  then have mk: "make_chunks m f ?hs = Inr (?n, map sha1_spec (file_chunks f))"
    by (simp add: make_chunks_def length_file_chunks)
  have "print_hashes m (map sha1_spec (file_chunks f)) (length (map sha1_spec (file_chunks f))) 0
      (map (stack_byte m) [0..<SHA1_HASH_SIZE * 2 + 1]) =
    Inr (chunk_list_text 0 (drop 0 (map sha1_spec (file_chunks f))))"
    by (rule print_hashes_text) (auto simp: length_sha1_spec SHA1_HASH_SIZE_def)
  then show ?thesis
    using mk get_numchunks_spec [of fs name, OF assms] assms(1)
    by (simp add: make_chunks_main_def length_file_chunks)
qed

section \<open>Properties\<close>

text \<open>
  For a file of less than \<open>2 ^ 49\<close> bytes \<open>make-chunks\<close> prints one line for each block of 512 KiB: its
  number from 0 on and the SHA-1 of the block in hexadecimal.
\<close>

theorem make_chunks_prints:
  assumes "fs name = Some f" "length f < 2 ^ 49"
  shows "make_chunks_main m fs [prog, name] = Inr (chunk_list_text 0 (map sha1_spec (file_chunks f)))"
  using assms by (rule make_chunks_text)

theorem make_chunks_prints_witness:
  "make_chunks_main \<lparr>stack_byte = (\<lambda>i. 0), heap_byte = (\<lambda>i. 0), literal_tail = [], frame_slack = 0, heap_slack = 0\<rparr>
     (\<lambda>n. Some [1, 2, 3]) [[], [97]] = Inr (chunk_list_text 0 [sha1_spec [1, 2, 3]])"
  using make_chunks_prints [of "\<lambda>n. Some [1, 2, 3]" "[97]" "[1, 2, 3]"]
  by (simp add: file_chunks.simps BT_CHUNK_SIZE_def)

text \<open>
  C34. The tool and the peer agree on the format: reading the output of \<open>make-chunks\<close> with
  \<open>list_chunks\<close> gives one chunk for each block of the file, in order, with its number and the
  hexadecimal SHA-1 of the block.
\<close>

theorem make_chunks_list_roundtrip:
  assumes "fs name = Some f" "length f < 2 ^ 49" "mem_ok mem"
    and "\<And>out. make_chunks_main m fs [prog, name] = Inr out \<Longrightarrow> fs' list_file = Some out"
  shows "ok (list_chunks fs' mem list_file) (\<lambda>(q, mem'). mem_ok mem' \<and> (\<exists>as. repr q as \<and> valid mem' as \<and>
    map (\<lambda>a. chunk_id (chunk_at mem' a)) as = map int [0..<length (file_chunks f)] \<and>
    map (key_at mem') as = map (\<lambda>b. hex_string (sha1_spec b)) (file_chunks f)))"
proof -
  let ?hs = "map sha1_spec (file_chunks f)"
  have hs: "\<And>h. h \<in> set ?hs \<Longrightarrow> length h = 20" by (auto simp: length_sha1_spec)
  have listed: "fs' list_file = Some (chunk_list_text 0 ?hs)"
    using assms(4) make_chunks_text [of fs name f, OF assms(1,2)] by blast
  have "(length f + BT_CHUNK_SIZE - 1) div BT_CHUNK_SIZE < 2 ^ 31"
    using assms(2) by (intro less_mult_imp_div_less) (simp add: BT_CHUNK_SIZE_def)
  then have n: "length ?hs \<le> 2 ^ 31" by (simp add: length_file_chunks)
  let ?mem = "alloc_all mem (map (\<lambda>i. listed_chunk i (?hs ! i)) [0..<length ?hs])"
  let ?own = "[ch_brk mem..<ch_brk mem + length ?hs]"
  have "ok (list_chunks fs' mem list_file) (\<lambda>(q, mem'). repr q ?own \<and> mem' = ?mem)"
    by (rule list_chunks_text) (use assms(3) hs n listed in auto)
  then obtain q where q: "list_chunks fs' mem list_file = Inr (q, ?mem)" "repr q ?own"
    by (rule ok_pairE) blast
  have "map (key_at ?mem) ?own = map (\<lambda>b. hex_string (sha1_spec b)) (file_chunks f)"
    using listed_chunks(3) [of mem ?hs, OF assms(3) hs] by (simp only: map_map comp_def)
  moreover have "map (\<lambda>a. chunk_id (chunk_at ?mem a)) ?own = map int [0..<length (file_chunks f)]"
    using listed_chunks(4) [of mem ?hs, OF assms(3) hs] by (simp only: length_map)
  ultimately show ?thesis
    unfolding q(1) ok_simps prod.case
    using listed_chunks(1,2) [of mem ?hs, OF assms(3) hs] q(2) by blast
qed

theorem make_chunks_list_roundtrip_witness:
  "ok (list_chunks (\<lambda>n. Some (chunk_list_text 0 [sha1_spec [1, 2, 3]])) empty_mem []) (\<lambda>(q, mem).
    \<exists>as. repr q as \<and> map (key_at mem) as = [hex_string (sha1_spec [1, 2, 3])])"
proof -
  have f: "file_chunks [1, 2, 3] = [[1, 2, 3]]" by (simp add: file_chunks.simps BT_CHUNK_SIZE_def)
  show ?thesis
    by (rule ok_mono [OF make_chunks_list_roundtrip [of "\<lambda>n. Some [1, 2, 3]" "[97]" "[1, 2, 3]"]])
      (auto simp: make_chunks_text [of "\<lambda>n. Some [1, 2, 3]" _ "[1, 2, 3]"] f mem_ok_empty)
qed

end
