(* ===== verification/Sha_Variants.thy ===== *)
theory Sha_Variants
  imports Sha_Correct
begin

text \<open>
  The configurations of \<open>sha.c\<close> that the preprocessor selects: the unrolling \<open>SHA1_UNROLL\<close> of the
  rounds, \<open>SHA1_FAST_COPY\<close>, a big-endian host with \<open>WORDS_BIGENDIAN\<close>, and the byte order found out
  at run time with \<open>RUNTIME_ENDIAN\<close>. The text of the file is modelled once, with the build as an
  argument; \<open>Sha_C\<close> holds the same functions for the one build of the \<open>Makefile\<close>. Each build is shown to
  keep the representation \<open>sha_rep\<close> of \<open>Sha_Correct\<close>, so that every build that compiles and states
  the byte order of its host correctly computes the digest of the standard.
\<close>

section \<open>Builds\<close>

record sha_build =
  SHA1_UNROLL :: nat
  SHA1_FAST_COPY :: bool
  WORDS_BIGENDIAN :: bool
  RUNTIME_ENDIAN :: bool
  little_host :: bool

text \<open>The context has one more member under \<open>RUNTIME_ENDIAN\<close>; the other builds do not use it.\<close>

record SHA1Context_v = SHA1Context +
  littleEndian :: int

text \<open>Words in the memory of the host.\<close>

definition host32 :: "bool \<Rightarrow> u32 \<Rightarrow> byte list" where
  "host32 little x = (if little then le32 x else be32 x)"

definition host64 :: "bool \<Rightarrow> u64 \<Rightarrow> byte list" where
  "host64 little x = (if little then le64 x else be64 x)"

definition host_words :: "bool \<Rightarrow> byte list \<Rightarrow> u32 list" where
  "host_words little bs = (if little then buffer_words bs else block_words bs)"

text \<open>The file does not compile with another \<open>SHA1_UNROLL\<close>.\<close>

definition unroll_allowed :: "nat \<Rightarrow> bool" where
  "unroll_allowed n \<longleftrightarrow> n \<in> set [1, 2, 4, 5, 10, 20]"

definition good_build :: "sha_build \<Rightarrow> bool" where
  "good_build b \<longleftrightarrow> unroll_allowed (SHA1_UNROLL b) \<and>
     (RUNTIME_ENDIAN b \<or> WORDS_BIGENDIAN b = (\<not> little_host b))"

section \<open>Byte order\<close>

definition setEndian :: "bool \<Rightarrow> int" where
  "setEndian little = (if host32 little 1 ! 0 \<noteq> 0 then 1 else 0)"

definition rt_byteswap :: "int \<Rightarrow> u32 \<Rightarrow> u32" where
  "rt_byteswap le x = (if le = 0 then x else BYTESWAP x)"

definition rt_byteswap64 :: "int \<Rightarrow> u64 \<Rightarrow> u64" where
  "rt_byteswap64 le x = (if le = 0 then x else BYTESWAP64 x)"

definition swap_v :: "sha_build \<Rightarrow> SHA1Context_v \<Rightarrow> u32 \<Rightarrow> u32" where
  "swap_v b sc x =
     (if RUNTIME_ENDIAN b then rt_byteswap (littleEndian sc) x
      else if WORDS_BIGENDIAN b then x else BYTESWAP x)"

definition swap64_v :: "sha_build \<Rightarrow> SHA1Context_v \<Rightarrow> u64 \<Rightarrow> u64" where
  "swap64_v b sc x =
     (if RUNTIME_ENDIAN b then rt_byteswap64 (littleEndian sc) x
      else if WORDS_BIGENDIAN b then x else BYTESWAP64 x)"

definition SHA1Init_v :: "sha_build \<Rightarrow> SHA1Context_v \<Rightarrow> SHA1Context_v" where
  "SHA1Init_v b sc =
     (let sc1 = (if RUNTIME_ENDIAN b then sc\<lparr>littleEndian := setEndian (little_host b)\<rparr> else sc)
      in sc1\<lparr>totalLength := 0,
           hash := [0x67452301, 0xEFCDAB89, 0x98BADCFE, 0x10325476, 0xC3D2E1F0],
           bufferLength := 0\<rparr>)"

section \<open>The rounds\<close>

text \<open>\<open>DO_ROUND\<close> with the word behind the pointer \<open>W\<close>, which moves on.\<close>

definition next_round :: "(u32 \<Rightarrow> u32 \<Rightarrow> u32 \<Rightarrow> u32) \<Rightarrow> u32 \<Rightarrow> regs \<times> u32 list \<Rightarrow> (regs \<times> u32 list) res" where
  "next_round F K s = (case snd s of [] \<Rightarrow> Inl Out_Of_Bounds | w # W \<Rightarrow> Inr (DO_ROUND F K (fst s) w, W))"

text \<open>The body of an unrolled loop, \<open>n\<close> rounds one after the other, and the loop around it.\<close>

fun round_group :: "nat \<Rightarrow> (u32 \<Rightarrow> u32 \<Rightarrow> u32 \<Rightarrow> u32) \<Rightarrow> u32 \<Rightarrow> regs \<times> u32 list \<Rightarrow> (regs \<times> u32 list) res" where
  "round_group 0 F K s = Inr s"
| "round_group (Suc n) F K s = rbind (next_round F K s) (round_group n F K)"

fun round_loop :: "nat \<Rightarrow> nat \<Rightarrow> (u32 \<Rightarrow> u32 \<Rightarrow> u32 \<Rightarrow> u32) \<Rightarrow> u32 \<Rightarrow> regs \<times> u32 list \<Rightarrow> (regs \<times> u32 list) res" where
  "round_loop 0 n F K s = Inr s"
| "round_loop (Suc i) n F K s = rbind (round_group n F K s) (round_loop i n F K)"

text \<open>How often each of the four loops runs: \<open>for (i = 19; i >= 0; i--)\<close> and so on.\<close>

definition unroll_iterations :: "nat \<Rightarrow> nat" where
  "unroll_iterations n =
     (if n = 1 then 20 else if n = 2 then 10 else if n = 4 then 5 else if n = 5 then 4
      else if n = 10 then 2 else 1)"

definition unrolled_rounds :: "nat \<Rightarrow> u32 list \<Rightarrow> regs \<Rightarrow> (regs \<times> u32 list) res" where
  "unrolled_rounds n W r =
     (let i = unroll_iterations n
      in rbind (round_loop i n F_0_19 K_0_19 (r, W)) (\<lambda>s1.
         rbind (round_loop i n F_20_39 K_20_39 s1) (\<lambda>s2.
         rbind (round_loop i n F_40_59 K_40_59 s2) (\<lambda>s3.
         round_loop i n F_60_79 K_60_79 s3))))"

definition SHA1Guts_v :: "sha_build \<Rightarrow> SHA1Context_v \<Rightarrow> byte list \<Rightarrow> SHA1Context_v res" where
  "SHA1Guts_v b sc cbuf =
     rbind (buf_read cbuf 0 64) (\<lambda>bs.
     let W = guts_expand 64 (map (swap_v b sc) (host_words (little_host b) bs)); h = hash sc
     in rbind (unrolled_rounds (SHA1_UNROLL b) W (h ! 0, h ! 1, h ! 2, h ! 3, h ! 4)) (\<lambda>(r, _).
        Inr (sc\<lparr>hash := guts_add h r\<rparr>)))"

section \<open>Wiping the stack\<close>

text \<open>
  \<open>burnStack\<close> overwrites 128 bytes of its frame and calls itself until \<open>size\<close> bytes are done; the
  model counts the bytes that are set to 0.
\<close>

function burnStack :: "int \<Rightarrow> int" where
  "burnStack n = 128 + (if n - 128 > 0 then burnStack (n - 128) else 0)"
  by auto
termination by (relation "measure nat") auto

declare burnStack.simps [simp del]

text \<open>\<open>sizeof (uint32_t[86]) + sizeof (uint32_t *[5]) + sizeof (int)\<close> with 64-bit pointers.\<close>

definition guts_frame :: int where
  "guts_frame = 86 * 4 + 5 * 8 + 4"

section \<open>Absorbing data\<close>

text \<open>
  The variables of \<open>SHA1Update\<close>: the context, the data left with its length, \<open>needBurn\<close>. A step of
  the copying loop is also the first part of the fast copy: fill the buffer, hash it when it is full.
\<close>

type_synonym update_vars = "SHA1Context_v \<times> byte list \<times> u32 \<times> bool"

fun fill_v :: "sha_build \<Rightarrow> update_vars \<Rightarrow> update_vars res" where
  "fill_v b (sc, data, len, needBurn) =
     (let bufferBytesLeft = 64 - bufferLength sc;
          bytesToCopy = (if bufferBytesLeft > len then len else bufferBytesLeft)
      in rbind (buf_read data 0 (unat bytesToCopy)) (\<lambda>src.
         rbind (buf_write (buffer sc) (unat (bufferLength sc)) src) (\<lambda>buf.
         let sc1 = sc\<lparr>buffer := buf,
               totalLength := totalLength sc + ucast bytesToCopy * 8,
               bufferLength := bufferLength sc + bytesToCopy\<rparr>;
             data1 = drop (unat bytesToCopy) data; len1 = len - bytesToCopy
         in if bufferLength sc1 = 64
            then rbind (SHA1Guts_v b sc1 (buffer sc1)) (\<lambda>sc2.
              Inr (sc2\<lparr>bufferLength := 0\<rparr>, data1, len1, True))
            else Inr (sc1, data1, len1, needBurn))))"

fun copy_loop_v :: "nat \<Rightarrow> sha_build \<Rightarrow> update_vars \<Rightarrow> update_vars res" where
  "copy_loop_v fuel b (sc, data, len, needBurn) =
     (if len = 0 then Inr (sc, data, len, needBurn)
      else case fuel of
        0 \<Rightarrow> Inl Diverges
      | Suc k \<Rightarrow> rbind (fill_v b (sc, data, len, needBurn)) (copy_loop_v k b))"

text \<open>\<open>SHA1_FAST_COPY\<close>: whole blocks are hashed where they lie, the rest goes to the buffer.\<close>

fun block_loop_v :: "nat \<Rightarrow> sha_build \<Rightarrow> update_vars \<Rightarrow> update_vars res" where
  "block_loop_v fuel b (sc, data, len, needBurn) =
     (if \<not> len > 63 then Inr (sc, data, len, needBurn)
      else case fuel of
        0 \<Rightarrow> Inl Diverges
      | Suc k \<Rightarrow>
          rbind (SHA1Guts_v b (sc\<lparr>totalLength := totalLength sc + 512\<rparr>) data) (\<lambda>sc1.
          block_loop_v k b (sc1, drop 64 data, len - 64, True)))"

fun tail_v :: "update_vars \<Rightarrow> update_vars res" where
  "tail_v (sc, data, len, needBurn) =
     (if len \<noteq> 0
      then rbind (buf_read data 0 (unat len)) (\<lambda>src.
           rbind (buf_write (buffer sc) (unat (bufferLength sc)) src) (\<lambda>buf.
           Inr (sc\<lparr>buffer := buf, totalLength := totalLength sc + ucast len * 8,
             bufferLength := bufferLength sc + len\<rparr>, data, len, needBurn)))
      else Inr (sc, data, len, needBurn))"

declare fill_v.simps [simp del] copy_loop_v.simps [simp del] block_loop_v.simps [simp del] tail_v.simps [simp del]

definition fast_copy_v :: "sha_build \<Rightarrow> update_vars \<Rightarrow> update_vars res" where
  "fast_copy_v b v =
     rbind (if bufferLength (fst v) \<noteq> 0 then fill_v b v else Inr v) (\<lambda>v1.
     rbind (block_loop_v (Suc (unat (fst (snd (snd v1))))) b v1) tail_v)"

text \<open>The update returns the context and the number of bytes of the stack that were wiped.\<close>

definition SHA1Update_v :: "sha_build \<Rightarrow> SHA1Context_v \<Rightarrow> byte list \<Rightarrow> u32 \<Rightarrow> (SHA1Context_v \<times> int) res" where
  "SHA1Update_v b sc data len =
     rbind (if SHA1_FAST_COPY b then fast_copy_v b (sc, data, len, False)
            else copy_loop_v (Suc (unat len)) b (sc, data, len, False)) (\<lambda>(sc1, _, _, needBurn).
     Inr (sc1, if needBurn then burnStack guts_frame else 0))"

definition hash_out_v :: "sha_build \<Rightarrow> SHA1Context_v \<Rightarrow> byte list" where
  "hash_out_v b sc =
     (if SHA1_FAST_COPY b then concat (map (\<lambda>w. host32 (little_host b) (swap_v b sc w)) (hash sc))
      else hash_out (hash sc))"

definition SHA1Final_v :: "sha_build \<Rightarrow> SHA1Context_v \<Rightarrow> (SHA1Context_v \<times> byte list) res" where
  "SHA1Final_v b sc =
     (let pad = 120 - bufferLength sc;
          bytesToPad = (if pad > 64 then pad - 64 else pad);
          lengthPad = swap64_v b sc (totalLength sc)
      in rbind (SHA1Update_v b sc padding bytesToPad) (\<lambda>(sc1, _).
         rbind (SHA1Update_v b sc1 (host64 (little_host b) lengthPad) 8) (\<lambda>(sc2, _).
         Inr (sc2, hash_out_v b sc2))))"

text \<open>A client: one update for each piece of the message, in order.\<close>

fun updates_v :: "sha_build \<Rightarrow> SHA1Context_v \<Rightarrow> byte list list \<Rightarrow> SHA1Context_v res" where
  "updates_v b sc [] = Inr sc"
| "updates_v b sc (piece # ps) =
     rbind (SHA1Update_v b sc piece (of_nat (length piece))) (\<lambda>(sc1, _). updates_v b sc1 ps)"

section \<open>Byte order of a good build\<close>

definition endian_known :: "sha_build \<Rightarrow> SHA1Context_v \<Rightarrow> bool" where
  "endian_known b sc \<longleftrightarrow> (RUNTIME_ENDIAN b \<longrightarrow> littleEndian sc = setEndian (little_host b))"

lemma setEndian_host: "setEndian little = of_bool little"
  by (simp add: setEndian_def host32_def le32_def be32_def)

lemma swap_v_host:
  "good_build b \<Longrightarrow> endian_known b sc \<Longrightarrow> swap_v b sc = (if little_host b then BYTESWAP else (\<lambda>x. x))"
  by (auto simp: swap_v_def rt_byteswap_def good_build_def endian_known_def setEndian_host fun_eq_iff)

lemma swap64_v_host:
  "good_build b \<Longrightarrow> endian_known b sc \<Longrightarrow> swap64_v b sc x = (if little_host b then BYTESWAP64 x else x)"
  by (auto simp: swap64_v_def rt_byteswap64_def good_build_def endian_known_def setEndian_host)

lemma swapped_words:
  assumes "good_build b" "endian_known b sc" "length bs = 64"
  shows "map (swap_v b sc) (host_words (little_host b) bs) = map BYTESWAP (buffer_words bs)"
proof (cases "little_host b")
  case True
  then show ?thesis using assms by (simp add: swap_v_host host_words_def)
next
  case False
  have "map BYTESWAP (buffer_words bs) = block_words bs"
    by (simp add: buffer_words_def block_words_def BYTESWAP_le32)
  then show ?thesis using assms False by (simp add: swap_v_host host_words_def)
qed

lemma host64_swap:
  "good_build b \<Longrightarrow> endian_known b sc \<Longrightarrow> host64 (little_host b) (swap64_v b sc x) = be64 x"
  by (simp add: swap64_v_host host64_def le64_BYTESWAP64)

lemma hash_out_v_spec:
  assumes "good_build b" "endian_known b sc"
  shows "hash_out_v b sc = concat (map be32 (hash sc))"
  by (simp add: hash_out_v_def hash_out_be32 swap_v_host [OF assms] host32_def le32_BYTESWAP)

section \<open>Unrolled rounds\<close>

lemma round_group_foldl:
  "n \<le> length W \<Longrightarrow> round_group n F K (r, W) = Inr (foldl (DO_ROUND F K) r (take n W), drop n W)"
  by (induction n arbitrary: r W) (auto simp: next_round_def neq_Nil_conv Suc_le_length_iff)

lemma round_loop_foldl:
  "i * n \<le> length W \<Longrightarrow> round_loop i n F K (r, W) = Inr (foldl (DO_ROUND F K) r (take (i * n) W), drop (i * n) W)"
proof (induction i arbitrary: r W)
  case (Suc i)
  then have "n \<le> length W" "i * n \<le> length (drop n W)" by auto
  moreover have "drop (n + i * n) W = drop (i * n + n) W" by (simp only: add.commute)
  ultimately show ?case by (simp add: round_group_foldl Suc.IH take_add)
qed simp

lemma unroll_twenty: "unroll_allowed n \<Longrightarrow> unroll_iterations n * n = 20"
  by (auto simp: unroll_allowed_def unroll_iterations_def)

lemma unrolled_rounds_guts:
  assumes "unroll_allowed n" "length W = 80"
  shows "unrolled_rounds n W r = Inr (guts_rounds W r, [])"
  using assms
  by (simp add: unrolled_rounds_def guts_rounds_def Let_def round_loop_foldl unroll_twenty)

section \<open>Every build keeps the representation\<close>

definition plain :: "SHA1Context_v \<Rightarrow> SHA1Context" where
  "plain sc = \<lparr>totalLength = totalLength sc, hash = hash sc, bufferLength = bufferLength sc,
     buffer = buffer sc\<rparr>"

lemma plain_fields [simp]:
  "totalLength (plain sc) = totalLength sc" "hash (plain sc) = hash sc"
  "bufferLength (plain sc) = bufferLength sc" "buffer (plain sc) = buffer sc"
  by (simp_all add: plain_def)

definition rep_v :: "sha_build \<Rightarrow> SHA1Context_v \<Rightarrow> byte list \<Rightarrow> bool" where
  "rep_v b sc xs \<longleftrightarrow> sha_rep (plain sc) xs \<and> endian_known b sc"

lemma length_guts_expand: "length (guts_expand k W) = length W + k"
  by (induction k arbitrary: W) (simp_all add: Let_def)

lemma SHA1Guts_v_compress:
  assumes "good_build b" "endian_known b sc" "64 \<le> length cbuf"
  shows "SHA1Guts_v b sc cbuf = Inr (sc\<lparr>hash := sha_compress (hash sc) (take 64 cbuf)\<rparr>)"
proof -
  let ?bs = "take 64 cbuf" and ?h = "hash sc"
  let ?r = "(?h ! 0, ?h ! 1, ?h ! 2, ?h ! 3, ?h ! 4)"
  let ?W = "guts_expand 64 (map BYTESWAP (buffer_words ?bs))"
  have len: "length ?bs = 64" using assms(3) by simp
  have rd: "buf_read cbuf 0 64 = Inr ?bs" using assms(3) by (simp add: buf_read_def)
  have "length ?W = 80" by (simp add: length_guts_expand buffer_words_def)
  then have rounds: "unrolled_rounds (SHA1_UNROLL b) ?W ?r = Inr (guts_rounds ?W ?r, [])"
    using assms(1) by (intro unrolled_rounds_guts) (auto simp: good_build_def)
  have "hash (SHA1Guts (plain sc) (buffer_words ?bs)) = sha_compress ?h ?bs"
    by (simp add: SHA1Guts_compress [OF len])
  then have "guts_add ?h (guts_rounds ?W ?r) = sha_compress ?h ?bs"
    by (simp add: SHA1Guts_def Let_def)
  then show ?thesis
    unfolding SHA1Guts_v_def rd rbind_simps swapped_words [OF assms(1,2) len] Let_def rounds prod.case
    by simp
qed

lemma rep_v_init:
  "length (buffer sc) = 64 \<Longrightarrow> rep_v b (SHA1Init_v b sc) []"
  by (simp add: rep_v_def endian_known_def SHA1Init_v_def sha_rep_def blocks64_def sha_H0_def Let_def)

lemma rep_v_fields:
  assumes "rep_v b sc xs"
  shows "bufferLength sc = of_nat (length xs mod 64)" "unat (bufferLength sc) = length xs mod 64"
    "length (buffer sc) = 64" "endian_known b sc"
proof -
  show "bufferLength sc = of_nat (length xs mod 64)" "length (buffer sc) = 64" "endian_known b sc"
    using assms by (simp_all add: rep_v_def sha_rep_def)
  moreover have "length xs mod 64 < 2 ^ 32" by (rule less_trans [of _ 64]) simp_all
  ultimately show "unat (bufferLength sc) = length xs mod 64" by (simp only: unat_of_nat_small)
qed

text \<open>Filling the buffer with \<open>n\<close> bytes is the round \<open>update_round\<close> of the plain context.\<close>

lemma fill_v_rep:
  assumes good: "good_build b" and rep: "rep_v b sc xs" and len: "unat len \<le> length data"
    and n: "n = min (unat len) (64 - length xs mod 64)"
  shows "ok (fill_v b (sc, data, len, nb)) (\<lambda>(sc1, data1, len1, nb1).
    rep_v b sc1 (xs @ take n data) \<and> data1 = drop n data \<and> unat len1 = unat len - n \<and>
    nb1 = (nb \<or> length xs mod 64 + n = 64))"
proof -
  let ?m = "length xs mod 64" and ?ys = "take n data"
  let ?buf = "take ?m (buffer sc) @ ?ys @ drop (?m + n) (buffer sc)"
  define c where "c = (if 64 - bufferLength sc > len then len else 64 - bufferLength sc)"
  note bl = rep_v_fields(1,3) [OF rep] and known = rep_v_fields(4) [OF rep]
  have m: "unat (bufferLength sc) = ?m" "?m < 64" using rep_v_fields(2) [OF rep] by simp_all
  then have "unat (64 - bufferLength sc) = 64 - ?m" by (simp add: unat_sub word_le_nat_alt)
  then have c: "unat c = n" using n by (auto simp: c_def word_less_nat_alt)
  have ys: "length ?ys = n" "?m + n \<le> 64" using len n m by auto
  have rd: "buf_read data 0 n = Inr ?ys" using ys by (simp add: buf_read_def)
  have wr: "buf_write (buffer sc) ?m ?ys = Inr ?buf" using ys bl by (simp add: buf_write_def)
  have cn: "c = of_nat n" unfolding c [symmetric] by simp
  have rest: "unat (len - c) = unat len - n"
    using c n by (simp add: unat_sub word_le_nat_alt)
  define sc1 where "sc1 = sc\<lparr>buffer := ?buf, totalLength := totalLength sc + ucast c * 8,
    bufferLength := bufferLength sc + c\<rparr>"
  have buf: "length ?buf = 64" using ys bl by simp
  have uc: "ucast c = (of_nat n :: u64)" unfolding c [symmetric] by simp
  have upd: "update_round (plain sc) ?ys = plain (if bufferLength sc1 = 64
      then sc1\<lparr>hash := sha_compress (hash sc) ?buf, bufferLength := 0\<rparr> else sc1)"
    using ys m(1) SHA1Guts_compress [OF buf]
    by (simp add: update_round_def plain_def sc1_def Let_def uc flip: cn)
  have full: "bufferLength sc1 = 64 \<longleftrightarrow> ?m + n = 64"
  proof -
    have "bufferLength sc1 = of_nat (?m + n)" by (simp add: sc1_def bl cn)
    moreover have "unat (of_nat (?m + n) :: u32) = ?m + n"
      by (rule unat_of_nat_small [OF order_le_less_trans [OF ys(2)]]) simp
    ultimately show ?thesis by (auto simp: word_unat_eq_iff)
  qed
  have known1: "endian_known b sc1" using known by (simp add: endian_known_def sc1_def)
  have guts: "SHA1Guts_v b sc1 (buffer sc1) = Inr (sc1\<lparr>hash := sha_compress (hash sc) ?buf\<rparr>)"
  proof -
    have "buffer sc1 = ?buf" "hash sc1 = hash sc" by (simp_all add: sc1_def)
    moreover have "take 64 ?buf = ?buf" by (rule take_all) (simp only: buf)
    ultimately show ?thesis
      using SHA1Guts_v_compress [OF good known1, of "buffer sc1"] by (simp only: buf)
  qed
  have "sha_rep (update_round (plain sc) ?ys) (xs @ ?ys)"
    using rep ys by (intro sha_rep_update_round) (auto simp: rep_v_def)
  then have new: "sha_rep (plain (if bufferLength sc1 = 64
      then sc1\<lparr>hash := sha_compress (hash sc) ?buf, bufferLength := 0\<rparr> else sc1)) (xs @ ?ys)"
    unfolding upd .
  show ?thesis
    unfolding fill_v.simps Let_def c_def [symmetric] c rd m(1) wr rbind_simps sc1_def [symmetric] guts
    using new full known1 rest by (auto simp: rep_v_def endian_known_def)
qed

lemma block_crossed:
  fixes a l n :: nat
  assumes "n = min l (64 - a mod 64)"
  shows "(a mod 64 + n = 64 \<or> (a + n) div 64 < (a + n + (l - n)) div 64) = (a div 64 < (a + l) div 64)"
proof (cases "a mod 64 + n = 64")
  case True
  then have "(a + n) div 64 = Suc (a div 64)" using div_mod_add_full(1) [OF True] by simp
  moreover have "(a + n) div 64 \<le> (a + l) div 64" using assms by (intro div_le_mono) simp
  ultimately show ?thesis using True by simp
next
  case False
  then have "n = l" "a mod 64 + l < 64" using assms by (auto simp: min_def split: if_splits)
  then show ?thesis using False div_mod_add_short(1) [of a 64 l] by simp
qed

lemma copy_loop_v_rep:
  assumes "good_build b" "rep_v b sc xs" "unat len \<le> length data" "unat len < fuel"
  shows "ok (copy_loop_v fuel b (sc, data, len, nb)) (\<lambda>(sc1, _, _, nb1).
    rep_v b sc1 (xs @ take (unat len) data) \<and>
    nb1 = (nb \<or> length xs div 64 < (length xs + unat len) div 64))"
  using assms
proof (induction fuel arbitrary: sc xs data len nb)
  case 0
  then show ?case by simp
next
  case (Suc k)
  show ?case
  proof (cases "len = 0")
    case True
    with Suc.prems show ?thesis by (simp add: copy_loop_v.simps)
  next
    case False
    define n where "n = min (unat len) (64 - length xs mod 64)"
    have "0 < n" using False by (simp add: n_def unat_gt_0)
    from fill_v_rep [OF Suc.prems(1-3) n_def, of nb] obtain sc1 len1 where
      fill: "fill_v b (sc, data, len, nb) = Inr (sc1, drop n data, len1, nb \<or> length xs mod 64 + n = 64)"
        "rep_v b sc1 (xs @ take n data)" "unat len1 = unat len - n"
      by (auto simp: ok_iff)
    have more: "take n data @ take (unat len1) (drop n data) = take (unat len) data"
      using fill(3) by (simp add: n_def flip: take_add)
    have len: "length (take n data) = n" using Suc.prems(3) by (simp add: n_def)
    note cross = block_crossed [OF n_def]
    have less: "unat len - n < k" using Suc.prems(4) \<open>0 < n\<close> n_def by linarith
    have "ok (copy_loop_v k b (sc1, drop n data, len1, nb \<or> length xs mod 64 + n = 64)) (\<lambda>(sc1, _, _, nb1).
      rep_v b sc1 ((xs @ take n data) @ take (unat len1) (drop n data)) \<and>
      nb1 = ((nb \<or> length xs mod 64 + n = 64) \<or>
        length (xs @ take n data) div 64 < (length (xs @ take n data) + unat len1) div 64))"
      using Suc.prems(3) less by (intro Suc.IH [OF Suc.prems(1) fill(2)]) (simp_all add: fill(3) diff_le_mono)
    then show ?thesis
      using False fill(1) cross len more fill(3) by (simp add: copy_loop_v.simps [of "Suc k"] disj_assoc)
  qed
qed

text \<open>A whole block hashed where it lies.\<close>

lemma whole_block_rep:
  assumes rep: "rep_v b sc xs" and m: "length xs mod 64 = 0" and bs: "length bs = 64"
  shows "rep_v b (sc\<lparr>totalLength := totalLength sc + 512, hash := sha_compress (hash sc) bs\<rparr>) (xs @ bs)"
proof -
  have "blocks64 (xs @ bs) = blocks64 xs @ [bs]"
    using blocks64_append_full [of xs bs] m bs minus_mod_eq_mult_div [of "length xs" 64] by simp
  moreover have "(length xs + 64) mod 64 = 0" "64 * ((length xs + 64) div 64) = length xs + 64"
    using div_mod_add_full [of "length xs" 64 64] m by simp_all
  ultimately show ?thesis
    using rep m bs by (simp add: rep_v_def endian_known_def sha_rep_def)
qed

lemma block_loop_v_rep:
  assumes "good_build b" "rep_v b sc xs" "len \<noteq> 0 \<Longrightarrow> length xs mod 64 = 0" "unat len \<le> length data" "unat len < fuel"
  shows "ok (block_loop_v fuel b (sc, data, len, nb)) (\<lambda>(sc1, data1, len1, nb1).
    rep_v b sc1 (xs @ take (64 * (unat len div 64)) data) \<and> data1 = drop (64 * (unat len div 64)) data \<and>
    unat len1 = unat len mod 64 \<and> nb1 = (nb \<or> 0 < unat len div 64))"
  using assms
proof (induction fuel arbitrary: sc xs data len nb)
  case 0
  then show ?case by simp
next
  case (Suc k)
  show ?case
  proof (cases "len > 63")
    case False
    then have "unat len < 64" by (simp add: word_less_nat_alt)
    with Suc.prems False show ?thesis by (simp add: block_loop_v.simps)
  next
    case True
    then have l: "64 \<le> unat len" by (simp add: word_less_nat_alt)
    then have l1: "unat (len - 64) = unat len - 64" by (simp add: unat_sub word_le_nat_alt)
    let ?sc = "sc\<lparr>totalLength := totalLength sc + 512\<rparr>" and ?bs = "take 64 data"
    let ?sc1 = "sc\<lparr>totalLength := totalLength sc + 512, hash := sha_compress (hash sc) ?bs\<rparr>"
    have bs: "length ?bs = 64" "64 \<le> length data" using l Suc.prems(4) by simp_all
    have "endian_known b ?sc" using Suc.prems(2) by (simp add: rep_v_def endian_known_def)
    then have guts: "SHA1Guts_v b ?sc data = Inr ?sc1"
      using SHA1Guts_v_compress [OF Suc.prems(1) _ bs(2)] by simp
    have m: "length xs mod 64 = 0" using l by (intro Suc.prems(3)) auto
    have rep: "rep_v b ?sc1 (xs @ ?bs)" by (rule whole_block_rep [OF Suc.prems(2) m bs(1)])
    have q: "unat len div 64 = Suc ((unat len - 64) div 64)" "(unat len - 64) mod 64 = unat len mod 64"
      using l by (simp_all add: le_div_geq le_mod_geq)
    have "ok (block_loop_v k b (?sc1, drop 64 data, len - 64, True)) (\<lambda>(sc1, data1, len1, nb1).
      rep_v b sc1 ((xs @ ?bs) @ take (64 * (unat (len - 64) div 64)) (drop 64 data)) \<and>
      data1 = drop (64 * (unat (len - 64) div 64)) (drop 64 data) \<and>
      unat len1 = unat (len - 64) mod 64 \<and> nb1 = (True \<or> 0 < unat (len - 64) div 64))"
      using Suc.prems(4,5) m l l1 bs by (intro Suc.IH [OF Suc.prems(1) rep]) (auto simp: mod_add_right_eq)
    then show ?thesis
      using True guts q l1
      by (simp add: block_loop_v.simps [of "Suc k"] take_add [of 64, symmetric] add.commute)
  qed
qed

text \<open>The bytes behind the last whole block go to the buffer.\<close>

lemma tail_v_rep:
  assumes "rep_v b sc xs" "length xs mod 64 + unat len < 64" "unat len \<le> length data"
  shows "ok (tail_v (sc, data, len, nb)) (\<lambda>(sc1, _, _, nb1).
    rep_v b sc1 (xs @ take (unat len) data) \<and> nb1 = nb)"
proof (cases "len = 0")
  case True
  with assms show ?thesis by (simp add: tail_v.simps)
next
  case False
  let ?m = "length xs mod 64" and ?ys = "take (unat len) data"
  let ?buf = "take ?m (buffer sc) @ ?ys @ drop (?m + unat len) (buffer sc)"
  note bl = rep_v_fields(1,3) [OF assms(1)] and m = rep_v_fields(2) [OF assms(1)]
  have ys: "length ?ys = unat len" using assms(3) by simp
  have rd: "buf_read data 0 (unat len) = Inr ?ys" using assms(3) by (simp add: buf_read_def)
  have wr: "buf_write (buffer sc) ?m ?ys = Inr ?buf" using ys bl assms(2) by (simp add: buf_write_def)
  define sc1 where "sc1 = sc\<lparr>buffer := ?buf, totalLength := totalLength sc + ucast len * 8,
    bufferLength := bufferLength sc + len\<rparr>"
  have "unat (of_nat (?m + unat len) :: u32) = ?m + unat len"
    by (rule unat_of_nat_small [OF less_trans [OF assms(2)]]) simp
  then have "bufferLength sc + len \<noteq> 64"
    using assms(2) by (auto simp: bl word_unat_eq_iff)
  then have "update_round (plain sc) ?ys = plain sc1"
    using ys m by (simp add: update_round_def plain_def sc1_def Let_def)
  moreover have "sha_rep (update_round (plain sc) ?ys) (xs @ ?ys)"
    using assms ys by (intro sha_rep_update_round) (auto simp: rep_v_def)
  moreover have "endian_known b sc1" using assms(1) by (simp add: rep_v_def endian_known_def sc1_def)
  moreover have "tail_v (sc, data, len, nb) = Inr (sc1, data, len, nb)"
    using False by (simp add: tail_v.simps rd m wr sc1_def)
  ultimately show ?thesis by (simp add: rep_v_def)
qed

lemma fast_crossed:
  fixes a l n :: nat
  assumes n: "n = (if a mod 64 = 0 then 0 else min l (64 - a mod 64))"
  shows "(a mod 64 + n = 64 \<or> 0 < (l - n) div 64) = (a div 64 < (a + l) div 64)"
proof (cases "a mod 64 = 0")
  case True
  then have "(a + l) div 64 = a div 64 + l div 64" by (auto elim!: dvdE simp flip: dvd_eq_mod_eq_0)
  then show ?thesis using True n by simp
next
  case False
  then have m: "n = min l (64 - a mod 64)" using n by simp
  then have "a mod 64 + n = 64 \<or> n = l" by (auto simp: min_def)
  then show ?thesis using block_crossed [OF m] by auto
qed

lemma fast_copy_v_rep:
  assumes good: "good_build b" and rep: "rep_v b sc xs" and len: "unat len \<le> length data"
  shows "ok (fast_copy_v b (sc, data, len, False)) (\<lambda>(sc1, _, _, nb1).
    rep_v b sc1 (xs @ take (unat len) data) \<and>
    nb1 = (length xs div 64 < (length xs + unat len) div 64))"
proof -
  define n where "n = (if length xs mod 64 = 0 then 0 else min (unat len) (64 - length xs mod 64))"
  let ?zs = "xs @ take n data"
  let ?q = "64 * ((unat len - n) div 64)"
  have bl: "bufferLength sc \<noteq> 0 \<longleftrightarrow> length xs mod 64 \<noteq> 0"
    using rep_v_fields(2) [OF rep] by (metis unat_eq_zero)
  obtain sc1 len1 where first: "(if bufferLength sc \<noteq> 0 then fill_v b (sc, data, len, False)
        else Inr (sc, data, len, False)) = Inr (sc1, drop n data, len1, length xs mod 64 + n = 64)"
      "rep_v b sc1 ?zs" "unat len1 = unat len - n"
  proof (cases "length xs mod 64 = 0")
    case True
    then have "n = 0" by (simp add: n_def)
    then show ?thesis using that [of sc len] rep bl True by simp
  next
    case False
    then have "n = min (unat len) (64 - length xs mod 64)" by (simp add: n_def)
    from fill_v_rep [OF good rep len this, of False] show ?thesis
      using that bl False by (auto simp: ok_iff)
  qed
  have zs: "length ?zs = length xs + n" using len by (simp add: n_def)
  have n_le: "n \<le> unat len" by (simp add: n_def)
  have full: "len1 \<noteq> 0 \<Longrightarrow> length ?zs mod 64 = 0"
    using first(3) div_mod_add_full(2) [of "length xs" 64 n] unfolding zs
    by (cases "length xs mod 64 = 0") (auto simp: n_def min_def unat_eq_zero [symmetric] split: if_splits)
  have dl: "unat len1 \<le> length (drop n data)" using first(3) len by (simp add: diff_le_mono)
  from block_loop_v_rep [where nb = "length xs mod 64 + n = 64", OF good first(2) full dl lessI] obtain sc2 len2 where
    blocks: "block_loop_v (Suc (unat len1)) b (sc1, drop n data, len1, length xs mod 64 + n = 64) =
        Inr (sc2, drop ?q (drop n data), len2, length xs mod 64 + n = 64 \<or> 0 < (unat len - n) div 64)"
      "rep_v b sc2 (?zs @ take ?q (drop n data))" "unat len2 = (unat len - n) mod 64"
    by (auto simp: ok_iff first(3))
  have m2: "length (?zs @ take ?q (drop n data)) mod 64 + unat len2 < 64"
  proof (cases "len1 = 0")
    case True
    then have "unat len = n" using first(3) n_le by simp
    then show ?thesis by (simp add: blocks(3))
  next
    case False
    have "length (take ?q (drop n data)) = ?q" using dl first(3) by simp
    then have "length (?zs @ take ?q (drop n data)) mod 64 = length ?zs mod 64"
      by (simp only: length_append mod_mult_self2)
    then show ?thesis using full [OF False] by (simp only: blocks(3))
  qed
  have l2: "unat len2 \<le> length (drop ?q (drop n data))"
    using dl first(3) by (simp add: blocks(3) flip: minus_mult_div_eq_mod)
  have parts: "take n data @ take ?q (drop n data) @ take (unat len2) (drop ?q (drop n data)) =
      take (unat len) data"
  proof -
    have "unat len = n + (?q + unat len2)" using n_le by (simp add: blocks(3))
    then have "take (unat len) data = take (n + (?q + unat len2)) data" by (rule arg_cong)
    then show ?thesis unfolding take_add by (rule sym)
  qed
  from tail_v_rep [OF blocks(2) m2 l2] have "ok (tail_v (sc2, drop ?q (drop n data), len2,
      length xs mod 64 + n = 64 \<or> 0 < (unat len - n) div 64)) (\<lambda>(sc3, _, _, nb1).
      rep_v b sc3 (xs @ take (unat len) data) \<and>
      nb1 = (length xs mod 64 + n = 64 \<or> 0 < (unat len - n) div 64))"
    using parts by simp
  moreover have "(length xs mod 64 + n = 64 \<or> 0 < (unat len - n) div 64) =
      (length xs div 64 < (length xs + unat len) div 64)"
    by (rule fast_crossed) (simp add: n_def)
  ultimately show ?thesis
    unfolding fast_copy_v_def fst_conv snd_conv first(1) rbind_simps blocks(1) by simp
qed

text \<open>Every update absorbs its data, and wipes the stack if it hashed a block.\<close>

lemma SHA1Update_v_rep:
  assumes "good_build b" "rep_v b sc xs" "unat len \<le> length data"
  shows "ok (SHA1Update_v b sc data len) (\<lambda>(sc1, wiped).
    rep_v b sc1 (xs @ take (unat len) data) \<and>
    wiped = (if length xs div 64 < (length xs + unat len) div 64 then burnStack guts_frame else 0))"
proof (cases "SHA1_FAST_COPY b")
  case True
  with fast_copy_v_rep [OF assms] show ?thesis by (auto simp: SHA1Update_v_def ok_iff)
next
  case False
  with copy_loop_v_rep [OF assms lessI, of False] show ?thesis by (auto simp: SHA1Update_v_def ok_iff)
qed

lemma SHA1Final_v_rep:
  assumes good: "good_build b" and rep: "rep_v b sc msg"
  shows "ok (SHA1Final_v b sc) (\<lambda>(sc1, digest). digest = sha1_spec msg)"
proof -
  let ?m = "length msg mod 64"
  define pad where "pad = (if 120 - of_nat ?m > (64 :: u32) then 120 - of_nat ?m - 64 else 120 - of_nat ?m :: u32)"
  have pad: "unat pad = pad_bytes ?m" unfolding pad_def by (rule unat_bytesToPad) simp
  have "pad_bytes ?m \<le> 64" by (auto simp: pad_bytes_def)
  then have pl: "unat pad \<le> length padding" using pad by (simp add: padding_def)
  let ?tail = "be64 (of_nat (8 * length msg))"
  have "totalLength sc = of_nat (8 * length msg)" using rep by (simp add: rep_v_def sha_rep_def)
  then have len: "host64 (little_host b) (swap64_v b sc (totalLength sc)) = ?tail"
    by (simp only: host64_swap [OF good rep_v_fields(4) [OF rep]])
  have tl: "length (be64 x) = 8" for x by (simp add: be64_def)
  obtain sc1 k where sc1: "SHA1Update_v b sc padding pad = Inr (sc1, k)" "rep_v b sc1 (msg @ take (unat pad) padding)"
    using SHA1Update_v_rep [OF good rep pl] by (auto simp: ok_iff)
  have "unat (8 :: u32) \<le> length ?tail" by (simp add: tl)
  from SHA1Update_v_rep [OF good sc1(2) this] obtain sc2 j where
    sc2: "SHA1Update_v b sc1 ?tail 8 = Inr (sc2, j)" "rep_v b sc2 (sha_pad msg)"
    using pad tl sha_pad_eq [of msg] by (auto simp: ok_iff)
  have "hash_out_v b sc2 = sha1_spec msg"
    using sc2(2) by (simp add: hash_out_v_spec [OF good rep_v_fields(4) [OF sc2(2)]] rep_v_def sha_rep_def sha1_spec_def)
  then show ?thesis
    unfolding SHA1Final_v_def Let_def rep_v_fields(1) [OF rep] pad_def [symmetric] len sc1(1) rbind_simps prod.case sc2(1)
    by simp
qed

lemma updates_v_rep:
  assumes "good_build b" "rep_v b sc xs" "\<And>p. p \<in> set ps \<Longrightarrow> length p < 2 ^ 32"
  shows "ok (updates_v b sc ps) (\<lambda>sc1. rep_v b sc1 (xs @ concat ps))"
  using assms(2,3)
proof (induction ps arbitrary: sc xs)
  case (Cons p ps)
  then have len: "unat (of_nat (length p) :: u32) = length p" by (simp add: unat_of_nat_small)
  from SHA1Update_v_rep [OF assms(1) Cons.prems(1), of "of_nat (length p)" p] obtain sc1 k where
    sc1: "SHA1Update_v b sc p (of_nat (length p)) = Inr (sc1, k)" "rep_v b sc1 (xs @ p)"
    by (auto simp: ok_iff len)
  from Cons.IH [OF sc1(2)] Cons.prems(2) show ?case using sc1(1) by simp
qed simp

section \<open>The stack is wiped\<close>

lemma burnStack_enough: "n \<le> burnStack n"
proof (induction n rule: burnStack.induct)
  case (1 n)
  then show ?case by (subst burnStack.simps) auto
qed

lemma guts_frame_burnt: "burnStack guts_frame = 512"
  by (simp add: guts_frame_def burnStack.simps)

section \<open>Properties\<close>

text \<open>
  C23. Whatever build is chosen - any allowed unrolling, with or without the fast copy, for a
  little- or big-endian host, with the byte order fixed or found out at run time - and however the
  message is cut into pieces of less than 4 GiB, initialising, absorbing the pieces one after the
  other and finishing returns the digest of the standard, without touching memory outside its
  buffers. The only condition is that a build without \<open>RUNTIME_ENDIAN\<close> defines \<open>WORDS_BIGENDIAN\<close>
  exactly on a big-endian host.
\<close>

theorem every_build_is_sha1:
  assumes "good_build b" "length (buffer sc) = 64" "\<forall>p \<in> set ps. length p < 2 ^ 32"
  shows "\<exists>sc'. rbind (updates_v b (SHA1Init_v b sc) ps) (SHA1Final_v b) = Inr (sc', sha1_spec (concat ps))"
proof -
  obtain sc1 where sc1: "updates_v b (SHA1Init_v b sc) ps = Inr sc1" "rep_v b sc1 (concat ps)"
    using updates_v_rep [OF assms(1) rep_v_init [OF assms(2)], of ps] assms(3) by (auto simp: ok_iff)
  from SHA1Final_v_rep [OF assms(1) sc1(2)] show ?thesis using sc1(1) by (auto simp: ok_iff)
qed

theorem every_build_is_sha1_witness:
  "\<exists>sc'. rbind (updates_v \<lparr>SHA1_UNROLL = 5, SHA1_FAST_COPY = True, WORDS_BIGENDIAN = False,
       RUNTIME_ENDIAN = True, little_host = False\<rparr>
     (SHA1Init_v \<lparr>SHA1_UNROLL = 5, SHA1_FAST_COPY = True, WORDS_BIGENDIAN = False,
       RUNTIME_ENDIAN = True, little_host = False\<rparr>
       \<lparr>totalLength = 7, hash = [], bufferLength = 9, buffer = replicate 64 1, littleEndian = 3\<rparr>)
     [[97], replicate 130 98, []])
     (SHA1Final_v \<lparr>SHA1_UNROLL = 5, SHA1_FAST_COPY = True, WORDS_BIGENDIAN = False,
       RUNTIME_ENDIAN = True, little_host = False\<rparr>) = Inr (sc', sha1_spec (97 # replicate 130 98))"
  using every_build_is_sha1 [of "\<lparr>SHA1_UNROLL = 5, SHA1_FAST_COPY = True, WORDS_BIGENDIAN = False,
       RUNTIME_ENDIAN = True, little_host = False\<rparr>"
       "\<lparr>totalLength = 7, hash = [], bufferLength = 9, buffer = replicate 64 1, littleEndian = 3\<rparr>"
       "[[97], replicate 130 98, []]"]
  by (simp add: good_build_def unroll_allowed_def)

end
