(* ===== verification/Float_C.thy ===== *)
theory Float_C
  imports Complex_Main Prelude_C "HOL-Library.Log_Nat"
begin

text \<open>
  The C type \<open>float\<close> (IEEE binary32, round to nearest, ties to even), as far as the congestion window
  needs it: positive normal numbers, kept as rationals, every operation rounded by \<open>f32\<close>. The
  windows that occur lie between 1 and \<open>2 ^ 24\<close> (a property of \<open>Rcv_Send_C\<close>), so subnormal numbers,
  infinities and NaN do not.
\<close>

section \<open>Rounding\<close>

definition two_powi :: "int \<Rightarrow> rat" where
  "two_powi e = (if 0 \<le> e then 2 ^ nat e else 1 / 2 ^ nat (- e))"

text \<open>The binary exponent of a positive number.\<close>

definition f32_exponent :: "rat \<Rightarrow> int" where
  "f32_exponent x =
     (if 1 \<le> x then int (floorlog 2 (nat (floor x))) - 1
      else - int (floorlog 2 (nat (ceiling (1 / x)) - 1)))"

definition round_even :: "rat \<Rightarrow> int" where
  "round_even v =
     (let f = floor v; d = v - of_int f
      in if d < 1 / 2 then f else if 1 / 2 < d then f + 1 else if even f then f else f + 1)"

definition f32 :: "rat \<Rightarrow> rat" where
  "f32 x = (let q = two_powi (f32_exponent x - 23) in of_int (round_even (x / q)) * q)"

definition f32_add :: "rat \<Rightarrow> rat \<Rightarrow> rat" where "f32_add x y = f32 (x + y)"
definition f32_div :: "rat \<Rightarrow> rat \<Rightarrow> rat" where "f32_div x y = f32 (x / y)"

text \<open>Conversions from and to integers; a value that does not fit is undefined in C.\<close>

definition f32_of_u32 :: "u32 \<Rightarrow> rat" where
  "f32_of_u32 w = (if w = 0 then 0 else f32 (of_int (uint w)))"

definition f32_of_int :: "int \<Rightarrow> rat" where
  "f32_of_int i = (if i = 0 then 0 else f32 (of_int i))"

definition u32_of_f32 :: "rat \<Rightarrow> u32 res" where
  "u32_of_f32 x = (if 0 \<le> x \<and> x < 2 ^ 32 then Inr (of_int (floor x)) else Inl Signed_Overflow)"

definition int_of_f32 :: "rat \<Rightarrow> int res" where
  "int_of_f32 x = (if 0 \<le> x \<and> x < 2 ^ 31 then Inr (floor x) else Inl Signed_Overflow)"

section \<open>Rounding is monotone and exact on small integers\<close>

lemma two_powi_pos [simp]: "0 < two_powi e"
  by (simp add: two_powi_def)

lemma two_powi_eq: "two_powi e = 2 powi e"
  by (simp add: two_powi_def power_int_def field_simps)

lemma two_powi_add: "two_powi (a + b) = two_powi a * two_powi b"
  by (simp add: two_powi_eq power_int_add)

lemma two_powi_mono: "a \<le> b \<Longrightarrow> two_powi a \<le> two_powi b"
  by (simp add: two_powi_eq power_int_increasing)

lemma f32_exponent_bounds:
  assumes "1 \<le> x"
  shows "0 \<le> f32_exponent x" "two_powi (f32_exponent x) \<le> x" "x < two_powi (f32_exponent x + 1)"
proof -
  let ?n = "nat (floor x)" and ?k = "floorlog 2 (nat (floor x))"
  have n: "0 < ?n" using assms by simp
  then have k: "0 < ?k" by (simp add: floorlog_def)
  then show "0 \<le> f32_exponent x" using assms by (simp add: f32_exponent_def)
  have e: "nat (f32_exponent x) = ?k - 1" "f32_exponent x = int (?k - 1)"
    using assms k by (simp_all add: f32_exponent_def)
  have "2 ^ (?k - 1) \<le> ?n" "?n < 2 ^ ?k"
    using floorlog_bounds [of ?n 2] n by auto
  then have "rat_of_nat (2 ^ (?k - 1)) \<le> rat_of_nat ?n" "rat_of_nat (?n + 1) \<le> rat_of_nat (2 ^ ?k)"
    by (simp_all only: of_nat_le_iff)
  moreover have "rat_of_nat ?n \<le> x" "x < rat_of_nat (?n + 1)"
    using assms by (simp_all add: of_nat_nat) linarith+
  ultimately have "rat_of_nat (2 ^ (?k - 1)) \<le> x" "x < rat_of_nat (2 ^ ?k)" by linarith+
  moreover have "two_powi (f32_exponent x) = rat_of_nat (2 ^ (?k - 1))" "two_powi (f32_exponent x + 1) = rat_of_nat (2 ^ ?k)"
    using e(2) k by (simp_all add: two_powi_def nat_add_distrib of_nat_diff)
  ultimately show "two_powi (f32_exponent x) \<le> x" "x < two_powi (f32_exponent x + 1)" by simp_all
qed

lemma round_even_mono:
  assumes "v \<le> w"
  shows "round_even v \<le> round_even w"
proof (cases "floor v = floor w")
  case True
  with assms show ?thesis by (auto simp: round_even_def Let_def)
next
  case False
  then have "floor v + 1 \<le> floor w" using floor_mono [OF assms] by simp
  then show ?thesis by (auto simp: round_even_def Let_def)
qed

lemma round_even_int [simp]: "round_even (of_int i) = i"
  by (simp add: round_even_def)

lemma f32_bounds:
  assumes "1 \<le> x"
  shows "two_powi (f32_exponent x) \<le> f32 x" "f32 x \<le> two_powi (f32_exponent x + 1)"
proof -
  let ?e = "f32_exponent x" and ?q = "two_powi (f32_exponent x - 23)"
  have p: "two_powi ?e = 2 ^ 23 * ?q" "two_powi (?e + 1) = 2 ^ 24 * ?q"
  proof -
    have "two_powi 23 = 2 ^ 23" "two_powi 24 = 2 ^ 24" by (simp_all add: two_powi_def)
    then show "two_powi ?e = 2 ^ 23 * ?q" "two_powi (?e + 1) = 2 ^ 24 * ?q"
      using two_powi_add [of 23 "?e - 23"] two_powi_add [of 24 "?e - 23"] by (simp_all add: add.commute)
  qed
  have "of_int (2 ^ 23) \<le> x / ?q" "x / ?q \<le> of_int (2 ^ 24)"
    using f32_exponent_bounds [OF assms] p by (simp_all add: pos_le_divide_eq pos_divide_le_eq)
  then have "2 ^ 23 \<le> round_even (x / ?q)" "round_even (x / ?q) \<le> 2 ^ 24"
    using round_even_mono round_even_int by (metis, metis)
  then have "rat_of_int (2 ^ 23) \<le> of_int (round_even (x / ?q))" "of_int (round_even (x / ?q)) \<le> rat_of_int (2 ^ 24)"
    by (simp_all only: of_int_le_iff)
  then show "two_powi ?e \<le> f32 x" "f32 x \<le> two_powi (?e + 1)"
    unfolding f32_def Let_def p by (simp_all add: mult_right_mono)
qed

lemma f32_mono:
  assumes "1 \<le> x" "x \<le> y"
  shows "f32 x \<le> f32 y"
proof (cases "f32_exponent x = f32_exponent y")
  case True
  have "x / two_powi (f32_exponent y - 23) \<le> y / two_powi (f32_exponent y - 23)"
    using assms(2) by (simp add: divide_right_mono less_imp_le)
  then have "round_even (x / two_powi (f32_exponent y - 23)) \<le> round_even (y / two_powi (f32_exponent y - 23))"
    by (rule round_even_mono)
  then show ?thesis using True by (simp add: f32_def Let_def mult_right_mono less_imp_le)
next
  case False
  have y: "1 \<le> y" using assms by simp
  have "\<not> f32_exponent y < f32_exponent x"
  proof
    assume "f32_exponent y < f32_exponent x"
    then have "two_powi (f32_exponent y + 1) \<le> two_powi (f32_exponent x)" by (intro two_powi_mono) simp
    with f32_exponent_bounds(2) [OF assms(1)] f32_exponent_bounds(3) [OF y] assms(2) show False by linarith
  qed
  with False have "two_powi (f32_exponent x + 1) \<le> two_powi (f32_exponent y)" by (intro two_powi_mono) simp
  with f32_bounds(2) [OF assms(1)] f32_bounds(1) [OF y] show ?thesis by linarith
qed

lemma f32_exact_int:
  assumes "1 \<le> i" "i \<le> 2 ^ 24"
  shows "f32 (of_int i) = of_int i"
proof -
  let ?x = "rat_of_int i"
  have x: "1 \<le> ?x" using assms(1) by simp
  have "f32_exponent ?x \<le> 24"
  proof (rule ccontr)
    assume "\<not> f32_exponent ?x \<le> 24"
    then have "two_powi 25 \<le> two_powi (f32_exponent ?x)" by (intro two_powi_mono) simp
    moreover have "?x \<le> rat_of_int (2 ^ 24)" using assms(2) by (simp only: of_int_le_iff)
    ultimately show False using f32_exponent_bounds(2) [OF x] by (simp add: two_powi_def)
  qed
  then consider "f32_exponent ?x = 24" | "f32_exponent ?x \<le> 23" by linarith
  then show ?thesis
  proof cases
    case 1
    then have "rat_of_int (2 ^ 24) \<le> ?x" using f32_exponent_bounds(2) [OF x] by (simp add: two_powi_def)
    then have "2 ^ 24 \<le> i" by (simp only: of_int_le_iff)
    then have "i = 2 ^ 24" using assms(2) by (rule antisym [rotated])
    then show ?thesis using 1 by (simp add: f32_def two_powi_def round_even_def)
  next
    case 2
    define k where "k = nat (23 - f32_exponent ?x)"
    have k: "f32_exponent ?x - 23 = - int k" using 2 by (simp add: k_def)
    have q: "two_powi (f32_exponent ?x - 23) = 1 / 2 ^ k" unfolding k
      by (cases "k = 0") (simp_all add: two_powi_def)
    have "?x / (1 / 2 ^ k) = rat_of_int (i * 2 ^ k)" by simp
    then show ?thesis unfolding f32_def Let_def q by (simp only: round_even_int) simp
  qed
qed


lemma f32_small:
  assumes "0 < x" "x < 1"
  shows "0 \<le> f32 x" "f32 x \<le> 1"
proof -
  let ?n = "nat (ceiling (1 / x))"
  define k where "k = floorlog 2 (?n - 1)"
  have "1 < 1 / x" using assms by simp
  then have "1 < ceiling (1 / x)" by (simp add: less_ceiling_iff)
  then have n: "0 < ?n - 1" by simp
  then have k: "0 < k" by (simp add: k_def floorlog_def)
  have e: "f32_exponent x = - int k" using assms by (simp add: f32_exponent_def k_def)
  have "2 ^ (k - 1) \<le> ?n - 1" using floorlog_bounds [of "?n - 1" 2] n by (auto simp: k_def)
  then have "rat_of_nat (2 ^ (k - 1)) \<le> rat_of_nat (?n - 1)" by (simp only: of_nat_le_iff)
  moreover have "rat_of_nat (?n - 1) < 1 / x"
    using n ceiling_correct [of "1 / x"] by (simp add: of_nat_diff)
  ultimately have "rat_of_nat (2 ^ (k - 1)) < 1 / x" by (rule le_less_trans)
  then have "2 ^ (k - 1) < 1 / x" by simp
  then have "2 ^ (k - 1) * x < 1" using assms(1) by (simp add: pos_less_divide_eq)
  moreover have "2 ^ k = 2 * (2 :: rat) ^ (k - 1)" using k by (cases k) simp_all
  ultimately have "2 ^ k * x < 2" by simp
  let ?q = "two_powi (f32_exponent x - 23)"
  have q: "?q = 1 / 2 ^ (k + 23)" using k by (simp add: e two_powi_def nat_add_distrib)
  have "x / ?q = 2 ^ 23 * (2 ^ k * x)" by (simp add: q power_add)
  also have "\<dots> \<le> rat_of_int (2 ^ 24)" using \<open>2 ^ k * x < 2\<close> by (simp add: mult.commute)
  finally have "round_even (x / ?q) \<le> 2 ^ 24" using round_even_mono round_even_int by metis
  then have "rat_of_int (round_even (x / ?q)) \<le> rat_of_int (2 ^ 24)" by (simp only: of_int_le_iff)
  then have "f32 x \<le> 2 ^ 24 * ?q" by (simp add: f32_def Let_def mult_right_mono less_imp_le)
  also have "\<dots> = 2 / 2 ^ k" by (simp add: q power_add)
  also have "\<dots> \<le> 1" using k by (cases k) simp_all
  finally show "f32 x \<le> 1" .
  have "0 \<le> x / ?q" using assms(1) by (simp add: less_imp_le)
  then have "round_even (of_int 0) \<le> round_even (x / ?q)" by (intro round_even_mono) simp
  then have "0 \<le> round_even (x / ?q)" by (simp only: round_even_int)
  then show "0 \<le> f32 x" by (simp add: f32_def Let_def less_imp_le)
qed

text \<open>The largest window: from \<open>2 ^ 24\<close> on, adding 1 does not change a float.\<close>

definition MAX_WINDOW :: rat where "MAX_WINDOW = 2 ^ 24"

lemma f32_stuck: "f32 (MAX_WINDOW + 1) = MAX_WINDOW"
proof -
  have "f32_exponent (MAX_WINDOW + 1) = 24"
    by (simp add: f32_exponent_def MAX_WINDOW_def compute_floorlog)
  moreover have "floor (16777217 / 2 :: rat) = 8388608" by (simp add: floor_eq_iff)
  ultimately show ?thesis
    by (simp add: f32_def Let_def two_powi_def MAX_WINDOW_def round_even_def)
qed

definition window :: "rat \<Rightarrow> bool" where
  "window w \<longleftrightarrow> 1 \<le> w \<and> w \<le> MAX_WINDOW"

lemma window_one: "window 1"
  by (simp add: window_def MAX_WINDOW_def)

lemma f32_one: "f32 1 = 1"
  using f32_exact_int [of 1] by simp

lemma window_grow:
  assumes "window w" "0 \<le> d" "d \<le> 1"
  shows "window (f32_add w d)"
proof -
  have "f32 1 \<le> f32 (w + d)" using assms by (intro f32_mono) (auto simp: window_def)
  moreover have "f32 (w + d) \<le> f32 (MAX_WINDOW + 1)" using assms by (intro f32_mono) (auto simp: window_def)
  ultimately show ?thesis by (simp add: window_def f32_add_def f32_stuck f32_one)
qed

lemma f32_inverse:
  assumes "window w"
  shows "0 \<le> f32_div 1 w" "f32_div 1 w \<le> 1"
proof -
  have "f32 (1 / w) = 1" if "w = 1" using that f32_one by simp
  moreover have "0 < 1 / w" "w \<noteq> 1 \<Longrightarrow> 1 / w < 1" using assms by (auto simp: window_def)
  ultimately show "0 \<le> f32_div 1 w" "f32_div 1 w \<le> 1"
    using f32_small [of "1 / w"] by (cases "w = 1"; simp add: f32_div_def)+
qed

lemma f32_half:
  assumes "window w"
  shows "0 \<le> f32_div w 2" "f32_div w 2 \<le> 2 ^ 23"
proof -
  have "f32 (w / 2) \<le> f32 (of_int (2 ^ 23))" if "1 \<le> w / 2"
    using assms that by (intro f32_mono) (auto simp: window_def MAX_WINDOW_def)
  moreover have "f32 (of_int (2 ^ 23)) = of_int (2 ^ 23)" by (rule f32_exact_int) simp_all
  moreover have "f32 1 \<le> f32 (w / 2)" if "1 \<le> w / 2" using that by (intro f32_mono) auto
  moreover have "0 < w / 2" using assms by (auto simp: window_def)
  ultimately show "0 \<le> f32_div w 2" "f32_div w 2 \<le> 2 ^ 23"
    using f32_small [of "w / 2"] by (cases "1 \<le> w / 2"; simp add: f32_div_def f32_one)+
qed

lemma f32_of_u32_exact: "uint b \<le> 2 ^ 24 \<Longrightarrow> f32_of_u32 b = of_int (uint b)"
proof (cases "b = 0")
  case False
  then have "1 \<le> uint b" using uint_0_iff [of b] uint_ge_0 [of b] by linarith
  moreover assume "uint b \<le> 2 ^ 24"
  ultimately show ?thesis using False f32_exact_int [of "uint b"] by (simp add: f32_of_u32_def)
qed (simp add: f32_of_u32_def)

lemma f32_le_twice:
  assumes "1 \<le> x" "x < 2 ^ n"
  shows "f32 x \<le> 2 ^ n"
proof -
  let ?e = "f32_exponent x"
  have "?e < int n"
  proof (rule ccontr)
    assume "\<not> ?e < int n"
    then have "two_powi (int n) \<le> two_powi ?e" by (intro two_powi_mono) simp
    then show False using f32_exponent_bounds(2) [OF assms(1)] assms(2) by (simp add: two_powi_def)
  qed
  then have "two_powi (?e + 1) \<le> two_powi (int n)" by (intro two_powi_mono) simp
  with f32_bounds(2) [OF assms(1)] show ?thesis by (simp add: two_powi_def)
qed

lemma u32_of_f32_ok:
  assumes "0 \<le> x" "x < 2 ^ 32"
  shows "u32_of_f32 x = Inr (of_int (floor x))" "uint (of_int (floor x) :: u32) = floor x"
proof -
  show "u32_of_f32 x = Inr (of_int (floor x))" using assms by (simp add: u32_of_f32_def)
  have "0 \<le> floor x" "floor x < 2 ^ 32" using assms by (simp_all add: floor_less_iff)
  then show "uint (of_int (floor x) :: u32) = floor x"
    by (simp add: uint_word_of_int_eq take_bit_int_eq_self)
qed

end
