(* ===== verification/Rcv_Send_C.thy ===== *)
theory Rcv_Send_C
  imports Float_C Tracker_C
begin

text \<open>
  \<open>rcv_send.c\<close> and \<open>rcv_send.h\<close>: the pools of senders and receivers, the sender's retransmission and its
  timer. Senders and receivers are referred to by their pool, by the thread that serves them and by
  pending timers, so they live in heaps of their own (\<open>arena\<close>); the timer and the packet array belong to
  one sender and are fields of it.
\<close>

section \<open>Data\<close>

definition GET_NUM :: nat where "GET_NUM = 6"
definition SSTHRESH :: u32 where "SSTHRESH = 64"
definition CWND :: nat where "CWND = 1"
definition DUP_ACK_NUM :: u32 where "DUP_ACK_NUM = 3"

definition timeout_interval :: rat where "timeout_interval = 1000"

record my_timer_t =
  running :: int
  timer_id :: u32
  tv_sec :: int
  tv_usec :: int

record sender =
  ssthresh :: u32
  cwnd :: rat
  last_sent :: u32
  last_acked :: u32
  last_available :: u32
  dup_ack_num :: u32
  pkt_num :: u32
  timer :: my_timer_t
  pkts :: "packet list"
  p_receiver :: "nat option"

record receiver =
  last_read :: u32
  last_rcvd :: u32
  next_expected :: u32
  r_chunk :: "nat option"
  p_sender :: "nat option"

text \<open>The two structures the macro \<open>define_pool\<close> declares have the same fields.\<close>

record pool_t =
  max_num :: int
  cur_num :: int
  workers :: "nat qptr"

record 'a arena =
  ar_heap :: "'a heap"
  ar_brk :: nat

section \<open>Pools\<close>

text \<open>
  \<open>init_sender_pool\<close> and \<open>init_receiver_pool\<close> allocate \<open>max\<close> times the size of a worker for the queue
  structure (24 bytes). A negative \<open>max\<close> asks for more memory than there is; with \<open>max = 0\<close> the
  structure is written into a block of size 0.
\<close>

definition workers_block :: "machine \<Rightarrow> int \<Rightarrow> int \<Rightarrow> nat qptr res" where
  "workers_block m mx worker_size =
     (if mx < 0 then Inl Null_Deref
      else if mx * worker_size + int (heap_slack m) < 24 then Inl Out_Of_Bounds
      else Inr init_queue)"

definition init_sender_pool :: "machine \<Rightarrow> int \<Rightarrow> pool_t res" where
  "init_sender_pool m mx = rbind (workers_block m mx 56) (\<lambda>q.
     Inr \<lparr>max_num = mx, cur_num = 0, workers = q\<rparr>)"

definition init_receiver_pool :: "machine \<Rightarrow> int \<Rightarrow> pool_t res" where
  "init_receiver_pool m mx = rbind (workers_block m mx 32) (\<lambda>q.
     Inr \<lparr>max_num = mx, cur_num = 0, workers = q\<rparr>)"

section \<open>Timers\<close>

text \<open>\<open>start_timer\<close> and \<open>stop_timer\<close> do nothing for NULL; every caller passes a sender it has dereferenced.\<close>

definition is_running :: "my_timer_t \<Rightarrow> bool" where
  "is_running t = (running t = 1)"

definition init_timer :: "my_timer_t \<Rightarrow> u32 \<Rightarrow> my_timer_t" where
  "init_timer t tid = t\<lparr>running := 0, timer_id := tid, tv_sec := floor (timeout_interval / 1000), tv_usec := 0\<rparr>"

definition stop_timer :: "sender \<Rightarrow> sender" where
  "stop_timer sdr = sdr\<lparr>timer := (timer sdr)\<lparr>running := 0\<rparr>\<rparr>"

definition start_timer :: "sender \<Rightarrow> sender" where
  "start_timer sdr = sdr\<lparr>timer := (timer sdr)\<lparr>running := 1\<rparr>\<rparr>"

section \<open>Retransmission\<close>

text \<open>
  The window is a float. Compared with and added to an unsigned integer, the integer is converted
  first; converted back, the fraction is dropped.
\<close>

definition window_end :: "u32 \<Rightarrow> rat \<Rightarrow> u32 res" where
  "window_end base w = u32_of_f32 (f32_add (f32_of_u32 base) w)"

definition retransmit :: "sender \<Rightarrow> u32 \<Rightarrow> sender res" where
  "retransmit sdr acked =
     rbind (if cwnd sdr \<le> f32_of_u32 (ssthresh sdr)
            then rbind (u32_of_f32 (cwnd sdr)) (\<lambda>t. Inr (t, 1))
            else rbind (u32_of_f32 (f32_div (cwnd sdr) 2)) (\<lambda>t. Inr (t, f32_of_u32 (t + DUP_ACK_NUM))))
       (\<lambda>(t, w). rbind (window_end acked w) (\<lambda>avail.
          Inr (sdr\<lparr>last_sent := acked, last_acked := acked, dup_ack_num := 1, ssthresh := t, cwnd := w,
                   last_available := avail\<rparr>)))"

text \<open>
  The timer thread: it reads the timer when it starts and, if the timer runs, waits; when the wait is
  over and the timer has the same number, it retransmits.
\<close>

definition t_start_begin :: "sender \<Rightarrow> u32 option" where
  "t_start_begin sdr = (if is_running (timer sdr) then Some (timer_id (timer sdr)) else None)"

definition t_start_end :: "sender \<Rightarrow> u32 \<Rightarrow> sender res" where
  "t_start_end sdr tid = (if timer_id (timer sdr) = tid then retransmit sdr tid else Inr sdr)"

section \<open>Adding, finding and removing workers\<close>

definition add_sender ::
    "pool_t \<Rightarrow> sender arena \<Rightarrow> nat option \<Rightarrow> packet list \<Rightarrow> nat \<Rightarrow> (nat option \<times> pool_t \<times> sender arena) res" where
  "add_sender pool ar p_rcvr ps num =
     (if cur_num pool \<ge> max_num pool then Inr (None, pool, ar)
      else let a = ar_brk ar;
               t = init_timer \<lparr>running = 0, timer_id = 0, tv_sec = 0, tv_usec = 0\<rparr> 0;
               sdr = \<lparr>ssthresh = SSTHRESH, cwnd = of_nat CWND, last_sent = 0, last_acked = 0,
                 last_available = of_nat CWND, dup_ack_num = 0, pkt_num = of_nat num, timer = t, pkts = ps,
                 p_receiver = p_rcvr\<rparr>
           in rbind (enqueue (workers pool) a) (\<lambda>q.
              Inr (Some a, pool\<lparr>workers := q, cur_num := cur_num pool + 1\<rparr>,
                   \<lparr>ar_heap = (ar_heap ar)(a \<mapsto> sdr), ar_brk = Suc a\<rparr>)))"

definition add_receiver ::
    "pool_t \<Rightarrow> receiver arena \<Rightarrow> nat option \<Rightarrow> nat option \<Rightarrow> (nat option \<times> pool_t \<times> receiver arena) res" where
  "add_receiver pool ar p_sdr chunk =
     (if cur_num pool \<ge> max_num pool then Inr (None, pool, ar)
      else let a = ar_brk ar;
               rcvr = \<lparr>last_read = 0, last_rcvd = 0, next_expected = 1, r_chunk = chunk, p_sender = p_sdr\<rparr>
           in rbind (enqueue (workers pool) a) (\<lambda>q.
              Inr (Some a, pool\<lparr>workers := q, cur_num := cur_num pool + 1\<rparr>,
                   \<lparr>ar_heap = (ar_heap ar)(a \<mapsto> rcvr), ar_brk = Suc a\<rparr>)))"

definition get_sender :: "pool_t cptr \<Rightarrow> sender arena \<Rightarrow> nat option \<Rightarrow> nat option res" where
  "get_sender pool ar p_rcvr =
     (if pool = Null \<or> p_rcvr = None then Inr None
      else rbind (obj pool) (\<lambda>p. q_find (workers p)
             (\<lambda>a. rbind (deref (ar_heap ar) (Some a)) (\<lambda>s. Inr (p_receiver s = p_rcvr)))))"

definition get_receiver :: "pool_t cptr \<Rightarrow> receiver arena \<Rightarrow> nat option \<Rightarrow> nat option res" where
  "get_receiver pool ar p_sdr =
     (if pool = Null \<or> p_sdr = None then Inr None
      else rbind (obj pool) (\<lambda>p. q_find (workers p)
             (\<lambda>a. rbind (deref (ar_heap ar) (Some a)) (\<lambda>r. Inr (p_sender r = p_sdr)))))"

text \<open>The removed worker is not freed: its thread and its timer may still use it.\<close>

definition remove_sender ::
    "pool_t cptr \<Rightarrow> sender arena \<Rightarrow> nat option \<Rightarrow> (pool_t cptr \<times> sender arena) res" where
  "remove_sender pool ar sdr =
     (if pool = Null then Inr (pool, ar)
      else case sdr of
        None \<Rightarrow> Inr (pool, ar)
      | Some a \<Rightarrow> rbind (obj pool) (\<lambda>p.
          rbind (remove_loop dequeue enqueue
                   (\<lambda>b. rbind (deref (ar_heap ar) (Some b)) (\<lambda>cur.
                        rbind (deref (ar_heap ar) sdr) (\<lambda>s. Inr (p_receiver cur = p_receiver s))))
                   (nat (cur_num p)) (workers p))
            (\<lambda>(found, q).
               if found then rbind (deref (ar_heap ar) sdr) (\<lambda>s.
                 Inr (Obj (p\<lparr>workers := q, cur_num := cur_num p - 1\<rparr>),
                      ar\<lparr>ar_heap := (ar_heap ar)(a \<mapsto> stop_timer s)\<rparr>))
               else Inr (Obj (p\<lparr>workers := q\<rparr>), ar))))"

definition remove_receiver ::
    "pool_t cptr \<Rightarrow> receiver arena \<Rightarrow> nat option \<Rightarrow> pool_t cptr res" where
  "remove_receiver pool ar rcvr =
     (if pool = Null then Inr pool
      else case rcvr of
        None \<Rightarrow> Inr pool
      | Some a \<Rightarrow> rbind (obj pool) (\<lambda>p.
          rbind (remove_loop dequeue enqueue
                   (\<lambda>b. rbind (deref (ar_heap ar) (Some b)) (\<lambda>cur.
                        rbind (deref (ar_heap ar) rcvr) (\<lambda>r. Inr (p_sender cur = p_sender r))))
                   (nat (cur_num p)) (workers p))
            (\<lambda>(found, q). Inr (Obj (p\<lparr>workers := q, cur_num := (if found then cur_num p - 1 else cur_num p)\<rparr>)))))"


section \<open>The congestion window\<close>

definition sender_ok :: "sender \<Rightarrow> bool" where
  "sender_ok s \<longleftrightarrow> window (cwnd s) \<and> uint (ssthresh s) \<le> 2 ^ 24"

lemma window_end_ok:
  assumes "window w" "uint b < 2 ^ 24"
  shows "ok (window_end b w) (\<lambda>e. uint b < uint e \<and> uint e \<le> 2 ^ 25)"
proof -
  define i where "i = uint b"
  have i: "0 \<le> i" "i < 2 ^ 24" using assms(2) by (simp_all add: i_def)
  have b: "f32_of_u32 b = of_int i" using f32_of_u32_exact [of b] assms(2) by (simp only: i_def)
  have "rat_of_int i < rat_of_int (2 ^ 24)" using i(2) by (simp only: of_int_less_iff)
  then have x: "rat_of_int (i + 1) \<le> of_int i + w" "of_int i + w < 2 ^ 25"
    using assms(1) by (auto simp: window_def MAX_WINDOW_def)
  have one: "(1 :: rat) \<le> rat_of_int (i + 1)" using i(1) by simp
  let ?e = "f32 (of_int i + w)"
  have "f32 (of_int (i + 1)) \<le> ?e" using one x(1) by (rule f32_mono)
  then have lo: "rat_of_int (i + 1) \<le> ?e" using f32_exact_int [of "i + 1"] i by simp
  have hi: "?e \<le> 2 ^ 25" using f32_le_twice [of "of_int i + w" 25] one x by simp
  have "0 \<le> ?e" using lo one by linarith
  moreover have "?e < 2 ^ 32" by (rule le_less_trans [OF hi]) simp
  ultimately have "0 \<le> ?e" "?e < 2 ^ 32" by simp_all
  note conv = u32_of_f32_ok [OF this]
  have "i + 1 \<le> floor ?e" "floor ?e \<le> 2 ^ 25" using lo hi by (simp_all add: le_floor_iff floor_le_iff)
  then show ?thesis using conv by (simp add: window_end_def f32_add_def b flip: i_def)
qed

definition same_connection :: "sender \<Rightarrow> sender \<Rightarrow> bool" where
  "same_connection s s' \<longleftrightarrow> pkts s' = pkts s \<and> pkt_num s' = pkt_num s \<and> p_receiver s' = p_receiver s"

lemma retransmit_ok:
  assumes "sender_ok s" "uint acked < 2 ^ 24"
  shows "ok (retransmit s acked) (\<lambda>s'. sender_ok s' \<and> same_connection s s' \<and> timer s' = timer s \<and>
    last_sent s' = acked \<and> last_acked s' = acked \<and> acked < last_available s' \<and>
    uint (last_available s') \<le> 2 ^ 25 \<and> dup_ack_num s' = 1)"
proof -
  have w: "window (cwnd s)" using assms(1) by (simp add: sender_ok_def)
  have "ok (if cwnd s \<le> f32_of_u32 (ssthresh s) then rbind (u32_of_f32 (cwnd s)) (\<lambda>t. Inr (t, 1))
      else rbind (u32_of_f32 (f32_div (cwnd s) 2)) (\<lambda>t. Inr (t, f32_of_u32 (t + DUP_ACK_NUM))))
    (\<lambda>(t, v). uint t \<le> 2 ^ 24 \<and> window v)"
  proof (cases "cwnd s \<le> f32_of_u32 (ssthresh s)")
    case True
    have r: "0 \<le> cwnd s" "cwnd s < 2 ^ 32" using w by (auto simp: window_def MAX_WINDOW_def)
    have "floor (cwnd s) \<le> 2 ^ 24" using w by (simp add: window_def MAX_WINDOW_def floor_le_iff)
    with True u32_of_f32_ok [OF r] window_one show ?thesis by simp
  next
    case False
    define h where "h = f32_div (cwnd s) 2"
    have h: "0 \<le> h" "h \<le> 2 ^ 23" using f32_half [OF w] by (simp_all add: h_def)
    then have r: "0 \<le> h" "h < 2 ^ 32" by simp_all
    note conv = u32_of_f32_ok [OF r]
    have f: "0 \<le> floor h" "floor h \<le> 2 ^ 23" using h by (simp_all add: floor_le_iff)
    have u: "uint (of_int (floor h) + DUP_ACK_NUM :: u32) = floor h + 3"
      using f conv(2) by (simp add: DUP_ACK_NUM_def uint_word_ariths)
    then have "f32_of_u32 (of_int (floor h) + DUP_ACK_NUM) = of_int (floor h + 3)"
      using f32_of_u32_exact [of "of_int (floor h) + DUP_ACK_NUM"] f by simp
    moreover have "window (of_int (floor h + 3))"
      using f by (simp add: window_def MAX_WINDOW_def)
    ultimately show ?thesis using False conv f by (simp add: h_def [symmetric])
  qed
  then obtain t v where t: "(if cwnd s \<le> f32_of_u32 (ssthresh s) then rbind (u32_of_f32 (cwnd s)) (\<lambda>t. Inr (t, 1))
      else rbind (u32_of_f32 (f32_div (cwnd s) 2)) (\<lambda>t. Inr (t, f32_of_u32 (t + DUP_ACK_NUM)))) = Inr (t, v)"
      "uint t \<le> 2 ^ 24" "window v"
    by (rule ok_pairE) blast
  from window_end_ok [OF t(3) assms(2)] obtain e where "window_end acked v = Inr e" "uint acked < uint e" "uint e \<le> 2 ^ 25"
    by (auto simp: ok_iff)
  with t show ?thesis
    by (simp add: retransmit_def sender_ok_def same_connection_def word_less_def)
qed


section \<open>What the pools contain\<close>

text \<open>
  \<open>pool_rep p ids\<close>: the pool \<open>p\<close> holds the workers \<open>ids\<close>, in order, counts them, and has no more than it
  may. The two kinds of pools share their lookup and their removal loop.
\<close>

definition pool_rep :: "pool_t \<Rightarrow> nat list \<Rightarrow> bool" where
  "pool_rep p ids \<longleftrightarrow> repr (workers p) ids \<and> cur_num p = int (length ids) \<and> cur_num p \<le> max_num p"

definition arena_ok :: "'w arena \<Rightarrow> nat list \<Rightarrow> bool" where
  "arena_ok ar ids \<longleftrightarrow> (\<forall>a w. ar_heap ar a = Some w \<longrightarrow> a < ar_brk ar) \<and> (\<forall>a \<in> set ids. \<exists>w. ar_heap ar a = Some w)"

definition worker_at :: "'w arena \<Rightarrow> nat \<Rightarrow> 'w" where
  "worker_at ar a = the (ar_heap ar a)"

lemma arena_bound: "arena_ok ar ids \<Longrightarrow> a \<in> set ids \<Longrightarrow> a < ar_brk ar"
  by (auto simp: arena_ok_def)

lemma arena_okD: "arena_ok ar ids \<Longrightarrow> a \<in> set ids \<Longrightarrow> ar_heap ar a = Some (worker_at ar a)"
  by (auto simp: arena_ok_def worker_at_def)

locale worker_pool =
  fixes peer_of :: "'w \<Rightarrow> nat option"
    and get :: "pool_t cptr \<Rightarrow> 'w arena \<Rightarrow> nat option \<Rightarrow> nat option res"
  assumes get_nothing: "pool = Null \<or> p = None \<Longrightarrow> get pool ar p = Inr None"
    and get_obj: "get (Obj pl) ar (Some x) =
      q_find (workers pl) (\<lambda>b. rbind (deref (ar_heap ar) (Some b)) (\<lambda>w. Inr (peer_of w = Some x)))"
begin

lemma get_find:
  assumes "pool_rep pl ids" "arena_ok ar ids"
  shows "get (Obj pl) ar (Some x) = Inr (List.find (\<lambda>a. peer_of (worker_at ar a) = Some x) ids)"
  unfolding get_obj
  by (rule cq.search_pure) (use assms arena_okD [OF assms(2)] in \<open>auto simp: pool_rep_def\<close>)

lemma get_Some:
  assumes "pool_rep pl ids" "arena_ok ar ids" "get (Obj pl) ar p = Inr (Some a)"
  shows "a \<in> set ids \<and> peer_of (worker_at ar a) = p"
  using assms(3) get_find [OF assms(1,2)] get_nothing [of "Obj pl" p ar] find_SomeD by (cases p) fastforce+

lemma get_None:
  assumes "pool_rep pl ids" "arena_ok ar ids" "get (Obj pl) ar (Some x) = Inr None"
  shows "\<forall>a \<in> set ids. peer_of (worker_at ar a) \<noteq> Some x"
  using assms(3) get_find [OF assms(1,2)] by (auto simp: find_None_iff)

lemma evict:
  assumes "pool_rep pl ids" "arena_ok ar ids" "a \<in> set ids"
  shows "ok (remove_loop dequeue enqueue
      (\<lambda>b. rbind (deref (ar_heap ar) (Some b)) (\<lambda>cur. rbind (deref (ar_heap ar) (Some a)) (\<lambda>w.
         Inr (peer_of cur = peer_of w)))) (nat (cur_num pl)) (workers pl))
    (\<lambda>(found, q). found \<and> pool_rep (pl\<lparr>workers := q, cur_num := cur_num pl - 1\<rparr>)
       (remove_rotated (\<lambda>b. peer_of (worker_at ar b) = peer_of (worker_at ar a)) ids []))"
proof -
  let ?P = "\<lambda>b. peer_of (worker_at ar b) = peer_of (worker_at ar a)"
  have n: "nat (cur_num pl) = length ids" using assms(1) by (simp add: pool_rep_def)
  have "length (remove_rotated ?P ids []) + 1 = length ids"
    using length_remove_rotated [of ids ?P "[]"] assms(3) by auto
  moreover have "ok (remove_loop dequeue enqueue
      (\<lambda>b. rbind (deref (ar_heap ar) (Some b)) (\<lambda>cur. rbind (deref (ar_heap ar) (Some a)) (\<lambda>w.
         Inr (peer_of cur = peer_of w)))) (length ids) (workers pl))
    (\<lambda>(b, q). b = (\<exists>x \<in> set ids. ?P x) \<and> repr q (remove_rotated ?P ids []))"
    by (rule cq.remove_rep)
      (use assms arena_okD [OF assms(2)] in \<open>auto simp: pool_rep_def\<close>)
  ultimately show ?thesis
    unfolding n using assms by (auto simp: pool_rep_def elim!: ok_mono)
qed

end

interpretation senders: worker_pool p_receiver get_sender
  by unfold_locales (auto simp: get_sender_def)

interpretation receivers: worker_pool p_sender get_receiver
  by unfold_locales (auto simp: get_receiver_def)

lemma set_remove_rotated:
  "distinct (map f (xs @ acc)) \<Longrightarrow> a \<in> set xs \<Longrightarrow>
   set (remove_rotated (\<lambda>b. f b = f a) xs acc) = set xs \<union> set acc - {a}"
proof (induction xs arbitrary: "acc")
  case (Cons x xs)
  show ?case
  proof (cases "x = a")
    case True
    with Cons.prems(1) show ?thesis by auto
  next
    case False
    with Cons.prems have "a \<in> set xs" "f x \<noteq> f a" by auto
    with Cons.IH [of "acc @ [x]"] Cons.prems(1) False show ?thesis by auto
  qed
qed simp

section \<open>Connections\<close>

text \<open>\<open>pool_ok\<close>: a well-formed pool with at most one worker for each peer.\<close>

definition pool_ok :: "('w \<Rightarrow> nat option) \<Rightarrow> pool_t cptr \<Rightarrow> 'w arena \<Rightarrow> nat list \<Rightarrow> bool" where
  "pool_ok peer_of pool ar ids \<longleftrightarrow> (\<exists>p. pool = Obj p \<and> pool_rep p ids) \<and> arena_ok ar ids \<and>
     distinct (map (\<lambda>a. peer_of (worker_at ar a)) ids)"

lemma pool_ok_update:
  assumes "pool_ok peer_of pool ar ids" "ar_heap ar a = Some w" "peer_of w' = peer_of w"
  shows "pool_ok peer_of pool (ar\<lparr>ar_heap := (ar_heap ar)(a \<mapsto> w')\<rparr>) ids"
    and "peer_of (worker_at (ar\<lparr>ar_heap := (ar_heap ar)(a \<mapsto> w')\<rparr>) b) = peer_of (worker_at ar b)"
proof -
  show same: "peer_of (worker_at (ar\<lparr>ar_heap := (ar_heap ar)(a \<mapsto> w')\<rparr>) b) = peer_of (worker_at ar b)" for b
    using assms(2,3) by (simp add: worker_at_def)
  have "arena_ok (ar\<lparr>ar_heap := (ar_heap ar)(a \<mapsto> w')\<rparr>) ids"
    using assms(1,2) by (auto simp: pool_ok_def arena_ok_def)
  with assms(1) show "pool_ok peer_of pool (ar\<lparr>ar_heap := (ar_heap ar)(a \<mapsto> w')\<rparr>) ids"
    by (simp add: pool_ok_def same)
qed

lemma find_unique:
  "P a \<Longrightarrow> \<forall>b \<in> set xs. P b \<longrightarrow> b = a \<Longrightarrow> List.find P xs = (if a \<in> set xs then Some a else None)"
proof (induction xs)
  case (Cons x xs)
  then have IH: "List.find P xs = (if a \<in> set xs then Some a else None)" by simp
  show ?case
  proof (cases "P x")
    case True
    with Cons.prems(2) have "x = a" by simp
    with Cons.prems(1) show ?thesis by simp
  next
    case False
    with Cons.prems(1) have "x \<noteq> a" by blast
    with False IH show ?thesis by simp
  qed
qed simp

context worker_pool
begin

lemma get_conn:
  assumes "pool_ok peer_of pool ar ids" "ar_heap ar a = Some w" "peer_of w = Some x"
    and "\<forall>b \<in> set ids. peer_of (worker_at ar b) = Some x \<longrightarrow> b = a"
  shows "get pool ar (Some x) = Inr (if a \<in> set ids then Some a else None)"
proof -
  obtain p where p: "pool = Obj p" "pool_rep p ids" "arena_ok ar ids" using assms(1) by (auto simp: pool_ok_def)
  have "peer_of (worker_at ar a) = Some x" using assms(2,3) by (simp add: worker_at_def)
  with assms(4) have "List.find (\<lambda>b. peer_of (worker_at ar b) = Some x) ids = (if a \<in> set ids then Some a else None)"
    by (intro find_unique)
  with get_find [OF p(2,3)] p(1) show ?thesis by simp
qed

lemma get_update:
  assumes "pool_ok peer_of pool ar ids" "ar_heap ar a = Some w" "peer_of w' = peer_of w"
  shows "get pool (ar\<lparr>ar_heap := (ar_heap ar)(a \<mapsto> w')\<rparr>) x = get pool ar x"
proof (cases x)
  case (Some y)
  obtain p where p: "pool = Obj p" "pool_rep p ids" "arena_ok ar ids" using assms(1) by (auto simp: pool_ok_def)
  note upd = pool_ok_update [OF assms]
  have "arena_ok (ar\<lparr>ar_heap := (ar_heap ar)(a \<mapsto> w')\<rparr>) ids" using upd(1) by (simp add: pool_ok_def)
  from get_find [OF p(2) this] get_find [OF p(2,3)] show ?thesis by (simp add: Some p(1) upd(2))
qed (simp add: get_nothing)

lemma evict_conn:
  assumes "pool_ok peer_of (Obj pl) ar ids" "a \<in> set ids"
  shows "ok (remove_loop dequeue enqueue
      (\<lambda>b. rbind (deref (ar_heap ar) (Some b)) (\<lambda>cur. rbind (deref (ar_heap ar) (Some a)) (\<lambda>w.
         Inr (peer_of cur = peer_of w)))) (nat (cur_num pl)) (workers pl))
    (\<lambda>(found, q). found \<and> (\<exists>ids'. pool_ok peer_of (Obj (pl\<lparr>workers := q, cur_num := cur_num pl - 1\<rparr>)) ar ids' \<and>
       set ids' = set ids - {a}))"
proof -
  let ?f = "\<lambda>b. peer_of (worker_at ar b)"
  let ?ids = "remove_rotated (\<lambda>b. ?f b = ?f a) ids []"
  have pl: "pool_rep pl ids" "arena_ok ar ids" "distinct (map ?f ids)" using assms(1) by (auto simp: pool_ok_def)
  have "set ?ids = set ids - {a}" using set_remove_rotated [of ?f ids "[]" a] pl(3) assms(2) by simp
  moreover have "distinct (map ?f ?ids)" using distinct_remove_rotated [of ?f ids "[]"] pl(3) by simp
  moreover have "arena_ok ar ?ids" using pl(2) calculation(1) by (auto simp: arena_ok_def)
  ultimately have "pool_rep p ?ids \<Longrightarrow> \<exists>ids'. pool_ok peer_of (Obj p) ar ids' \<and> set ids' = set ids - {a}" for p
    unfolding pool_ok_def by blast
  then show ?thesis by (intro ok_mono [OF evict [OF pl(1,2) assms(2)]]) auto
qed

end

lemma remove_sender_ok:
  assumes "pool_ok p_receiver pool ar ids" "a \<in> set ids"
  shows "ok (remove_sender pool ar (Some a)) (\<lambda>(pool', ar').
    ar' = ar\<lparr>ar_heap := (ar_heap ar)(a \<mapsto> stop_timer (worker_at ar a))\<rparr> \<and>
    (\<exists>ids'. pool_ok p_receiver pool' ar' ids' \<and> set ids' = set ids - {a}))"
proof -
  obtain p where p: "pool = Obj p" "arena_ok ar ids" using assms(1) by (auto simp: pool_ok_def)
  have a: "ar_heap ar a = Some (worker_at ar a)" by (rule arena_okD [OF p(2) assms(2)])
  obtain q ids' where q: "remove_loop dequeue enqueue
      (\<lambda>b. rbind (deref (ar_heap ar) (Some b)) (\<lambda>cur. rbind (deref (ar_heap ar) (Some a)) (\<lambda>w.
         Inr (p_receiver cur = p_receiver w)))) (nat (cur_num p)) (workers p) = Inr (True, q)"
      "pool_ok p_receiver (Obj (p\<lparr>workers := q, cur_num := cur_num p - 1\<rparr>)) ar ids'" "set ids' = set ids - {a}"
    using senders.evict_conn [OF assms(1) [unfolded p(1)] assms(2)] by (auto elim!: ok_pairE)
  have "p_receiver (stop_timer w) = p_receiver w" for w by (simp add: stop_timer_def)
  from pool_ok_update(1) [OF q(2) a this] q(1,3) p(1) a show ?thesis
    by (auto simp: remove_sender_def)
qed

lemma remove_receiver_ok:
  assumes "pool_ok p_sender pool ar ids" "a \<in> set ids"
  shows "ok (remove_receiver pool ar (Some a)) (\<lambda>pool'. \<exists>ids'. pool_ok p_sender pool' ar ids' \<and> set ids' = set ids - {a})"
proof -
  obtain p where p: "pool = Obj p" using assms(1) by (auto simp: pool_ok_def)
  obtain q ids' where "remove_loop dequeue enqueue
      (\<lambda>b. rbind (deref (ar_heap ar) (Some b)) (\<lambda>cur. rbind (deref (ar_heap ar) (Some a)) (\<lambda>w.
         Inr (p_sender cur = p_sender w)))) (nat (cur_num p)) (workers p) = Inr (True, q)"
      "pool_ok p_sender (Obj (p\<lparr>workers := q, cur_num := cur_num p - 1\<rparr>)) ar ids'" "set ids' = set ids - {a}"
    using receivers.evict_conn [OF assms(1) [unfolded p(1)] assms(2)] by (auto elim!: ok_pairE)
  then show ?thesis by (auto simp: remove_receiver_def p)
qed

section \<open>Properties\<close>

text \<open>
  Adding and finding senders: below its limit a pool takes the new sender (initial window 1,
  threshold 64, nothing sent), finds it under its peer if no other sender serves that peer, and stays
  well formed; at its limit the request is refused and nothing changes.
\<close>

theorem add_sender_found:
  assumes "pool_rep pool ids" "arena_ok ar ids"
  shows "if cur_num pool \<ge> max_num pool
    then add_sender pool ar p ps num = Inr (None, pool, ar)
    else ok (add_sender pool ar p ps num) (\<lambda>(r, pool', ar'). r = Some (ar_brk ar) \<and>
      pool_rep pool' (ids @ [ar_brk ar]) \<and> arena_ok ar' (ids @ [ar_brk ar]) \<and>
      (\<exists>s. ar_heap ar' (ar_brk ar) = Some s \<and> sender_ok s \<and> pkts s = ps \<and> last_sent s = 0 \<and>
         last_acked s = 0 \<and> last_available s = 1 \<and> p_receiver s = p) \<and>
      (\<forall>x. p = Some x \<and> get_sender (Obj pool) ar p = Inr None \<longrightarrow>
         get_sender (Obj pool') ar' p = Inr (Some (ar_brk ar))))"
proof (cases "cur_num pool \<ge> max_num pool")
  case True
  then show ?thesis by (simp add: add_sender_def)
next
  case False
  let ?a = "ar_brk ar"
  let ?s = "\<lparr>ssthresh = SSTHRESH, cwnd = of_nat CWND, last_sent = 0, last_acked = 0, last_available = of_nat CWND,
    dup_ack_num = 0, pkt_num = of_nat num,
    timer = init_timer \<lparr>running = 0, timer_id = 0, tv_sec = 0, tv_usec = 0\<rparr> 0, pkts = ps, p_receiver = p\<rparr>"
  let ?ar = "\<lparr>ar_heap = (ar_heap ar)(?a \<mapsto> ?s), ar_brk = Suc ?a\<rparr>"
  have s: "sender_ok ?s" using window_one by (simp add: sender_ok_def SSTHRESH_def CWND_def)
  have old: "ar_heap ?ar b = ar_heap ar b" if "b \<in> set ids" for b
    using arena_bound [OF assms(2) that] by simp
  have arena: "arena_ok ?ar (ids @ [?a])"
    using assms(2) by (auto simp: arena_ok_def less_Suc_eq)
  obtain q where q: "enqueue (workers pool) ?a = Inr q" "repr q (ids @ [?a])"
    using cq.rep_enq [of "workers pool" ids ?a] assms(1) by (auto simp: pool_rep_def ok_iff)
  let ?pool = "pool\<lparr>workers := q, cur_num := cur_num pool + 1\<rparr>"
  have pool: "pool_rep ?pool (ids @ [?a])" using q(2) assms(1) False by (simp add: pool_rep_def)
  have "get_sender (Obj ?pool) ?ar (Some x) = Inr (Some ?a)"
    if "p = Some x" "get_sender (Obj pool) ar (Some x) = Inr None" for x
  proof -
    have "\<forall>b \<in> set ids. p_receiver (worker_at ?ar b) \<noteq> Some x"
      using senders.get_None [OF assms that(2)] old by (simp add: worker_at_def)
    then have "List.find (\<lambda>b. p_receiver (worker_at ?ar b) = Some x) ids = None"
      by (simp add: find_None_iff)
    moreover have "p_receiver (worker_at ?ar ?a) = Some x" using that(1) by (simp add: worker_at_def)
    ultimately have "List.find (\<lambda>b. p_receiver (worker_at ?ar b) = Some x) (ids @ [?a]) = Some ?a"
      by (induction ids) (auto split: if_splits)
    then show ?thesis using senders.get_find [OF pool arena] by simp
  qed
  then have "\<forall>x. p = Some x \<and> get_sender (Obj pool) ar p = Inr None \<longrightarrow> get_sender (Obj ?pool) ?ar p = Inr (Some ?a)"
    by blast
  moreover have "add_sender pool ar p ps num = Inr (Some ?a, ?pool, ?ar)"
    using False q(1) by (simp add: add_sender_def Let_def)
  moreover have "\<exists>t. ar_heap ?ar ?a = Some t \<and> sender_ok t \<and> pkts t = ps \<and> last_sent t = 0 \<and> last_acked t = 0 \<and>
      last_available t = 1 \<and> p_receiver t = p"
    using s by (simp add: CWND_def)
  ultimately show ?thesis using False pool arena by (simp only: ok_simps prod.case if_False)
qed

theorem add_sender_found_witness:
  "ok (add_sender \<lparr>max_num = 1, cur_num = 0, workers = init_queue\<rparr> \<lparr>ar_heap = Map.empty, ar_brk = 0\<rparr> (Some 5) [] 0)
    (\<lambda>(r, pool, ar). get_sender (Obj pool) ar (Some 5) = Inr (Some 0))"
proof -
  let ?p = "\<lparr>max_num = 1, cur_num = 0, workers = init_queue\<rparr>" and ?a = "\<lparr>ar_heap = Map.empty, ar_brk = 0\<rparr> :: sender arena"
  have p: "pool_rep ?p []" "arena_ok ?a []" using cq.rep_new by (simp_all add: pool_rep_def arena_ok_def)
  moreover have "get_sender (Obj ?p) ?a (Some 5) = Inr None"
    using senders.get_find [OF p] by simp
  ultimately show ?thesis using add_sender_found [OF p, of "Some 5" "[]" 0] by (auto elim!: ok_mono)
qed

text \<open>
  Removing a sender: if every peer has at most one sender, \<open>remove_sender\<close> takes the given sender
  and only it out of the pool, the pool stays well formed with one worker fewer, its peer is no longer
  found, and the timer of the removed sender is stopped.
\<close>

theorem remove_sender_removes:
  assumes "pool_rep pool ids" "arena_ok ar ids" "distinct (map (\<lambda>a. p_receiver (worker_at ar a)) ids)" "a \<in> set ids"
  shows "ok (remove_sender (Obj pool) ar (Some a)) (\<lambda>(pool', ar'). \<exists>p ids'. pool' = Obj p \<and> pool_rep p ids' \<and>
    arena_ok ar' ids' \<and> set ids' = set ids - {a} \<and> cur_num p = cur_num pool - 1 \<and>
    (\<exists>s. ar_heap ar' a = Some s \<and> \<not> is_running (timer s)) \<and>
    get_sender pool' ar' (p_receiver (worker_at ar a)) = Inr None)"
proof -
  let ?f = "\<lambda>a. p_receiver (worker_at ar a)"
  let ?ids = "remove_rotated (\<lambda>b. ?f b = ?f a) ids []"
  let ?ar = "ar\<lparr>ar_heap := (ar_heap ar)(a \<mapsto> stop_timer (worker_at ar a))\<rparr>"
  have a: "ar_heap ar a = Some (worker_at ar a)" by (rule arena_okD [OF assms(2,4)])
  obtain q where q: "remove_loop dequeue enqueue
      (\<lambda>b. rbind (deref (ar_heap ar) (Some b)) (\<lambda>cur. rbind (deref (ar_heap ar) (Some a)) (\<lambda>w.
         Inr (p_receiver cur = p_receiver w)))) (nat (cur_num pool)) (workers pool) = Inr (True, q)"
      "pool_rep (pool\<lparr>workers := q, cur_num := cur_num pool - 1\<rparr>) ?ids"
    using senders.evict [OF assms(1,2,4)] by (auto elim!: ok_pairE)
  let ?p = "pool\<lparr>workers := q, cur_num := cur_num pool - 1\<rparr>"
  have ids: "set ?ids = set ids - {a}" using set_remove_rotated [of ?f ids "[]" a] assms(3,4) by simp
  have arena: "arena_ok ?ar ?ids" using assms(2) ids arena_bound [OF assms(2,4)] by (auto simp: arena_ok_def)
  have view: "p_receiver (worker_at ?ar b) = ?f b" for b by (simp add: worker_at_def stop_timer_def)
  have "get_sender (Obj ?p) ?ar (?f a) = Inr None"
  proof (cases "?f a")
    case None
    then show ?thesis by (simp add: senders.get_nothing)
  next
    case (Some x)
    have "?f b \<noteq> Some x" if "b \<in> set ?ids" for b
      using that ids assms(3,4) Some by (metis Diff_iff distinct_map inj_onD insertCI)
    then have "List.find (\<lambda>b. p_receiver (worker_at ?ar b) = Some x) ?ids = None"
      unfolding view by (simp add: find_None_iff)
    then show ?thesis using senders.get_find [OF q(2) arena] Some by simp
  qed
  then show ?thesis
    using q a ids arena
    by (auto simp: remove_sender_def is_running_def stop_timer_def intro!: exI [of _ ?ids])
qed

theorem remove_sender_removes_witness:
  "ok (rbind (add_sender \<lparr>max_num = 1, cur_num = 0, workers = init_queue\<rparr> \<lparr>ar_heap = Map.empty, ar_brk = 0\<rparr>
        (Some 5) [] 0) (\<lambda>(r, pool, ar). rbind (remove_sender (Obj pool) ar r) (\<lambda>(pool', ar').
          get_sender pool' ar' (Some 5)))) (\<lambda>r. r = None)"
proof -
  let ?p = "\<lparr>max_num = 1, cur_num = 0, workers = init_queue\<rparr>" and ?a = "\<lparr>ar_heap = Map.empty, ar_brk = 0\<rparr> :: sender arena"
  obtain q where q: "enqueue init_queue (0 :: nat) = Inr q" "repr q [0]"
    using cq.rep_enq [OF cq.rep_new, of "0 :: nat"] by (auto simp: ok_iff)
  let ?s = "\<lparr>ssthresh = SSTHRESH, cwnd = of_nat CWND, last_sent = 0, last_acked = 0, last_available = of_nat CWND,
    dup_ack_num = 0, pkt_num = 0, timer = init_timer \<lparr>running = 0, timer_id = 0, tv_sec = 0, tv_usec = 0\<rparr> 0,
    pkts = [], p_receiver = Some 5\<rparr>"
  let ?pool = "\<lparr>max_num = 1, cur_num = 1, workers = q\<rparr>" and ?ar = "\<lparr>ar_heap = [0 \<mapsto> ?s], ar_brk = Suc 0\<rparr>"
  have "add_sender ?p ?a (Some 5) [] 0 = Inr (Some 0, ?pool, ?ar)"
    using q(1) by (simp add: add_sender_def Let_def)
  moreover have "pool_rep ?pool [0]" "arena_ok ?ar [0]" using q(2) by (simp_all add: pool_rep_def arena_ok_def)
  from remove_sender_removes [OF this, of 0]
  have "ok (remove_sender (Obj ?pool) ?ar (Some 0)) (\<lambda>(pool', ar'). get_sender pool' ar' (Some 5) = Inr None)"
    by (auto simp: worker_at_def elim!: ok_mono)
  ultimately show ?thesis by (auto simp: ok_iff split_beta)
qed

text \<open>
  C37. Losing a packet: \<open>retransmit\<close> goes back to the given acknowledgment, keeps the connection's
  packets and peer, and leaves a congestion window between 1 and \<open>2 ^ 24\<close> that covers at least one
  packet; no conversion between floats and integers is out of range.
\<close>

theorem retransmit_goes_back:
  assumes "sender_ok s" "uint acked < 2 ^ 24"
  shows "ok (retransmit s acked) (\<lambda>s'. sender_ok s' \<and> same_connection s s' \<and> last_sent s' = acked \<and>
    last_acked s' = acked \<and> last_sent s' < last_available s' \<and> 1 \<le> cwnd s' \<and> cwnd s' \<le> 2 ^ 24)"
  by (rule ok_mono [OF retransmit_ok [OF assms]]) (auto simp: sender_ok_def window_def MAX_WINDOW_def)

theorem retransmit_goes_back_witness:
  "ok (retransmit \<lparr>ssthresh = 64, cwnd = 70, last_sent = 12, last_acked = 9, last_available = 79, dup_ack_num = 3,
      pkt_num = 375, timer = \<lparr>running = 1, timer_id = 9, tv_sec = 1, tv_usec = 0\<rparr>, pkts = [], p_receiver = None\<rparr> 9)
    (\<lambda>s. last_sent s = 9)"
  by (rule ok_mono [OF retransmit_goes_back]) (auto simp: sender_ok_def window_def MAX_WINDOW_def)

text \<open>
  C38. Stopping a timer does not cancel it: a timer thread that has read the timer while it ran
  retransmits when its second is over, even if the timer was stopped in between and later
  acknowledgments arrived; it then moves \<open>last_acked\<close> back to the number of the timer.
\<close>

theorem stopped_timer_fires:
  assumes "sender_ok s" "t_start_begin s = Some tid" "uint tid < 2 ^ 24"
  shows "ok (t_start_end (stop_timer (s\<lparr>last_acked := a\<rparr>)) tid) (\<lambda>s'. last_acked s' = tid \<and> last_sent s' = tid)"
proof -
  have "timer_id (timer s) = tid" using assms(2) by (simp add: t_start_begin_def split: if_splits)
  moreover have "sender_ok (stop_timer (s\<lparr>last_acked := a\<rparr>))"
    using assms(1) by (simp add: sender_ok_def stop_timer_def)
  ultimately have "ok (retransmit (stop_timer (s\<lparr>last_acked := a\<rparr>)) tid) (\<lambda>s'. last_acked s' = tid \<and> last_sent s' = tid)"
    by (intro ok_mono [OF retransmit_ok [OF _ assms(3)]]) auto
  then show ?thesis using \<open>timer_id (timer s) = tid\<close> by (simp add: t_start_end_def stop_timer_def)
qed

theorem stopped_timer_fires_witness:
  "ok (t_start_end (stop_timer (\<lparr>ssthresh = 64, cwnd = 2, last_sent = 2, last_acked = 0, last_available = 2, dup_ack_num = 1,
      pkt_num = 375, timer = \<lparr>running = 1, timer_id = 0, tv_sec = 1, tv_usec = 0\<rparr>, pkts = [], p_receiver = None\<rparr>
      \<lparr>last_acked := 1\<rparr>)) 0) (\<lambda>s. last_acked s = 0)"
  by (rule ok_mono [OF stopped_timer_fires])
    (auto simp: sender_ok_def window_def MAX_WINDOW_def t_start_begin_def is_running_def)

end
