(* ===== verification/Handler_C.thy ===== *)
theory Handler_C
  imports Rcv_Send_C
begin

text \<open>
  \<open>handler.c\<close>: what a peer does with packets, and its threads. The global variables of the program are
  the record \<open>handler\<close>; next to them it holds the heaps the pointers refer to, the files, the datagrams
  handed to \<open>spiffy_sendto\<close> so far (\<open>sent\<close>: destination address, port, bytes), and the threads that have
  been started: the sender threads (\<open>new_senders\<close> before they reach their loop), the timer threads (\<open>None\<close> before the thread has read its timer,
  the number it read afterwards) and the receiver threads. Handlers, one round of a thread's loop and
  the two halves of a timer are atomic steps; they interleave in any order. The times in the log are
  not modelled, its lines are a peer number and a window.
\<close>

section \<open>State\<close>

record handler =
  config :: bt_config_t
  down_chunks :: "nat qptr"
  done_chunks :: "nat qptr"
  sender_pool :: "pool_t cptr"
  receiver_pool :: "pool_t cptr"
  log_file :: "(int \<times> int) list cptr"
  chunk_heap :: chunk_mem
  sender_heap :: "sender arena"
  receiver_heap :: "receiver arena"
  fs :: filesystem
  writable :: "byte list \<Rightarrow> bool"
  sent :: "(u32 \<times> u16 \<times> byte list) list"
  new_senders :: "nat list"
  sender_threads :: "nat list"
  timers :: "(nat \<times> u32 option) list"
  receiver_threads :: nat

text \<open>The globals of a program that has just started: static pointers are NULL.\<close>

definition handler_start :: "bt_config_t \<Rightarrow> filesystem \<Rightarrow> (byte list \<Rightarrow> bool) \<Rightarrow> handler" where
  "handler_start c files w = \<lparr>config = c, down_chunks = Null, done_chunks = Null, sender_pool = Null,
     receiver_pool = Null, log_file = Null, chunk_heap = \<lparr>ch_heap = Map.empty, ch_brk = 0\<rparr>,
     sender_heap = \<lparr>ar_heap = Map.empty, ar_brk = 0\<rparr>, receiver_heap = \<lparr>ar_heap = Map.empty, ar_brk = 0\<rparr>,
     fs = files, writable = w, sent = [], new_senders = [], sender_threads = [], timers = [],
     receiver_threads = 0\<rparr>"

section \<open>Sending\<close>

text \<open>
  \<open>convert\<close> swaps the header in place before the datagram leaves and swaps it back behind it, so the
  packet itself does not change.
\<close>

definition send_PKT :: "handler \<Rightarrow> nat option \<Rightarrow> packet option \<Rightarrow> handler res" where
  "send_PKT st peer pkt =
     (if peer = None then Inr st
      else case pkt of
        None \<Rightarrow> Inl Null_Deref
      | Some p \<Rightarrow> rbind (wire_image p) (\<lambda>bytes. rbind (deref (peer_heap (config st)) peer) (\<lambda>pe.
          Inr (st\<lparr>sent := sent st @ [(sin_addr pe, sin_port pe, bytes)]\<rparr>))))"

fun send_to_peers :: "nat \<Rightarrow> handler \<Rightarrow> nat option \<Rightarrow> packet \<Rightarrow> handler res" where
  "send_to_peers fuel st None pkt = Inr st"
| "send_to_peers 0 st (Some a) pkt = Inl Diverges"
| "send_to_peers (Suc k) st (Some a) pkt =
     rbind (deref (peer_heap (config st)) (Some a)) (\<lambda>pe.
     rbind (if peer_id pe \<noteq> identity (config st) then send_PKT st (Some a) (Some pkt) else Inr st) (\<lambda>st'.
     send_to_peers k st' (peer_next pe) pkt))"

fun whohas_loop :: "nat \<Rightarrow> handler \<Rightarrow> packet qptr \<Rightarrow> handler res" where
  "whohas_loop fuel st queue_pkt = rbind (dequeue queue_pkt) (\<lambda>(pkt, q).
     case pkt of
       None \<Rightarrow> Inr st
     | Some p \<Rightarrow> (case fuel of
           0 \<Rightarrow> Inl Diverges
         | Suc k \<Rightarrow> rbind (send_to_peers (peer_brk (config st)) st (peers (config st)) p) (\<lambda>st'.
             whohas_loop k st' q)))"

declare whohas_loop.simps [simp del]

definition queue_size :: "'a qptr \<Rightarrow> nat" where
  "queue_size q = (case q of Obj x \<Rightarrow> nat (q_n x) | _ \<Rightarrow> 0)"

definition process_download :: "machine \<Rightarrow> handler \<Rightarrow> handler res" where
  "process_download m st =
     rbind (init_receiver_pool m (max_conn (config st))) (\<lambda>pool.
     rbind (list_chunks (fs st) (chunk_heap st) (chunk_file (config st))) (\<lambda>(queue_chunk, mem).
     let st1 = st\<lparr>receiver_pool := Obj pool, down_chunks := queue_chunk, done_chunks := init_queue, chunk_heap := mem\<rparr>
     in rbind (chunks2pkts mem queue_chunk WHOHAS) (\<lambda>queue_pkt.
        rbind (whohas_loop (queue_size queue_pkt) st1 queue_pkt) (\<lambda>st2.
        Inr (st2\<lparr>receiver_threads := receiver_threads st2 + 1\<rparr>)))))"

section \<open>Receiving\<close>

definition correct :: "packet \<Rightarrow> bool res" where
  "correct pkt =
     (let h = header pkt
      in if magic_num h \<noteq> MAGIC \<or> version_num h \<noteq> VERSION \<or> packet_type h > pkt_code DENIED \<or>
            packet_type h < pkt_code WHOHAS then Inr False
         else rbind (pkt_parse_type (packet_type h)) (\<lambda>type.
           Inr (\<not> ((type = DATA \<and> (seq_num h \<le> 0 \<or> ack_num h > 0)) \<or>
                  (type = ACK \<and> (seq_num h > 0 \<or> ack_num h < 0)) \<or>
                  (type \<noteq> DATA \<and> type \<noteq> ACK \<and> (seq_num h > 0 \<or> ack_num h > 0))))))"

definition not_correct :: "packet \<Rightarrow> bool res" where
  "not_correct pkt = rbind (correct pkt) (\<lambda>b. Inr (\<not> b))"

definition get_peer :: "bt_config_t \<Rightarrow> u16 \<Rightarrow> nat option res" where
  "get_peer c port = find_peer (peer_brk c) (peer_heap c) (\<lambda>p. sin_port p = port) (peers c)"

text \<open>\<open>free_queue\<close> of a queue of chunks frees the chunk objects, not their queues of holders.\<close>

definition free_chunk_queue :: "chunk_mem \<Rightarrow> nat qptr \<Rightarrow> chunk_mem res" where
  "free_chunk_queue mem q = rbind (free_queue q) (\<lambda>as.
     rbind (free_all (ch_heap mem) as) (\<lambda>h. Inr (mem\<lparr>ch_heap := h\<rparr>)))"

definition process_WHOHAS :: "handler \<Rightarrow> packet \<Rightarrow> nat option \<Rightarrow> handler res" where
  "process_WHOHAS st pkt peer =
     rbind (pkt2chunks (chunk_heap st) pkt WHOHAS) (\<lambda>(who_has, mem1).
     rbind (which_i_have (fs st) mem1 who_has (has_chunk_file (config st))) (\<lambda>(i_have, mem2).
     rbind (is_empty i_have) (\<lambda>e.
     rbind (if i_have \<noteq> Null \<and> \<not> e then
              rbind (chunks2pkts mem2 i_have IHAVE) (\<lambda>pkts.
              rbind (dequeue pkts) (\<lambda>(p, pkts').
              rbind (send_PKT st peer p) (\<lambda>st'.
              rbind (free_queue pkts') (\<lambda>freed.
              rbind (free_chunk_queue mem2 i_have) (\<lambda>mem3. Inr (st', mem3))))))
            else Inr (st, mem2)) (\<lambda>(st', mem3).
     rbind (free_chunk_queue mem3 who_has) (\<lambda>mem4. Inr (st'\<lparr>chunk_heap := mem4\<rparr>))))))"

fun add_holders :: "chunk_mem \<Rightarrow> nat qptr \<Rightarrow> nat list \<Rightarrow> nat option \<Rightarrow> chunk_mem res" where
  "add_holders mem down [] peer = Inr mem"
| "add_holders mem down (a # as) peer =
     rbind (add_holder mem down (Some a) peer) (\<lambda>mem'. add_holders mem' down as peer)"

definition process_IHAVE :: "handler \<Rightarrow> packet \<Rightarrow> nat option \<Rightarrow> handler res" where
  "process_IHAVE st pkt peer =
     rbind (pkt2chunks (chunk_heap st) pkt IHAVE) (\<lambda>(i_have, mem).
     rbind (q_items i_have) (\<lambda>as.
     rbind (add_holders mem (down_chunks st) as peer) (\<lambda>mem'. Inr (st\<lparr>chunk_heap := mem'\<rparr>))))"

definition process_GET :: "machine \<Rightarrow> handler \<Rightarrow> packet \<Rightarrow> nat option \<Rightarrow> handler res" where
  "process_GET m st pkt peer =
     rbind (if sender_pool st = Null
            then rbind (init_sender_pool m (max_conn (config st))) (\<lambda>p. Inr (st\<lparr>sender_pool := Obj p\<rparr>))
            else Inr st) (\<lambda>st1.
     rbind (get_sender (sender_pool st1) (sender_heap st1) peer) (\<lambda>sdr.
     rbind (case sdr of
              None \<Rightarrow> Inr (Some st1)
            | Some a \<Rightarrow> rbind (deref (ar_heap (sender_heap st1)) (Some a)) (\<lambda>s.
                if last_sent s = pkt_num s
                then rbind (remove_sender (sender_pool st1) (sender_heap st1) (Some a)) (\<lambda>(pool, ar).
                       Inr (Some (st1\<lparr>sender_pool := pool, sender_heap := ar\<rparr>)))
                else Inr None)) (\<lambda>go.
     case go of
       None \<Rightarrow> Inr st1
     | Some st2 \<Rightarrow> rbind (obj (sender_pool st2)) (\<lambda>pool.
         if cur_num pool \<ge> max_num pool then
           rbind (make_PKT DENIED 0 0 []) (\<lambda>denied. send_PKT st2 peer (Some denied))
         else
           rbind (get_data_chunk m (fs st2) (chunk_heap st2) (chunk_file (config st2)) pkt) (\<lambda>(chunk, mem).
           rbind (deref (ch_heap mem) chunk) (\<lambda>c.
           rbind (chunk2pkts c) (\<lambda>(ps, num).
           rbind (add_sender pool (sender_heap st2) peer ps num) (\<lambda>(a, pool', ar).
           case a of
             None \<Rightarrow> Inl Null_Deref
           | Some sdr' \<Rightarrow> Inr (st2\<lparr>chunk_heap := mem, sender_pool := Obj pool', sender_heap := ar,
               new_senders := new_senders st2 @ [sdr']\<rparr>)))))))))"

text \<open>
  A DATA packet: the payload is copied to its place in the chunk; \<open>data_size\<close> is an int that becomes a
  \<open>size_t\<close>, so a negative one leaves every buffer.
\<close>

definition store_data :: "chunk_t \<Rightarrow> u32 \<Rightarrow> packet \<Rightarrow> chunk_t res" where
  "store_data c rcvd pkt =
     (let data_size = uint (total_pkt_len (header pkt)) - uint (header_len (header pkt))
      in if data_size < 0 then Inl Out_Of_Bounds
         else rbind (buf_read (pkt_data pkt) 0 (nat data_size)) (\<lambda>src.
              rbind (buf_write (chunk_data c) (unat (rcvd * of_nat DATA_SIZE)) src) (\<lambda>d.
              Inr (c\<lparr>chunk_data := d\<rparr>))))"

definition accept_data :: "handler \<Rightarrow> packet \<Rightarrow> nat \<Rightarrow> handler res" where
  "accept_data st pkt a =
     rbind (deref (ar_heap (receiver_heap st)) (Some a)) (\<lambda>rcvr.
     if seq_num (header pkt) = next_expected rcvr then
       rbind (deref (ch_heap (chunk_heap st)) (r_chunk rcvr)) (\<lambda>c.
       rbind (store_data c (last_rcvd rcvr) pkt) (\<lambda>c'.
       Inr (st\<lparr>chunk_heap := (chunk_heap st)\<lparr>ch_heap := (ch_heap (chunk_heap st))(the (r_chunk rcvr) \<mapsto> c')\<rparr>,
               receiver_heap := (receiver_heap st)\<lparr>ar_heap := (ar_heap (receiver_heap st))(a \<mapsto>
                 rcvr\<lparr>last_rcvd := next_expected rcvr, next_expected := next_expected rcvr + 1\<rparr>)\<rparr>\<rparr>)))
     else Inr st)"

definition finish_chunk :: "machine \<Rightarrow> handler \<Rightarrow> nat \<Rightarrow> receiver \<Rightarrow> handler res" where
  "finish_chunk m st a rcvr =
     rbind (deref (ch_heap (chunk_heap st)) (r_chunk rcvr)) (\<lambda>c.
     rbind (check_chunk m c (chunk_sha1 c)) (\<lambda>good.
     rbind (update_state (chunk_heap st) (down_chunks st) (r_chunk rcvr) (if good then FINISHED else READY)) (\<lambda>mem.
     rbind (remove_receiver (receiver_pool st) (receiver_heap st) (Some a)) (\<lambda>pool.
     Inr (st\<lparr>chunk_heap := mem, receiver_pool := pool\<rparr>)))))"

definition process_DATA :: "machine \<Rightarrow> handler \<Rightarrow> packet \<Rightarrow> nat option \<Rightarrow> handler res" where
  "process_DATA m st pkt peer =
     rbind (get_receiver (receiver_pool st) (receiver_heap st) peer) (\<lambda>r.
     case r of
       None \<Rightarrow> Inr st
     | Some a \<Rightarrow>
         rbind (accept_data st pkt a) (\<lambda>st1.
         rbind (deref (ar_heap (receiver_heap st1)) (Some a)) (\<lambda>rcvr.
         rbind (make_ACK (last_rcvd rcvr)) (\<lambda>ack.
         rbind (send_PKT st1 peer (Some ack)) (\<lambda>st2.
         if last_rcvd rcvr * of_nat DATA_SIZE \<ge> of_nat BT_CHUNK_SIZE
         then finish_chunk m st2 a rcvr else Inr st2)))))"

definition cwnd2log :: "handler \<Rightarrow> nat option \<Rightarrow> rat \<Rightarrow> handler res" where
  "cwnd2log st peer w =
     rbind (deref (peer_heap (config st)) peer) (\<lambda>pe.
     rbind (int_of_f32 w) (\<lambda>cw.
     rbind (obj (log_file st)) (\<lambda>lines.
     Inr (st\<lparr>log_file := Obj (lines @ [(peer_id pe, cw)])\<rparr>))))"

text \<open>
  What an acknowledgment does to the sender: the new sender and whether the window is logged. The sender
  is stored before the log is written.
\<close>

definition ack_window :: "sender \<Rightarrow> u32 \<Rightarrow> (sender \<times> bool) res" where
  "ack_window sdr ack =
     (if ack > last_acked sdr then
        rbind (window_end ack (cwnd sdr)) (\<lambda>avail.
        let s1 = sdr\<lparr>last_acked := ack, last_available := avail, dup_ack_num := 1\<rparr>
        in if cwnd s1 \<le> f32_of_u32 (ssthresh s1)
           then Inr (s1\<lparr>cwnd := f32_add (cwnd s1) 1\<rparr>, True)
           else let grown = f32_add (cwnd s1) (f32_div 1 (cwnd s1))
                in rbind (int_of_f32 (cwnd s1)) (\<lambda>i.
                   Inr (s1\<lparr>cwnd := grown\<rparr>, f32_of_int (i + 1) < grown)))
      else if ack = last_acked sdr then
        let s1 = sdr\<lparr>dup_ack_num := dup_ack_num sdr + 1\<rparr>
        in if dup_ack_num s1 \<ge> DUP_ACK_NUM
           then rbind (retransmit s1 ack) (\<lambda>s2. Inr (s2, True))
           else Inr (s1, False)
      else Inr (sdr, False))"

definition set_sender :: "handler \<Rightarrow> nat \<Rightarrow> sender \<Rightarrow> handler" where
  "set_sender st a s = st\<lparr>sender_heap := (sender_heap st)\<lparr>ar_heap := (ar_heap (sender_heap st))(a \<mapsto> s)\<rparr>\<rparr>"

definition process_ACK :: "handler \<Rightarrow> packet \<Rightarrow> nat option \<Rightarrow> handler res" where
  "process_ACK st pkt peer =
     rbind (get_sender (sender_pool st) (sender_heap st) peer) (\<lambda>sdr.
     case sdr of
       None \<Rightarrow> Inr st
     | Some a \<Rightarrow>
         let ack = ack_num (header pkt)
         in rbind (deref (ar_heap (sender_heap st)) (Some a)) (\<lambda>s.
            if ack \<ge> pkt_num s then
              if last_sent s < pkt_num s then Inr st
              else let st1 = set_sender st a (stop_timer s)
                   in rbind (remove_sender (sender_pool st1) (sender_heap st1) (Some a)) (\<lambda>(pool, ar).
                      Inr (st1\<lparr>sender_pool := pool, sender_heap := ar\<rparr>))
            else rbind (ack_window s ack) (\<lambda>(s', logged).
                 rbind (if logged then cwnd2log (set_sender st a s') (p_receiver s') (cwnd s')
                        else Inr (set_sender st a s')) (\<lambda>st1.
                 Inr (set_sender st1 a (stop_timer s'))))))"

definition process_DENIED :: "handler \<Rightarrow> packet \<Rightarrow> nat option \<Rightarrow> handler res" where
  "process_DENIED st pkt peer = Inr st"

definition process_PKT :: "machine \<Rightarrow> handler \<Rightarrow> packet \<Rightarrow> u16 \<Rightarrow> handler res" where
  "process_PKT m st raw port =
     (let pkt = convert raw HOST
      in rbind (not_correct pkt) (\<lambda>bad.
         if bad then Inr st
         else rbind (get_peer (config st) port) (\<lambda>peer.
              rbind (pkt_parse_type (packet_type (header pkt))) (\<lambda>type.
              case type of
                WHOHAS \<Rightarrow> process_WHOHAS st pkt peer
              | IHAVE \<Rightarrow> process_IHAVE st pkt peer
              | GET \<Rightarrow> process_GET m st pkt peer
              | ACK \<Rightarrow> process_ACK st pkt peer
              | DATA \<Rightarrow> process_DATA m st pkt peer
              | DENIED \<Rightarrow> process_DENIED st pkt peer))))"

section \<open>Threads\<close>

definition run_timer :: "handler \<Rightarrow> nat \<Rightarrow> sender \<Rightarrow> handler" where
  "run_timer st a s =
     (set_sender st a (start_timer (s\<lparr>timer := init_timer (timer s) (last_acked s)\<rparr>)))\<lparr>timers := timers st @ [(a, None)]\<rparr>"

text \<open>
  The sender thread: \<open>sender_enter\<close> is what it does before its loop, \<open>sender_round\<close> one round of the
  loop; the result says whether the loop goes on.
\<close>

definition sender_enter :: "handler \<Rightarrow> nat \<Rightarrow> handler res" where
  "sender_enter st a = rbind (deref (ar_heap (sender_heap st)) (Some a)) (\<lambda>s.
     Inr ((run_timer (if log_file st = Null then st\<lparr>log_file := Obj []\<rparr> else st) a s)
       \<lparr>new_senders := remove1 a (new_senders st), sender_threads := sender_threads st @ [a]\<rparr>))"

definition sender_send :: "handler \<Rightarrow> nat \<Rightarrow> handler res" where
  "sender_send st a =
     rbind (deref (ar_heap (sender_heap st)) (Some a)) (\<lambda>s.
     if last_sent s < last_available s \<and> last_sent s < pkt_num s then
       let st1 = (if last_sent s = last_acked s then run_timer st a s else st)
       in rbind (deref (ar_heap (sender_heap st1)) (Some a)) (\<lambda>s1.
          rbind (bget (pkts s1) (unat (last_sent s1))) (\<lambda>pkt.
          send_PKT (set_sender st1 a (s1\<lparr>last_sent := last_sent s1 + 1\<rparr>)) (p_receiver s1) (Some pkt)))
     else Inr st)"

definition sender_round :: "handler \<Rightarrow> nat \<Rightarrow> (bool \<times> handler) res" where
  "sender_round st a =
     rbind (sender_send st a) (\<lambda>st1.
     rbind (deref (ar_heap (sender_heap st1)) (Some a)) (\<lambda>s.
     if last_acked s \<ge> pkt_num s then
       rbind (if log_file st1 = Null then Inr Null else rbind (obj (log_file st1)) (\<lambda>l. Inr Freed)) (\<lambda>f.
       Inr (False, st1\<lparr>log_file := f, sender_threads := remove1 a (sender_threads st1)\<rparr>))
     else Inr (True, st1)))"

definition timer_begin :: "handler \<Rightarrow> nat \<Rightarrow> handler res" where
  "timer_begin st i = rbind (bget (timers st) i) (\<lambda>(a, t).
     rbind (deref (ar_heap (sender_heap st)) (Some a)) (\<lambda>s.
     case t_start_begin s of
       None \<Rightarrow> Inr (st\<lparr>timers := take i (timers st) @ drop (Suc i) (timers st)\<rparr>)
     | Some tid \<Rightarrow> Inr (st\<lparr>timers := (timers st)[i := (a, Some tid)]\<rparr>)))"

definition timer_end :: "handler \<Rightarrow> nat \<Rightarrow> handler res" where
  "timer_end st i = rbind (bget (timers st) i) (\<lambda>(a, t).
     case t of
       None \<Rightarrow> Inr st
     | Some tid \<Rightarrow> rbind (deref (ar_heap (sender_heap st)) (Some a)) (\<lambda>s.
         rbind (t_start_end s tid) (\<lambda>s'.
         Inr ((set_sender st a s')\<lparr>timers := take i (timers st) @ drop (Suc i) (timers st)\<rparr>))))"

end
