(* ===== verification/Download_C.thy ===== *)
theory Download_C
  imports Handler_C
begin

text \<open>
  The receiver thread of \<open>handler.c\<close>: it looks once a second for a chunk to fetch (\<open>look_at\<close>) and, when
  no chunk is left, writes the file (\<open>chunks2file\<close>).
\<close>

section \<open>Asking for a chunk\<close>

text \<open>The loop over the holders: \<open>peer\<close> is the last one it looked at.\<close>

fun holder_loop :: "pool_t cptr \<Rightarrow> receiver arena \<Rightarrow> nat option \<Rightarrow> nat option list \<Rightarrow> nat option res" where
  "holder_loop pool ar peer [] = Inr peer"
| "holder_loop pool ar peer (h # hs) =
     rbind (get_receiver pool ar h) (\<lambda>r. if r = None then Inr h else holder_loop pool ar h hs)"

text \<open>
  The request: \<open>look_at\<close> converts all 255 characters of the chunk's text (and the byte behind them, the
  padding of the structure, which \<open>list_chunks\<close> cleared) into a block of 20 bytes, modelled with the
  bytes behind the block that nothing uses.
\<close>

definition get_request :: "machine \<Rightarrow> chunk_t \<Rightarrow> packet res" where
  "get_request m c =
     rbind (hex2binary (chunk_sha1 c @ [0]) (length (chunk_sha1 c))
              (map (heap_byte m) [0..<SHA1_HASH_SIZE + heap_slack m])) (\<lambda>bin_sha1. make_GET bin_sha1)"

definition request_chunk :: "machine \<Rightarrow> handler \<Rightarrow> pool_t \<Rightarrow> nat option \<Rightarrow> nat \<Rightarrow> handler res" where
  "request_chunk m st pool peer a =
     rbind (add_receiver pool (receiver_heap st) peer (Some a)) (\<lambda>(r, pool', ar).
     rbind (update_state (chunk_heap st) (down_chunks st) (Some a) DOWNLOADING) (\<lambda>mem.
     rbind (deref (ch_heap mem) (Some a)) (\<lambda>c.
     rbind (get_request m c) (\<lambda>pkt_get.
     send_PKT (st\<lparr>receiver_pool := Obj pool', receiver_heap := ar, chunk_heap := mem\<rparr>) peer (Some pkt_get)))))"

definition look_at :: "machine \<Rightarrow> handler \<Rightarrow> handler res" where
  "look_at m st =
     rbind (scan_chunk_done (chunk_heap st) (down_chunks st) (done_chunks st)) (\<lambda>(down, dn).
     let st1 = st\<lparr>down_chunks := down, done_chunks := dn\<rparr>
     in rbind (obj (receiver_pool st1)) (\<lambda>pool.
        if cur_num pool \<ge> max_num pool then Inr st1
        else rbind (is_empty down) (\<lambda>e.
        if e then Inr st1
        else rbind (choose_chunk_to_download (chunk_heap st1) down) (\<lambda>d.
        case d of
          None \<Rightarrow> Inl Assert_Failed
        | Some a \<Rightarrow>
            rbind (deref (ch_heap (chunk_heap st1)) d) (\<lambda>c.
            rbind (q_items (holders c)) (\<lambda>hs.
            rbind (holder_loop (receiver_pool st1) (receiver_heap st1) None hs) (\<lambda>peer.
            rbind (get_receiver (receiver_pool st1) (receiver_heap st1) peer) (\<lambda>r.
            if r \<noteq> None then Inr st1
            else if peer = None then Inr st1
            else request_chunk m st1 pool peer a))))))))"

section \<open>Writing the file\<close>

definition write_at :: "byte list \<Rightarrow> nat \<Rightarrow> byte list \<Rightarrow> byte list" where
  "write_at out pos d = take pos out @ replicate (pos - length out) 0 @ d @ drop (pos + length d) out"

text \<open>\<open>fseek\<close> to a negative offset fails and leaves the position where it was.\<close>

fun write_loop ::
    "machine \<Rightarrow> nat \<Rightarrow> chunk_mem \<Rightarrow> bt_peer_t heap \<Rightarrow> nat qptr \<Rightarrow> byte list \<Rightarrow> nat \<Rightarrow>
     (chunk_mem \<times> bt_peer_t heap \<times> nat qptr \<times> byte list) res" where
  "write_loop m fuel mem ph q out pos = rbind (obj q) (\<lambda>d.
     if q_n d = 0 then Inr (mem, ph, q, out)
     else case fuel of
       0 \<Rightarrow> Inl Diverges
     | Suc k \<Rightarrow> rbind (dequeue q) (\<lambda>(x, q').
         rbind (deref (ch_heap mem) x) (\<lambda>c.
         rbind (check_chunk m c (chunk_sha1 c)) (\<lambda>good.
         if good then
           rbind (int_mult (chunk_id c) (int BT_CHUNK_SIZE)) (\<lambda>offset.
           let p = (if offset < 0 then pos else nat offset)
           in rbind (free_chunk mem ph x) (\<lambda>(mem', ph').
              write_loop m k mem' ph' q' (write_at out p (chunk_data c)) (p + BT_CHUNK_SIZE)))
         else Inr (mem, ph, q', out)))))"

declare write_loop.simps [simp del]

definition free_ptr :: "'a cptr \<Rightarrow> 'a cptr res" where
  "free_ptr p = (case p of Null \<Rightarrow> Inr Null | Freed \<Rightarrow> Inl Double_Free | Obj x \<Rightarrow> Inr Freed)"

definition chunks2file :: "machine \<Rightarrow> handler \<Rightarrow> handler res" where
  "chunks2file m st =
     rbind (is_empty (down_chunks st)) (\<lambda>e1.
     rbind (if e1 then is_empty (done_chunks st) else Inr True) (\<lambda>e2.
     if e2 then Inr st
     else if \<not> writable st (output_file (config st)) then Inl (Exited 0)
     else
       rbind (write_loop m (queue_size (done_chunks st)) (chunk_heap st) (peer_heap (config st)) (done_chunks st) [] 0)
         (\<lambda>(mem, ph, dn, out).
       rbind (free_ptr (receiver_pool st)) (\<lambda>pool.
       rbind (free_chunk_queue mem (down_chunks st)) (\<lambda>mem1.
       rbind (free_chunk_queue mem1 dn) (\<lambda>mem2.
       Inr (st\<lparr>fs := (fs st)(output_file (config st) \<mapsto> out), receiver_pool := pool, chunk_heap := mem2,
               config := (config st)\<lparr>peer_heap := ph\<rparr>, down_chunks := Freed, done_chunks := Freed\<rparr>)))))))"

section \<open>The receiver thread\<close>

text \<open>One round of \<open>pthread_receiver\<close>; the result says whether the thread goes on.\<close>

definition receiver_round :: "machine \<Rightarrow> handler \<Rightarrow> (bool \<times> handler) res" where
  "receiver_round m st =
     rbind (is_empty (down_chunks st)) (\<lambda>e.
     if e then rbind (chunks2file m st) (\<lambda>st'. Inr (False, st'\<lparr>receiver_threads := receiver_threads st' - 1\<rparr>))
     else rbind (look_at m st) (\<lambda>st'. Inr (True, st')))"

end
