(* ===== verification/Spiffy_C.thy ===== *)
theory Spiffy_C
  imports Packet_C Stdio_C
begin

text \<open>
  \<open>spiffy.c\<close> and \<open>spiffy.h\<close>: the layer that routes every datagram through the simulated network by
  putting a header with source and destination in front of it. Addresses and ports are kept in network
  order, as in \<open>struct sockaddr_in\<close>. The kernel's \<open>sendto\<close> and \<open>recvfrom\<close> appear as what is handed to
  the one and what the other delivers; \<open>getenv\<close> and \<open>inet_aton\<close> are arguments.
\<close>

section \<open>Data\<close>

record spiffy_header =
  sh_ID :: u32
  lSrcAddr :: u32
  lDestAddr :: u32
  lSrcPort :: u16
  lDestPort :: u16

record sockaddr_in =
  sa_inet :: bool
  s_addr :: u32
  s_port :: u16

record spiffy =
  giSpiffyEnabled :: bool
  glNodeID :: u32
  glSrcAddr :: u32
  gsSrcPort :: u16
  gsSpiffyRouter :: sockaddr_in

definition spiffy_start :: spiffy where
  "spiffy_start = \<lparr>giSpiffyEnabled = False, glNodeID = 0, glSrcAddr = 0, gsSrcPort = 0,
     gsSpiffyRouter = \<lparr>sa_inet = False, s_addr = 0, s_port = 0\<rparr>\<rparr>"

definition SPIFFY_HDR :: nat where "SPIFFY_HDR = 16"

definition spiffy_bytes :: "spiffy_header \<Rightarrow> byte list" where
  "spiffy_bytes h = le32 (sh_ID h) @ le32 (lSrcAddr h) @ le32 (lDestAddr h) @ le16 (lSrcPort h) @ le16 (lDestPort h)"

fun spiffy_of_bytes :: "byte list \<Rightarrow> spiffy_header res" where
  "spiffy_of_bytes (a0 # a1 # a2 # a3 # b0 # b1 # b2 # b3 # c0 # c1 # c2 # c3 # d0 # d1 # e0 # e1 # rest) =
     Inr \<lparr>sh_ID = of_le32 a0 a1 a2 a3, lSrcAddr = of_le32 b0 b1 b2 b3, lDestAddr = of_le32 c0 c1 c2 c3,
       lSrcPort = of_le16 d0 d1, lDestPort = of_le16 e0 e1\<rparr>"
| "spiffy_of_bytes _ = Inl Out_Of_Bounds"

section \<open>Operations\<close>

text \<open>
  The datagram \<open>spiffy_sendto\<close> gives to the kernel with its destination, \<open>None\<close> when it gives up; the
  kernel's result \<open>sent\<close> becomes the result of the call.
\<close>

definition spiffy_sendto ::
    "spiffy \<Rightarrow> byte list \<Rightarrow> nat \<Rightarrow> sockaddr_in \<Rightarrow> (sockaddr_in \<times> byte list) option res" where
  "spiffy_sendto sp msg len dest =
     rbind (buf_read msg 0 len) (\<lambda>m.
     if \<not> giSpiffyEnabled sp then Inr (Some (dest, m))
     else if \<not> sa_inet dest then Inr None
     else let s_head = \<lparr>sh_ID = htonl (glNodeID sp), lSrcAddr = glSrcAddr sp, lDestAddr = s_addr dest,
                lSrcPort = gsSrcPort sp, lDestPort = s_port dest\<rparr>
          in Inr (Some (gsSpiffyRouter sp, spiffy_bytes s_head @ m)))"

definition spiffy_sent :: "spiffy \<Rightarrow> int \<Rightarrow> int" where
  "spiffy_sent sp r = (if giSpiffyEnabled sp \<and> r > 0 then r - int SPIFFY_HDR else r)"

text \<open>
  \<open>spiffy_recvfrom\<close> with a buffer \<open>buf\<close> (its old contents) and the datagram the kernel delivers, \<open>None\<close>
  for an error: the result, the buffer and, when it is written, the source. All \<open>size\<close> bytes behind the
  header are copied, whatever the length of the datagram; the allocated block holds junk where the
  datagram did not reach.
\<close>

definition spiffy_recvfrom ::
    "machine \<Rightarrow> spiffy \<Rightarrow> byte list \<Rightarrow> (sockaddr_in \<times> byte list) option \<Rightarrow>
     (int \<times> byte list \<times> sockaddr_in option) res" where
  "spiffy_recvfrom m sp buf dgram =
     (let sz = length buf
      in case dgram of
           None \<Rightarrow> Inr (-1, buf, None)
         | Some (from, d) \<Rightarrow>
             if \<not> giSpiffyEnabled sp then
               let r = take sz d in Inr (int (length r), r @ drop (length r) buf, Some from)
             else
               let r = take (sz + SPIFFY_HDR) d;
                   newbuf = r @ map (heap_byte m) [length r..<sz + SPIFFY_HDR]
               in if r = [] then Inr (0, buf, None)
                  else rbind (spiffy_of_bytes newbuf) (\<lambda>h.
                    Inr (int (length r) - int SPIFFY_HDR, drop SPIFFY_HDR newbuf,
                         Some \<lparr>sa_inet = True, s_addr = lSrcAddr h, s_port = lSrcPort h\<rparr>)))"

definition spiffy_init ::
    "(byte list \<Rightarrow> u32 option) \<Rightarrow> byte list option \<Rightarrow> spiffy \<Rightarrow> int \<Rightarrow> sockaddr_in \<Rightarrow> int \<times> spiffy" where
  "spiffy_init inet_aton env sp node addr =
     (case env of
        None \<Rightarrow> (1, sp)
      | Some name \<Rightarrow>
          if 58 \<notin> set name then (-1, sp)
          else let host = takeWhile (\<lambda>c. c \<noteq> 58) name;
                   port = htons (word_of_int (atoi (drop (length host + 1) name)));
                   sp1 = sp\<lparr>gsSpiffyRouter := (gsSpiffyRouter sp)\<lparr>s_port := port\<rparr>\<rparr>
               in case inet_aton host of
                    None \<Rightarrow> (-1, sp1)
                  | Some a \<Rightarrow> (0, sp1\<lparr>gsSpiffyRouter := (gsSpiffyRouter sp1)\<lparr>s_addr := a\<rparr>,
                      giSpiffyEnabled := True, glNodeID := word_of_int node, glSrcAddr := s_addr addr,
                      gsSrcPort := s_port addr\<rparr>))"

section \<open>Properties\<close>

lemma length_spiffy_bytes [simp]: "length (spiffy_bytes h) = 16"
  by (simp add: spiffy_bytes_def)

lemma spiffy_of_spiffy_bytes: "spiffy_of_bytes (spiffy_bytes h @ d) = Inr h"
  by (simp add: spiffy_bytes_def le16_def le32_def)

text \<open>
  C39. A datagram goes through the simulated network unchanged: sent to the router with the header in
  front and received by a peer that also uses the network, it arrives with its length, its bytes (and
  junk behind them) and the sender's address and port, whichever node relayed it.
\<close>

theorem spiffy_roundtrip:
  assumes "giSpiffyEnabled sp" "giSpiffyEnabled sp'" "sa_inet dest" "len \<le> length msg" "len \<le> length buf"
  shows "ok (rbind (spiffy_sendto sp msg len dest) (\<lambda>out. spiffy_recvfrom m sp' buf (map_option (\<lambda>(hop, d). (relay, d)) out)))
    (\<lambda>(r, buf', from). r = int len \<and> length buf' = length buf \<and> take len buf' = take len msg \<and>
       from = Some \<lparr>sa_inet = True, s_addr = glSrcAddr sp, s_port = gsSrcPort sp\<rparr>)"
proof -
  let ?h = "\<lparr>sh_ID = htonl (glNodeID sp), lSrcAddr = glSrcAddr sp, lDestAddr = s_addr dest,
    lSrcPort = gsSrcPort sp, lDestPort = s_port dest\<rparr>"
  have len: "take (length buf + SPIFFY_HDR) (spiffy_bytes ?h @ take len msg) = spiffy_bytes ?h @ take len msg"
    using assms(5) by (simp add: SPIFFY_HDR_def)
  have ne: "spiffy_bytes ?h \<noteq> []" by (simp add: spiffy_bytes_def le32_def)
  show ?thesis
    using assms len ne
    by (simp add: spiffy_sendto_def buf_read_def spiffy_recvfrom_def Let_def spiffy_of_spiffy_bytes min_absorb2)
      (simp add: SPIFFY_HDR_def)
qed

theorem spiffy_roundtrip_witness:
  "ok (rbind (spiffy_sendto (spiffy_start\<lparr>giSpiffyEnabled := True, glSrcAddr := 9, gsSrcPort := 7\<rparr>) [1, 2, 3] 2
        \<lparr>sa_inet = True, s_addr = 5, s_port = 6\<rparr>) (\<lambda>out. spiffy_recvfrom
        \<lparr>stack_byte = (\<lambda>i. 0), heap_byte = (\<lambda>i. 0), literal_tail = [], frame_slack = 0, heap_slack = 0\<rparr>
        (spiffy_start\<lparr>giSpiffyEnabled := True\<rparr>) [0, 0, 0, 0]
        (map_option (\<lambda>(hop, d). (\<lparr>sa_inet = True, s_addr = 1, s_port = 1\<rparr>, d)) out)))
    (\<lambda>(r, buf, from). r = 2 \<and> take 2 buf = [1, 2])"
  by (rule ok_mono [OF spiffy_roundtrip]) auto

end
