(* ===== verification/Input_Buffer_C.thy ===== *)
theory Input_Buffer_C
  imports Stdio_C
begin

text \<open>
  \<open>input_buffer.c\<close> and \<open>input_buffer.h\<close>: the buffer that collects what the user types and passes every
  complete line to a callback. The callback is a parameter that threads a state; \<open>data\<close> is what the file
  descriptor has to offer, the empty list at the end of the file or for an error. Allocation succeeds. The
  loop is described for every buffer with a NUL at its end: which lines it passes on and what it leaves in the
  buffer, the stale bytes behind the text included.
\<close>

section \<open>Data and operations\<close>

definition USERBUF_SIZE :: nat where "USERBUF_SIZE = 8191"

record user_iobuf =
  ub_buf :: "byte list"
  ub_cur :: u32

definition create_userbuf :: user_iobuf where
  "create_userbuf = \<lparr>ub_buf = replicate (USERBUF_SIZE + 1) 0, ub_cur = 0\<rparr>"

text \<open>
  The loop over the lines. \<open>strchr\<close> stops at the first NUL; without one it leaves the buffer. Every
  round of the loop moves the NUL it stops at to the left, so as much fuel as the buffer has bytes is
  enough.
\<close>

fun line_loop ::
    "nat \<Rightarrow> (byte list \<Rightarrow> 's \<Rightarrow> 's res) \<Rightarrow> byte list \<Rightarrow> u32 \<Rightarrow> 's \<Rightarrow> (user_iobuf \<times> 's) res" where
  "line_loop fuel handle_line buf cur s =
     (if newline \<notin> set (c_string buf)
      then if 0 \<in> set buf then Inr (\<lparr>ub_buf = buf, ub_cur = cur\<rparr>, s) else Inl Out_Of_Bounds
      else case fuel of
        0 \<Rightarrow> Inl Diverges
      | Suc n \<Rightarrow>
          let k = length (takeWhile (\<lambda>c. c \<noteq> newline) buf); buf1 = buf[k := 0]
          in rbind (handle_line (c_string buf1) s) (\<lambda>s'.
             rbind (buf_read buf1 (k + 1) (USERBUF_SIZE - k)) (\<lambda>moved.
             rbind (buf_write buf1 0 moved) (\<lambda>buf2.
             line_loop n handle_line buf2 (cur - of_nat (k + 1)) s'))))"

declare line_loop.simps [simp del]

definition process_user_input ::
    "(byte list \<Rightarrow> 's \<Rightarrow> 's res) \<Rightarrow> byte list \<Rightarrow> user_iobuf \<Rightarrow> 's \<Rightarrow> (user_iobuf \<times> 's) res" where
  "process_user_input handle_line data userbuf s =
     (if ub_cur userbuf \<ge> of_nat (USERBUF_SIZE - 1) then Inl (Exited (-1))
      else let r = take (USERBUF_SIZE - unat (ub_cur userbuf)) data
           in rbind (buf_write (ub_buf userbuf) (unat (ub_cur userbuf)) r) (\<lambda>buf.
              line_loop (length buf) handle_line buf (ub_cur userbuf + of_nat (length r)) s))"

section \<open>Specification\<close>

text \<open>The complete lines of a text, and what is left behind the last of them.\<close>

fun lines_from :: "byte list \<Rightarrow> byte list \<Rightarrow> byte list list \<times> byte list" where
  "lines_from line [] = ([], line)"
| "lines_from line (c # cs) =
     (if c = newline then (let (ls, rest) = lines_from [] cs in (line # ls, rest)) else lines_from (line @ [c]) cs)"

definition lines_of :: "byte list \<Rightarrow> byte list list \<times> byte list" where
  "lines_of txt = lines_from [] txt"

fun run_lines :: "(byte list \<Rightarrow> 's \<Rightarrow> 's res) \<Rightarrow> byte list list \<Rightarrow> 's \<Rightarrow> 's res" where
  "run_lines h [] s = Inr s"
| "run_lines h (l # ls) s = rbind (h l s) (run_lines h ls)"

text \<open>The buffer that holds the text \<open>t\<close> and nothing else.\<close>

definition held :: "byte list \<Rightarrow> user_iobuf" where
  "held t = \<lparr>ub_buf = t @ replicate (USERBUF_SIZE + 1 - length t) 0, ub_cur = of_nat (length t)\<rparr>"

lemma lines_from_no_newline: "newline \<notin> set t \<Longrightarrow> lines_from l t = ([], l @ t)"
  by (induction t arbitrary: l) auto

lemma lines_from_split:
  "newline \<notin> set l \<Longrightarrow> lines_from a (l @ newline # t) = ((a @ l) # fst (lines_of t), snd (lines_of t))"
  by (induction l arbitrary: a) (auto simp: lines_of_def split: prod.splits)

lemma lines_of_no_newline: "newline \<notin> set t \<Longrightarrow> lines_of t = ([], t)"
  by (simp add: lines_of_def lines_from_no_newline)

lemma lines_of_split:
  "newline \<notin> set l \<Longrightarrow> lines_of (l @ newline # t) = (l # fst (lines_of t), snd (lines_of t))"
  using lines_from_split [of l "[]" t] by (simp add: lines_of_def)

lemma c_string_padded: "0 \<notin> set t \<Longrightarrow> c_string (t @ replicate (Suc n) 0) = t"
  by (simp add: c_string_no_nul)

lemma create_userbuf_held: "create_userbuf = held []"
  by (simp add: held_def create_userbuf_def)

lemma split_first_newline:
  assumes "newline \<in> set t"
  obtains l r where "t = l @ newline # r" "newline \<notin> set l"
  using split_list_first [OF assms] by auto

section \<open>The buffer under the loop\<close>

text \<open>Every buffer of the program ends with a NUL, which no call overwrites.\<close>

definition userbuf_shape :: "byte list \<Rightarrow> bool" where
  "userbuf_shape b \<longleftrightarrow> length b = USERBUF_SIZE + 1 \<and> b ! USERBUF_SIZE = 0"

lemma userbuf_shape_create: "userbuf_shape (ub_buf create_userbuf)"
  by (simp add: userbuf_shape_def create_userbuf_def del: replicate.simps)

lemma userbuf_write:
  assumes "userbuf_shape b" "off + length r \<le> USERBUF_SIZE"
  shows "\<exists>b'. buf_write b off r = Inr b' \<and> userbuf_shape b'"
  using assms by (auto simp: buf_write_def userbuf_shape_def nth_append)

text \<open>A round of the loop: the text behind position \<open>k\<close> moves to the front.\<close>

definition shift_line :: "byte list \<Rightarrow> nat \<Rightarrow> byte list" where
  "shift_line b k = drop (k + 1) b @ drop (USERBUF_SIZE - k) (b[k := 0])"

lemma shift_line_run:
  assumes "length b = USERBUF_SIZE + 1" "k \<le> USERBUF_SIZE"
  shows "buf_read (b[k := 0]) (k + 1) (USERBUF_SIZE - k) = Inr (drop (k + 1) b)"
    "buf_write (b[k := 0]) 0 (drop (k + 1) b) = Inr (shift_line b k)"
  using assms by (simp_all add: buf_read_def buf_write_def shift_line_def)

lemma shift_line_shape:
  assumes "userbuf_shape b" "k < USERBUF_SIZE"
  shows "userbuf_shape (shift_line b k)"
  using assms by (auto simp: userbuf_shape_def shift_line_def nth_append nth_list_update)

lemma line_loop_done: "userbuf_shape b \<Longrightarrow> newline \<notin> set (c_string b) \<Longrightarrow>
  line_loop fuel h b cur s = Inr (\<lparr>ub_buf = b, ub_cur = cur\<rparr>, s)"
  using nth_mem [of USERBUF_SIZE b] by (subst line_loop.simps) (auto simp: userbuf_shape_def)

lemma line_loop_step:
  assumes "b = l @ newline # r @ 0 # w" "length b = USERBUF_SIZE + 1" "newline \<notin> set l" "0 \<notin> set (l @ r)"
  shows "c_string (shift_line b (length l)) = r"
    and "line_loop (Suc n) h b cur s =
      rbind (h l s) (\<lambda>s'. line_loop n h (shift_line b (length l)) (cur - of_nat (length l + 1)) s')"
proof -
  have "0 \<notin> set (l @ newline # r)" using assms(4) by (simp add: newline_def)
  from c_string_no_nul [OF this, of w] have c: "c_string b = l @ newline # r" by (simp add: assms(1))
  have k: "takeWhile (\<lambda>c. c \<noteq> newline) b = l"
    using assms(1,3) by (simp add: takeWhile_tail) (metis takeWhile_eq_all_conv)
  have l: "c_string (b[length l := 0]) = l" using assms(1,4) by (simp add: c_string_no_nul)
  have "length l \<le> USERBUF_SIZE" using assms(1,2) by simp
  note mv = shift_line_run [OF assms(2) this]
  show "line_loop (Suc n) h b cur s =
      rbind (h l s) (\<lambda>s'. line_loop n h (shift_line b (length l)) (cur - of_nat (length l + 1)) s')"
    by (subst line_loop.simps) (simp only: c k l mv rbind_simps Let_def, simp)
  show "c_string (shift_line b (length l)) = r"
    using assms(4) by (simp add: shift_line_def assms(1) c_string_no_nul)
qed

text \<open>The buffer after the lines \<open>ls\<close> have been taken off its front.\<close>

definition shift_lines :: "byte list \<Rightarrow> byte list list \<Rightarrow> byte list" where
  "shift_lines b ls = foldl (\<lambda>b l. shift_line b (length l)) b ls"

lemma c_string_split: "0 \<in> set b \<Longrightarrow> \<exists>w. b = c_string b @ 0 # w"
  unfolding c_string_def
  by (metis (mono_tags, lifting) dropWhile_eq_Cons_conv dropWhile_eq_Nil_conv list.exhaust takeWhile_dropWhile_id)

lemma line_loop_lines:
  assumes "userbuf_shape b" "length (c_string b) \<le> fuel" "lines_of (c_string b) = (ls, rest)"
  shows "userbuf_shape (shift_lines b ls) \<and> c_string (shift_lines b ls) = rest \<and> length rest \<le> length (c_string b) \<and>
    line_loop fuel h b cur s = rbind (run_lines h ls s) (\<lambda>s'.
      Inr (\<lparr>ub_buf = shift_lines b ls, ub_cur = cur - of_nat (length (c_string b) - length rest)\<rparr>, s'))"
  using assms
proof (induction fuel arbitrary: b cur s ls)
  case 0
  then show ?case using line_loop_done [OF 0(1), of 0 h cur s] by (simp add: lines_of_no_newline shift_lines_def)
next
  case (Suc n)
  show ?case
  proof (cases "newline \<in> set (c_string b)")
    case False
    with Suc.prems line_loop_done [of b "Suc n" h cur s] show ?thesis by (auto simp: lines_of_no_newline shift_lines_def)
  next
    case True
    then obtain l r where t: "c_string b = l @ newline # r" "newline \<notin> set l" by (rule split_first_newline)
    have len: "length b = USERBUF_SIZE + 1" using Suc.prems(1) by (simp add: userbuf_shape_def)
    have "0 \<in> set b" using Suc.prems(1) nth_mem [of USERBUF_SIZE b] by (simp add: userbuf_shape_def)
    from c_string_split [OF this] obtain w where b: "b = l @ newline # r @ 0 # w" using t(1) by auto
    have "0 \<notin> set (c_string b)" by (rule nul_notin_c_string)
    then have nul: "0 \<notin> set (l @ r)" using t(1) by simp
    note step = line_loop_step [OF b len t(2) nul]
    have k: "length l < USERBUF_SIZE" using b len by simp
    obtain ls' where ls: "lines_of r = (ls', rest)" "ls = l # ls'"
      using Suc.prems(3) lines_of_split [OF t(2), of r] t(1) by (metis prod.collapse prod.inject)
    let ?b = "shift_line b (length l)"
    have fit: "length (c_string ?b) \<le> n" "lines_of (c_string ?b) = (ls', rest)" using Suc.prems(2) ls(1) t(1) step(1) by auto
    have shift: "shift_lines b ls = shift_lines ?b ls'" by (simp add: shift_lines_def ls(2))
    from Suc.IH [OF shift_line_shape [OF Suc.prems(1) k] fit] step(1)
    have IH: "userbuf_shape (shift_lines ?b ls') \<and> c_string (shift_lines ?b ls') = rest \<and> length rest \<le> length r"
        "line_loop n h ?b cur s = rbind (run_lines h ls' s) (\<lambda>s'.
          Inr (\<lparr>ub_buf = shift_lines ?b ls', ub_cur = cur - of_nat (length r - length rest)\<rparr>, s'))" for cur s
      by auto
    have "length (c_string b) = length l + 1 + length r" "length rest \<le> length r" using IH(1) t(1) by simp_all
    then have "length l + 1 + (length r - length rest) = length (c_string b) - length rest" by linarith
    then have "cur - of_nat (length l + 1) - of_nat (length r - length rest) =
        (cur - of_nat (length (c_string b) - length rest) :: u32)"
      by (metis diff_diff_eq of_nat_add)
    then have "line_loop (Suc n) h b cur s = rbind (run_lines h ls s) (\<lambda>s'.
        Inr (\<lparr>ub_buf = shift_lines b ls, ub_cur = cur - of_nat (length (c_string b) - length rest)\<rparr>, s'))"
      unfolding step(2) IH(2) shift unfolding ls(2) run_lines.simps rbind_assoc by (simp only:)
    then show ?thesis using IH(1) t(1) by (simp add: shift)
  qed
qed

text \<open>The same loop on a buffer with nothing behind its text, as long as its text fills at most half of it.\<close>

lemma shift_line_clean:
  assumes "length l + 1 + length t + p = USERBUF_SIZE + 1" "length l < p"
  shows "shift_line ((l @ newline # t) @ replicate p 0) (length l) = t @ replicate (length l + 1 + p) 0"
proof -
  let ?b = "l @ 0 # t @ replicate p (0 :: byte)"
  have "?b = (l @ 0 # t @ replicate (p - length l - 1) 0) @ replicate (length l + 1) (0 :: byte)"
    using assms(2) by (simp flip: replicate_add replicate_Suc)
  moreover have "length (l @ 0 # t @ replicate (p - length l - 1) (0 :: byte)) = USERBUF_SIZE - length l"
    using assms by simp
  ultimately have "drop (USERBUF_SIZE - length l) ?b = replicate (length l + 1) 0" by (metis append_eq_conv_conj)
  moreover have "((l @ newline # t) @ replicate p 0)[length l := 0] = ?b" by simp
  moreover have "drop (length l + 1) ((l @ newline # t) @ replicate p 0) = t @ replicate p 0" by simp
  ultimately show ?thesis
    unfolding shift_line_def by (simp only: append_assoc replicate_add [symmetric]) (simp only: add.commute)
qed

lemma shift_lines_clean:
  assumes "length t + p = USERBUF_SIZE + 1" "length t \<le> p"
  shows "shift_lines (t @ replicate p 0) (fst (lines_of t)) = ub_buf (held (snd (lines_of t)))"
  using assms
proof (induction "length t" arbitrary: t p rule: less_induct)
  case less
  have p: "p = USERBUF_SIZE + 1 - length t" using less.prems by simp
  show ?case
  proof (cases "newline \<in> set t")
    case False
    then show ?thesis by (simp add: lines_of_no_newline held_def shift_lines_def p)
  next
    case True
    then obtain l r where t: "t = l @ newline # r" "newline \<notin> set l" by (rule split_first_newline)
    have "shift_lines (r @ replicate (length l + 1 + p) 0) (fst (lines_of r)) = ub_buf (held (snd (lines_of r)))"
      by (rule less.hyps) (use less.prems t in auto)
    moreover have "shift_line (t @ replicate p 0) (length l) = r @ replicate (length l + 1 + p) 0"
      unfolding t(1) by (rule shift_line_clean) (use less.prems t in auto)
    ultimately show ?thesis unfolding t(1) lines_of_split [OF t(2)] shift_lines_def by simp
  qed
qed

text \<open>What every call of the callback preserves, the whole loop preserves.\<close>

lemma line_loop_inv:
  assumes "\<And>l s s'. P s \<Longrightarrow> h l s = Inr s' \<Longrightarrow> P s'"
  shows "P s \<Longrightarrow> line_loop fuel h buf cur s = Inr (ub, s') \<Longrightarrow> P s'"
proof (induction fuel arbitrary: buf cur s)
  case 0
  then show ?case unfolding line_loop.simps [of 0] by (auto split: if_splits)
next
  case (Suc n)
  from Suc.prems show ?case
    unfolding line_loop.simps [of "Suc n"]
    by (auto simp: rbind_Inr_iff Let_def intro: Suc.IH assms split: if_splits)
qed

lemma process_user_input_inv:
  assumes "\<And>l s s'. P s \<Longrightarrow> h l s = Inr s' \<Longrightarrow> P s'" "P s" "process_user_input h data ub s = Inr (ub', s')"
  shows "P s'"
  using assms(3) line_loop_inv [of P h, OF assms(1,2)]
  by (auto simp: process_user_input_def Let_def rbind_Inr_iff split: if_splits)

section \<open>Properties\<close>

text \<open>
  C40. Lines typed by the user. A call on a buffer with fewer than 8190 bytes in use reads what fits, and then
  passes the complete lines of the string in the buffer - up to its first NUL - to the callback, once, in order
  and without their newlines; the unfinished line is left at the front of the buffer with a NUL behind it,
  and \<open>cur\<close> goes back by what was passed on. The call ends early only if the callback fails; with 8190
  bytes or more in use the program ends. If the buffer held the bytes \<open>t\<close> and nothing else and no NUL is
  typed, that string is \<open>t\<close> followed by what was read, and if it has at most 4096 bytes the buffer holds
  the unfinished line and nothing else. With more than 4096 bytes the rounds of the loop leave copies of
  what was passed on behind the NUL, which a later call may take for text that was typed: the witness
  has a line that nobody finished, and \<open>cur\<close> below 0, which ends the program at the next call.
\<close>

theorem user_lines_handled:
  assumes "userbuf_shape (ub_buf ub)" "cur = unat (ub_cur ub)" "r = take (USERBUF_SIZE - cur) data"
    and "b = take cur (ub_buf ub) @ r @ drop (cur + length r) (ub_buf ub)" "lines_of (c_string b) = (ls, rest)"
  shows "if cur \<ge> USERBUF_SIZE - 1 then process_user_input h data ub s = Inl (Exited (-1))
    else \<exists>ub'. process_user_input h data ub s = rbind (run_lines h ls s) (\<lambda>s'. Inr (ub', s')) \<and>
      ub_buf ub' = shift_lines b ls \<and> userbuf_shape (ub_buf ub') \<and> c_string (ub_buf ub') = rest \<and>
      ub_cur ub' = ub_cur ub + of_nat (length r) - of_nat (length (c_string b) - length rest) \<and>
      (ub = held t \<and> 0 \<notin> set (t @ data) \<longrightarrow> c_string b = t @ r \<and> ub_cur ub' = of_nat (length rest) \<and>
        (length (t @ r) \<le> 4096 \<longrightarrow> ub' = held rest))"
proof (cases "cur \<ge> USERBUF_SIZE - 1")
  case True
  then have "ub_cur ub \<ge> of_nat (USERBUF_SIZE - 1)" using assms(2) by (simp add: word_le_nat_alt USERBUF_SIZE_def)
  with True show ?thesis by (simp add: process_user_input_def)
next
  case False
  let ?n = "length (c_string b) - length rest"
  let ?ub = "\<lparr>ub_buf = shift_lines b ls, ub_cur = ub_cur ub + of_nat (length r) - of_nat ?n\<rparr>"
  have c: "\<not> ub_cur ub \<ge> of_nat (USERBUF_SIZE - 1)" using False assms(2) by (simp add: word_le_nat_alt USERBUF_SIZE_def)
  have fits: "cur + length r \<le> USERBUF_SIZE" using False assms(3) by simp
  with userbuf_write [OF assms(1) fits] assms(1,4) have w: "buf_write (ub_buf ub) cur r = Inr b" "userbuf_shape b"
    by (simp_all add: buf_write_def userbuf_shape_def)
  note run = line_loop_lines [OF w(2) length_c_string assms(5)]
  have "process_user_input h data ub s = rbind (run_lines h ls s) (\<lambda>s'. Inr (?ub, s'))"
    unfolding process_user_input_def if_not_P [OF c] Let_def assms(2,3) [symmetric] w(1) rbind_simps
    using run [of h _ s] by blast
  moreover have "c_string b = t @ r \<and> ub_cur ?ub = of_nat (length rest) \<and> (length (t @ r) \<le> 4096 \<longrightarrow> ?ub = held rest)"
    if t: "ub = held t" "0 \<notin> set (t @ data)"
  proof -
    have lt: "length t \<le> USERBUF_SIZE + 1" "ub_cur ub = of_nat (length t)"
      using assms(1) t(1) by (simp_all add: userbuf_shape_def held_def)
    then have cur: "cur = length t" using assms(2) by (simp add: USERBUF_SIZE_def unat_of_nat take_bit_nat_eq_self)
    let ?p = "USERBUF_SIZE + 1 - length (t @ r)"
    have b: "b = (t @ r) @ replicate ?p 0" using assms(4) t(1) by (simp add: held_def cur)
    have nul: "0 \<notin> set (t @ r)" using t(2) assms(3) by (auto dest: in_set_takeD)
    have "Suc (?p - 1) = ?p" using fits by (simp add: cur)
    with c_string_padded [OF nul, of "?p - 1"] have s: "c_string b = t @ r" unfolding b by (simp only:)
    have le: "length rest \<le> length (t @ r)" using run s by metis
    have k: "ub_cur ?ub = of_nat (length rest)" using le by (simp add: lt(2) s of_nat_diff)
    have "?ub = held rest" if "length (t @ r) \<le> 4096"
    proof -
      have "length (t @ r) + ?p = USERBUF_SIZE + 1" "length (t @ r) \<le> ?p" using that by (simp_all add: USERBUF_SIZE_def)
      moreover have "lines_of (t @ r) = (ls, rest)" using assms(5) unfolding s .
      ultimately have "shift_lines b ls = ub_buf (held rest)"
        using shift_lines_clean [of "t @ r" ?p] unfolding b by simp
      then show ?thesis using k by (simp add: held_def)
    qed
    with s k show ?thesis by blast
  qed
  moreover have "userbuf_shape (shift_lines b ls) \<and> c_string (shift_lines b ls) = rest" using run [of h 0 s] by blast
  ultimately show ?thesis using False by (intro if_not_P [THEN iffD2] exI [of _ ?ub]) auto
qed

text \<open>A line of 5000 bytes, a line of one byte and then 4999 bytes without a newline.\<close>

definition demo_keep :: "byte list \<Rightarrow> byte list list \<Rightarrow> byte list list res" where
  "demo_keep l ls = Inr (ls @ [l])"

definition demo_typed :: "byte list" where
  "demo_typed = replicate 5000 97 @ newline # [98] @ newline # []"

definition demo_stale :: "byte list" where
  "demo_stale = replicate 3189 0 @ replicate 1809 97 @ 0 # [98] @ newline # replicate 3191 0"

lemma demo_typed_lines: "lines_of demo_typed = ([replicate 5000 97, [98]], [])" "0 \<notin> set demo_typed" "length demo_typed = 5003"
proof -
  have "newline \<notin> set (replicate 5000 97)" "newline \<notin> set [98]" by (simp_all add: newline_def)
  from lines_of_split [OF this(1), of "[98] @ newline # []"] lines_of_split [OF this(2), of "[]"]
  show "lines_of demo_typed = ([replicate 5000 97, [98]], [])" by (simp add: demo_typed_def lines_of_no_newline)
qed (simp_all add: demo_typed_def newline_def)

lemma demo_stale_left:
  "shift_lines (demo_typed @ replicate 3189 0) [replicate 5000 97, [98]] = demo_stale"
proof -
  have "replicate 3191 0 = replicate 3189 0 @ replicate 2 (0 :: byte)" using replicate_add [of 3189 2 "0 :: byte"] by simp
  then show ?thesis
    by (simp add: shift_lines_def shift_line_def demo_typed_def demo_stale_def USERBUF_SIZE_def list_update_append)
qed

theorem user_lines_handled_witness:
  "\<exists>ub1 ub2. process_user_input demo_keep demo_typed create_userbuf [] = Inr (ub1, [replicate 5000 97, [98]]) \<and>
    process_user_input demo_keep (replicate 4999 99) ub1 [] = Inr (ub2, [replicate 4999 99 @ [98]]) \<and>
    ub_cur ub2 = - 2 \<and> process_user_input demo_keep [] ub2 [] = Inl (Exited (-1)) \<and>
    process_user_input demo_keep [72, newline, newline, 71] create_userbuf [] = Inr (held [71], [[72], []])"
proof -
  have start: "userbuf_shape (ub_buf create_userbuf)" "ub_cur create_userbuf = 0" "ub_buf create_userbuf = replicate 8192 0"
    using userbuf_shape_create by (simp_all add: create_userbuf_def USERBUF_SIZE_def)
  have fit: "take (USERBUF_SIZE - 0) demo_typed = demo_typed" using demo_typed_lines(3) by (simp add: USERBUF_SIZE_def)
  have "Suc 3188 = 3189" by simp
  then have s1: "c_string (demo_typed @ replicate 3189 0) = demo_typed"
    using c_string_padded [OF demo_typed_lines(2), of 3188] by (simp only:)
  have b1: "demo_typed @ replicate 3189 0 = take 0 (ub_buf create_userbuf) @ demo_typed @ drop (0 + length demo_typed) (ub_buf create_userbuf)"
    by (simp add: start demo_typed_lines(3))
  have l1: "lines_of (c_string (demo_typed @ replicate 3189 0)) = ([replicate 5000 97, [98]], [])"
    unfolding s1 by (rule demo_typed_lines(1))
  obtain ub1 where ub1: "process_user_input demo_keep demo_typed create_userbuf [] = Inr (ub1, [replicate 5000 97, [98]])"
      "ub_buf ub1 = demo_stale" "userbuf_shape (ub_buf ub1)" "ub_cur ub1 = 0"
    using user_lines_handled [OF start(1) _ fit [symmetric] b1 l1, of demo_keep "[]" "[]"]
    by (auto simp: start(2) s1 demo_stale_left demo_keep_def demo_typed_lines(3) USERBUF_SIZE_def create_userbuf_held [symmetric])
  let ?d = "replicate 4999 99 :: byte list" and ?b = "(replicate 4999 99 @ [98]) @ newline # replicate 3191 (0 :: byte)"
  have d: "?d = take (USERBUF_SIZE - 0) ?d" by (simp add: USERBUF_SIZE_def)
  have b2: "?b = take 0 (ub_buf ub1) @ ?d @ drop (0 + length ?d) (ub_buf ub1)"
    by (simp add: ub1(2) demo_stale_def)
  have "0 \<notin> set ((?d @ [98]) @ newline # [])" "Suc 3190 = 3191" by (simp_all add: newline_def)
  with c_string_padded [OF this(1), of 3190] have s2: "c_string ?b = (?d @ [98]) @ newline # []" by simp
  then have s3: "c_string (?d @ 98 # newline # replicate 3191 0) = ?d @ [98, newline]" by simp
  have "newline \<notin> set (?d @ [98])" by (simp add: newline_def)
  from lines_of_split [OF this, of "[]"] have l2: "lines_of (c_string ?b) = ([?d @ [98]], [])"
    unfolding s2 by (simp add: lines_of_no_newline)
  obtain ub2 where ub2: "process_user_input demo_keep ?d ub1 [] = Inr (ub2, [?d @ [98]])" "userbuf_shape (ub_buf ub2)" "ub_cur ub2 = - 2"
    using user_lines_handled [OF ub1(3) _ d b2 l2, of demo_keep "[]" "[]"]
    by (auto simp: ub1(4) s3 demo_keep_def USERBUF_SIZE_def)
  have "USERBUF_SIZE - 1 \<le> unat (ub_cur ub2)" by (simp add: ub2(3) USERBUF_SIZE_def)
  then have last: "process_user_input demo_keep [] ub2 [] = Inl (Exited (-1))"
    using user_lines_handled [OF ub2(2) refl refl refl surjective_pairing, where data = "[]" and h = demo_keep and s = "[]"] by (simp only: if_True)
  have "lines_of [72, newline, newline, 71] = ([[72], []], [71])" by (simp add: lines_of_def newline_def)
  then have "process_user_input demo_keep [72, newline, newline, 71] create_userbuf [] = Inr (held [71], [[72], []])"
    using user_lines_handled [of create_userbuf 0 "[72, newline, newline, 71]" "[72, newline, newline, 71]" _ "[[72], []]" "[71]" demo_keep "[]" "[]"]
      start c_string_padded [of "[72, newline, newline, 71]" 8187]
    by (simp add: USERBUF_SIZE_def create_userbuf_held newline_def demo_keep_def)
  with ub1(1) ub2(1,3) last show ?thesis by blast
qed

end
