(* ===== verification/Peer_C.thy ===== *)
theory Peer_C
  imports Download_C Spiffy_C Input_Buffer_C
begin

text \<open>
  \<open>peer.c\<close>: the main function, the commands of the user, the receipt of a datagram, and the program as a
  whole. A program state (\<open>peer_node\<close>) holds the globals of \<open>handler.c\<close>, those of \<open>spiffy.c\<close> and the user's
  buffer; it moves when \<open>select\<close> returns in the main loop or when one of the other threads makes a step.
\<close>

section \<open>Commands\<close>

text \<open>\<open>%120s\<close>: as \<open>%s\<close>, but at most 120 characters.\<close>

definition scan_sw :: "nat \<Rightarrow> byte list \<Rightarrow> (byte list \<times> byte list) option" where
  "scan_sw w s = (let t = skip_space s; v = take w (takeWhile (\<lambda>c. \<not> isspace c) t)
     in if v = [] then None else Some (v, drop (length v) t))"

text \<open>
  \<open>sscanf(line, "GET %120s %120s", ...)\<close>: the number of conversions, -1 when the line ends before the
  first one, and the two strings, empty as \<open>bzero\<close> left them where nothing was converted.
\<close>

definition sscanf_get :: "byte list \<Rightarrow> int \<times> byte list \<times> byte list" where
  "sscanf_get line =
     (if take 3 line \<noteq> cstr ''GET'' then (if line = take (length line) (cstr ''GET'') then -1 else 0, [], [])
      else case scan_sw 120 (drop 3 line) of
        None \<Rightarrow> (-1, [], [])
      | Some (chunkf, r) \<Rightarrow>
          (case scan_sw 120 r of
             None \<Rightarrow> (1, chunkf, [])
           | Some (outf, r') \<Rightarrow> (2, chunkf, outf)))"

definition process_get :: "machine \<Rightarrow> byte list \<Rightarrow> byte list \<Rightarrow> handler \<Rightarrow> handler res" where
  "process_get m chunkfile outputfile st =
     rbind (strcpy BT_FILENAME_LEN chunkfile) (\<lambda>c.
     rbind (strcpy BT_FILENAME_LEN outputfile) (\<lambda>out.
     process_download m (st\<lparr>config := (config st)\<lparr>chunk_file := c, output_file := out\<rparr>\<rparr>)))"

definition handle_user_input :: "machine \<Rightarrow> byte list \<Rightarrow> handler \<Rightarrow> handler res" where
  "handle_user_input m line st =
     (case sscanf_get line of (n, chunkf, outf) \<Rightarrow>
        if n \<noteq> 0 then if length outf > 0 then process_get m chunkf outf st else Inr st
        else Inr st)"

section \<open>Datagrams\<close>

text \<open>
  The buffer and the address are on the stack of \<open>process_inbound_udp\<close>; what \<open>spiffy_recvfrom\<close> does not
  write of them is what the stack held before.
\<close>

definition BUFLEN :: nat where "BUFLEN = 1500"

definition process_inbound_udp ::
    "machine \<Rightarrow> spiffy \<Rightarrow> (sockaddr_in \<times> byte list) option \<Rightarrow> handler \<Rightarrow> handler res" where
  "process_inbound_udp m sp dgram st =
     rbind (spiffy_recvfrom m sp (map (stack_byte m) [0..<BUFLEN]) dgram) (\<lambda>(n, buf, from).
     if n \<noteq> -1 then
       rbind (packet_of_mem buf) (\<lambda>pkt.
       process_PKT m st pkt (case from of
           Some f \<Rightarrow> s_port f
         | None \<Rightarrow> of_le16 (stack_byte m (BUFLEN + 2)) (stack_byte m (BUFLEN + 3))))
     else Inr st)"

section \<open>The main loop\<close>

record peer_node =
  globals :: handler
  spf :: spiffy
  userbuf :: user_iobuf
  main_running :: bool
  std_out :: "byte list"

text \<open>
  What \<open>select\<close> reports: an error, or which of the two descriptors are ready, with what they deliver (a
  timeout reports none). \<open>readfds\<close> is not cleared before the first call, so it may fail at once.
\<close>

datatype select_result =
    Select_Error
  | Ready "(sockaddr_in \<times> byte list) option option" "byte list option"

definition main_round :: "machine \<Rightarrow> select_result \<Rightarrow> peer_node \<Rightarrow> peer_node res" where
  "main_round m r nd =
     (case r of
        Select_Error \<Rightarrow> Inr (nd\<lparr>main_running := False\<rparr>)
      | Ready udp input \<Rightarrow>
          rbind (case udp of None \<Rightarrow> Inr (globals nd) | Some d \<Rightarrow> process_inbound_udp m (spf nd) d (globals nd)) (\<lambda>g.
          rbind (case input of
                   None \<Rightarrow> Inr (userbuf nd, g)
                 | Some data \<Rightarrow> process_user_input (handle_user_input m) data (userbuf nd) g) (\<lambda>(ub, g').
          Inr (nd\<lparr>globals := g', userbuf := ub\<rparr>))))"

text \<open>
  The start: the environment supplies the results of \<open>socket\<close>, \<open>bind\<close>, \<open>getenv\<close> and \<open>inet_aton\<close>, the
  options and the files. The socket is bound to any address.
\<close>

record environment =
  env_gethostbyname :: "byte list \<Rightarrow> u32 option"
  env_inet_aton :: "byte list \<Rightarrow> u32 option"
  env_router :: "byte list option"
  env_files :: filesystem
  env_writable :: "byte list \<Rightarrow> bool"
  env_options :: "(byte \<times> byte list) list"
  env_debug :: u32
  env_socket :: bool
  env_bind :: bool
  env_testing :: bool

definition peer_run :: "environment \<Rightarrow> bt_config_t \<Rightarrow> peer_node res" where
  "peer_run env c =
     (let ub = create_userbuf
      in if \<not> env_socket env then Inl (Exited (-1))
         else let myaddr = \<lparr>sa_inet = True, s_addr = 0, s_port = htons (myport c)\<rparr>
              in if \<not> env_bind env then Inl (Exited (-1))
                 else case spiffy_init (env_inet_aton env) (env_router env) spiffy_start (identity c) myaddr of
                   (rc, sp) \<Rightarrow> Inr \<lparr>globals = handler_start c (env_files env) (env_writable env), spf = sp,
                     userbuf = ub, main_running = True, std_out = []\<rparr>)"

text \<open>
  The Makefile defines \<open>TESTING\<close> unless the line is commented out, and always \<open>DEBUG\<close>. What \<open>main\<close> writes
  to the standard output before the main loop is \<open>std_out\<close>.
\<close>

definition testing_config :: "bool \<Rightarrow> bt_config_t \<Rightarrow> bt_config_t" where
  "testing_config testing c =
     (if testing then c\<lparr>identity := 1, chunk_file := cstr ''chunkfile'', has_chunk_file := cstr ''haschunks''\<rparr> else c)"

definition main :: "environment \<Rightarrow> peer_node res" where
  "main env =
     rbind (bt_parse_command_line (env_gethostbyname env) (env_files env) (env_options env)
              (testing_config (env_testing env) bt_init) (env_debug env)) (\<lambda>(c, dbg).
     rbind (if dbg AND DEBUG_INIT \<noteq> 0 then bt_dump_config c else Inr []) (\<lambda>out.
     rbind (peer_run env c) (\<lambda>nd. Inr (nd\<lparr>std_out := out\<rparr>))))"

section \<open>The program\<close>

text \<open>
  One step of one thread; a thread that does not exist makes no step, and no thread survives the main
  function.
\<close>

datatype event =
    Main_Round select_result
  | Sender_Enter nat
  | Sender_Round nat
  | Timer_Begin nat
  | Timer_End nat
  | Receiver_Round

definition on_globals :: "peer_node \<Rightarrow> handler res \<Rightarrow> peer_node res" where
  "on_globals nd r = rbind r (\<lambda>g. Inr (nd\<lparr>globals := g\<rparr>))"

definition enabled :: "handler \<Rightarrow> event \<Rightarrow> bool" where
  "enabled g e = (case e of
       Main_Round r \<Rightarrow> True
     | Sender_Enter a \<Rightarrow> a \<in> set (new_senders g)
     | Sender_Round a \<Rightarrow> a \<in> set (sender_threads g)
     | Timer_Begin i \<Rightarrow> i < length (timers g) \<and> snd (timers g ! i) = None
     | Timer_End i \<Rightarrow> i < length (timers g) \<and> snd (timers g ! i) \<noteq> None
     | Receiver_Round \<Rightarrow> 0 < receiver_threads g)"

definition peer_event :: "machine \<Rightarrow> event \<Rightarrow> peer_node \<Rightarrow> peer_node res" where
  "peer_event m e nd =
     (let g = globals nd
      in if \<not> main_running nd \<or> \<not> enabled g e then Inr nd
         else case e of
           Main_Round r \<Rightarrow> main_round m r nd
         | Sender_Enter a \<Rightarrow> on_globals nd (sender_enter g a)
         | Sender_Round a \<Rightarrow> on_globals nd (rbind (sender_round g a) (\<lambda>(more, g'). Inr g'))
         | Timer_Begin i \<Rightarrow> on_globals nd (timer_begin g i)
         | Timer_End i \<Rightarrow> on_globals nd (timer_end g i)
         | Receiver_Round \<Rightarrow> on_globals nd (rbind (receiver_round m g) (\<lambda>(more, g'). Inr g')))"

text \<open>The states a program started in an environment can reach without a fault.\<close>

inductive reachable :: "machine \<Rightarrow> environment \<Rightarrow> peer_node \<Rightarrow> bool" for m env where
  start: "main env = Inr nd \<Longrightarrow> reachable m env nd"
| step: "reachable m env nd \<Longrightarrow> peer_event m e nd = Inr nd' \<Longrightarrow> reachable m env nd'"

end
