(* ===== verification/Ack_Window.thy ===== *)
theory Ack_Window
  imports Handler_C
begin

text \<open>
  What acknowledgments do to a sender: the window stays between 1 and \<open>2 ^ 24\<close>, every conversion between
  floats and integers is in range, and \<open>last_acked\<close> is the maximum of the acknowledgments.
\<close>

section \<open>The acknowledgment step\<close>

lemma int_of_f32_window: "window w \<Longrightarrow> int_of_f32 w = Inr (floor w) \<and> 1 \<le> floor w \<and> floor w \<le> 2 ^ 24"
  by (auto simp: int_of_f32_def window_def MAX_WINDOW_def le_floor_iff floor_le_iff)

lemma ack_window_new:
  assumes "sender_ok s" "uint ack < 2 ^ 24" "last_acked s < ack"
  shows "ok (ack_window s ack) (\<lambda>(s', logged). sender_ok s' \<and> same_connection s s' \<and> timer s' = timer s \<and>
    ssthresh s' = ssthresh s \<and> last_sent s' = last_sent s \<and> last_acked s' = ack \<and> dup_ack_num s' = 1 \<and>
    ack < last_available s' \<and> window_end ack (cwnd s) = Inr (last_available s') \<and>
    cwnd s' = (if cwnd s \<le> f32_of_u32 (ssthresh s) then f32_add (cwnd s) 1 else f32_add (cwnd s) (f32_div 1 (cwnd s))))"
proof -
  have w: "window (cwnd s)" using assms(1) by (simp add: sender_ok_def)
  obtain e where e: "window_end ack (cwnd s) = Inr e" "uint ack < uint e"
    using window_end_ok [OF w assms(2)] by (auto simp: ok_iff)
  have "window (f32_add (cwnd s) 1)" "window (f32_add (cwnd s) (f32_div 1 (cwnd s)))"
    using w f32_inverse [OF w] by (auto intro: window_grow)
  with assms(1,3) e int_of_f32_window [OF w] show ?thesis
    by (simp add: ack_window_def Let_def sender_ok_def same_connection_def word_less_def)
qed

lemma ack_window_ok:
  assumes "sender_ok s" "uint ack < 2 ^ 24"
  shows "ok (ack_window s ack) (\<lambda>(s', logged). sender_ok s' \<and> same_connection s s' \<and> timer s' = timer s \<and>
    last_acked s' = max (last_acked s) ack \<and> (last_sent s' = last_sent s \<or> last_sent s' = ack) \<and>
    (last_sent s \<noteq> last_sent s' \<longrightarrow> DUP_ACK_NUM \<le> dup_ack_num s + 1 \<and> ack = last_acked s))"
proof (cases "ack > last_acked s")
  case True
  with ack_window_new [OF assms True] show ?thesis by (auto elim!: ok_mono)
next
  case False
  let ?s = "s\<lparr>dup_ack_num := dup_ack_num s + 1\<rparr>"
  have "sender_ok ?s" using assms(1) by (simp add: sender_ok_def)
  from retransmit_ok [OF this assms(2)] obtain s2 where "retransmit ?s ack = Inr s2" "sender_ok s2"
      "same_connection ?s s2" "timer s2 = timer s" "last_sent s2 = ack" "last_acked s2 = ack"
    by (auto simp: ok_iff)
  with False assms(1) show ?thesis
    by (auto simp: ack_window_def Let_def sender_ok_def same_connection_def)
qed

section \<open>Handling an acknowledgment\<close>

lemma set_sender_fields [simp]:
  "sender_pool (set_sender st a s) = sender_pool st"
  "ar_brk (sender_heap (set_sender st a s)) = ar_brk (sender_heap st)"
  "ar_heap (sender_heap (set_sender st a s)) = (ar_heap (sender_heap st))(a \<mapsto> s)"
  "config (set_sender st a s) = config st"
  "log_file (set_sender st a s) = log_file st"
  "timers (set_sender st a s) = timers st"
  "new_senders (set_sender st a s) = new_senders st"
  "sender_threads (set_sender st a s) = sender_threads st"
  "sent (set_sender st a s) = sent st"
  by (simp_all add: set_sender_def)

text \<open>
  C7. An acknowledgment from a peer that is being served, below the number of packets: the sender's
  window stays between 1 and \<open>2 ^ 24\<close>, its packets and peer stay, \<open>last_acked\<close> becomes the larger of the
  two numbers, and the next packet to send only changes for the third acknowledgment with the same
  number, to the packet behind it. No other sender, no pool and no chunk changes and nothing is sent.
\<close>

theorem process_ACK_window:
  assumes "get_sender (sender_pool st) (sender_heap st) peer = Inr (Some a)"
    and "ar_heap (sender_heap st) a = Some s" "sender_ok s"
    and "ack_num (header pkt) < pkt_num s" "uint (pkt_num s) \<le> 2 ^ 24"
    and "p_receiver s = Some b" "peer_heap (config st) b = Some pe" "log_file st = Obj lines"
  shows "ok (process_ACK st pkt peer) (\<lambda>st'. \<exists>s' lines'.
    st' = st\<lparr>sender_heap := (sender_heap st)\<lparr>ar_heap := (ar_heap (sender_heap st))(a \<mapsto> s')\<rparr>, log_file := Obj lines'\<rparr> \<and>
    sender_ok s' \<and> same_connection s s' \<and> last_acked s' = max (last_acked s) (ack_num (header pkt)) \<and>
    (last_sent s' \<noteq> last_sent s \<longrightarrow> last_sent s' = ack_num (header pkt) \<and> ack_num (header pkt) = last_acked s \<and>
       DUP_ACK_NUM \<le> dup_ack_num s + 1) \<and> \<not> is_running (timer s'))"
proof -
  let ?ack = "ack_num (header pkt)"
  have "uint ?ack < 2 ^ 24" using assms(4,5) by (simp add: word_less_def)
  from ack_window_ok [OF assms(3) this] obtain s' logged where s': "ack_window s ?ack = Inr (s', logged)"
      "sender_ok s'" "same_connection s s'" "last_acked s' = max (last_acked s) ?ack"
      "last_sent s' = last_sent s \<or> last_sent s' = ?ack"
      "last_sent s \<noteq> last_sent s' \<longrightarrow> DUP_ACK_NUM \<le> dup_ack_num s + 1 \<and> ?ack = last_acked s"
    by (auto simp: ok_iff)
  have cw: "int_of_f32 (cwnd s') = Inr (floor (cwnd s'))"
    using s'(2) int_of_f32_window by (simp add: sender_ok_def)
  define lines' where "lines' = (if logged then lines @ [(peer_id pe, floor (cwnd s'))] else lines)"
  have "process_ACK st pkt peer = Inr (st\<lparr>sender_heap := (sender_heap st)\<lparr>ar_heap :=
      (ar_heap (sender_heap st))(a \<mapsto> stop_timer s')\<rparr>, log_file := Obj lines'\<rparr>)"
    using assms s'(1,3) cw
    by (auto simp: process_ACK_def Let_def cwnd2log_def same_connection_def lines'_def set_sender_def)
  moreover have "sender_ok (stop_timer s')" "same_connection s (stop_timer s')"
    using s'(2,3) by (simp_all add: sender_ok_def same_connection_def stop_timer_def)
  ultimately show ?thesis
    using s' by (auto simp: stop_timer_def is_running_def intro!: exI [of _ "stop_timer s'"])
qed

text \<open>A sender in the middle of its chunk, alone in a pool of one, for concrete instances.\<close>

definition demo_sender :: "nat \<Rightarrow> sender" where
  "demo_sender b = \<lparr>ssthresh = 64, cwnd = 1, last_sent = 5, last_acked = 3, last_available = 6, dup_ack_num = 1,
     pkt_num = 375, timer = \<lparr>running = 1, timer_id = 3, tv_sec = 1, tv_usec = 0\<rparr>, pkts = [], p_receiver = Some b\<rparr>"

definition demo_config :: bt_config_t where
  "demo_config = bt_init\<lparr>peers := Some 7, peer_heap := [7 \<mapsto> \<lparr>peer_id = 2, sin_addr = 9, sin_port = 80, peer_next = None\<rparr>],
     peer_brk := 8, max_conn := 1\<rparr>"

definition demo_handler :: "sender \<Rightarrow> handler" where
  "demo_handler s = (handler_start demo_config Map.empty (\<lambda>f. True))
     \<lparr>sender_pool := Obj \<lparr>max_num = 1, cur_num = 1, workers = queue_of [0]\<rparr>,
      sender_heap := \<lparr>ar_heap = [0 \<mapsto> s], ar_brk = 1\<rparr>, log_file := Obj []\<rparr>"

lemma demo_handler_sender:
  assumes "p_receiver s = Some b"
  shows "get_sender (sender_pool (demo_handler s)) (sender_heap (demo_handler s)) (Some b) = Inr (Some 0)"
proof -
  let ?p = "\<lparr>max_num = 1, cur_num = 1, workers = queue_of [0]\<rparr>" and ?a = "\<lparr>ar_heap = [0 \<mapsto> s], ar_brk = 1\<rparr>"
  have "pool_rep ?p [0]" "arena_ok ?a [0]" by (simp_all add: pool_rep_def repr_queue_of arena_ok_def)
  from senders.get_find [OF this, of b] assms show ?thesis
    by (simp add: demo_handler_def worker_at_def)
qed

theorem process_ACK_window_witness:
  "ok (process_ACK (demo_handler (demo_sender 7)) \<lparr>header = sized_header ACK 4 0, pkt_data = []\<rparr> (Some 7))
    (\<lambda>st. \<exists>s. ar_heap (sender_heap st) 0 = Some s \<and> last_acked s = 4 \<and> last_sent s = 5)"
proof -
  let ?st = "demo_handler (demo_sender 7)"
  have g: "get_sender (sender_pool ?st) (sender_heap ?st) (Some 7) = Inr (Some 0)"
    by (rule demo_handler_sender) (simp add: demo_sender_def)
  show ?thesis
    by (rule ok_mono [OF process_ACK_window [OF g, where s = "demo_sender 7" and b = 7 and lines = "[]" and
        pe = "\<lparr>peer_id = 2, sin_addr = 9, sin_port = 80, peer_next = None\<rparr>"]])
      (auto simp: demo_handler_def demo_sender_def demo_config_def handler_start_def sender_ok_def window_def
        MAX_WINDOW_def sized_header_def max_def)
qed

end
