(* ===== verification/Sender_Invariant.thy ===== *)
theory Sender_Invariant
  imports Peer_C Ack_Window Tracker_Packets
begin

text \<open>
  The invariant of the sending side, over every interleaving of datagrams, commands of the user, sender
  threads, timers and the receiver thread: every sender holds the packets of one chunk, its numbers stay
  in range, its window stays between 1 and \<open>2 ^ 24\<close>, and no thread refers to a sender that does not
  exist.
\<close>

section \<open>The invariant\<close>

definition chunk_pkts :: "packet list \<Rightarrow> bool" where
  "chunk_pkts ps \<longleftrightarrow> (\<exists>d. length d = BT_CHUNK_SIZE \<and> ps = map (data_packet d) [0..<CHUNK_PKTS])"

definition sender_inv :: "sender \<Rightarrow> bool" where
  "sender_inv s \<longleftrightarrow> sender_ok s \<and> pkt_num s = 375 \<and> last_sent s \<le> 375 \<and> last_acked s < 375 \<and>
     timer_id (timer s) < 375 \<and>
     chunk_pkts (pkts s)"

definition arena_inv :: "sender arena \<Rightarrow> bool" where
  "arena_inv ar \<longleftrightarrow> (\<forall>a s. ar_heap ar a = Some s \<longrightarrow> sender_inv s)"

definition live :: "sender arena \<Rightarrow> nat set" where
  "live ar = dom (ar_heap ar)"

definition senders_inv :: "handler \<Rightarrow> bool" where
  "senders_inv g \<longleftrightarrow> arena_inv (sender_heap g) \<and>
     set (new_senders g) \<union> set (sender_threads g) \<union> fst ` set (timers g) \<subseteq> live (sender_heap g) \<and>
     (\<forall>a tid. (a, Some tid) \<in> set (timers g) \<longrightarrow> tid < 375) \<and> log_file g \<noteq> Freed"

lemma live_upd [simp]: "live (ar\<lparr>ar_heap := (ar_heap ar)(a \<mapsto> s)\<rparr>) = insert a (live ar)"
  by (simp add: live_def)

lemma live_new [simp]: "live \<lparr>ar_heap = (ar_heap ar)(a \<mapsto> s), ar_brk = n\<rparr> = insert a (live ar)"
  by (simp add: live_def)

lemma live_set_sender [simp]: "live (sender_heap (set_sender g a s)) = insert a (live (sender_heap g))"
  by (simp add: live_def)

lemma liveD: "a \<in> live ar \<Longrightarrow> \<exists>s. ar_heap ar a = Some s"
  by (auto simp: live_def)

lemma liveI: "ar_heap ar a = Some s \<Longrightarrow> a \<in> live ar"
  by (auto simp: live_def)

lemma below_chunk: "x < (375 :: u32) \<Longrightarrow> uint x < 2 ^ 24"
  by (simp add: word_less_def)

lemma sender_inv_ok: "sender_inv s \<Longrightarrow> sender_ok s"
  by (simp add: sender_inv_def)

lemma sender_inv_timer:
  "sender_inv s \<Longrightarrow> timer_id t < 375 \<Longrightarrow> sender_inv (s\<lparr>timer := t\<rparr>)"
  by (simp add: sender_inv_def sender_ok_def)

lemma sender_inv_stop: "sender_inv s \<Longrightarrow> sender_inv (stop_timer s)"
  by (simp add: stop_timer_def sender_inv_timer sender_inv_def sender_ok_def)

lemma sender_inv_retransmit:
  assumes "sender_inv s" "ack < 375"
  shows "ok (retransmit s ack) sender_inv"
  by (rule ok_mono [OF retransmit_ok [OF sender_inv_ok [OF assms(1)] below_chunk [OF assms(2)]]])
    (use assms in \<open>auto simp: sender_inv_def same_connection_def less_imp_le\<close>)

lemma sender_inv_ack:
  assumes "sender_inv s" "ack < 375"
  shows "ok (ack_window s ack) (\<lambda>(s', logged). sender_inv s')"
proof (rule ok_mono [OF ack_window_ok [OF sender_inv_ok [OF assms(1)] below_chunk [OF assms(2)]]])
  have "ack \<le> 375" using assms(2) by simp
  then show "case r of (s', logged) \<Rightarrow> sender_inv s'"
    if "case r of (s', logged) \<Rightarrow> sender_ok s' \<and> same_connection s s' \<and> timer s' = timer s \<and>
      last_acked s' = max (last_acked s) ack \<and> (last_sent s' = last_sent s \<or> last_sent s' = ack) \<and>
      (last_sent s \<noteq> last_sent s' \<longrightarrow> DUP_ACK_NUM \<le> dup_ack_num s + 1 \<and> ack = last_acked s)" for r
    using that assms by (elim case_prodE) (simp add: sender_inv_def same_connection_def, elim conjE disjE, simp_all)
qed

section \<open>Steps on the arena of senders\<close>

definition arena_step :: "sender arena \<Rightarrow> sender arena \<Rightarrow> bool" where
  "arena_step ar ar' \<longleftrightarrow> (arena_inv ar \<longrightarrow> arena_inv ar') \<and> live ar \<subseteq> live ar'"

lemma arena_step_refl [simp]: "arena_step ar ar"
  by (simp add: arena_step_def)

lemma arena_step_trans: "arena_step a b \<Longrightarrow> arena_step b c \<Longrightarrow> arena_step a c"
  by (auto simp: arena_step_def)

lemma arena_step_set:
  "ar_heap ar a = Some s \<Longrightarrow> (sender_inv s \<Longrightarrow> sender_inv s') \<Longrightarrow>
   arena_step ar (ar\<lparr>ar_heap := (ar_heap ar)(a \<mapsto> s')\<rparr>)"
  by (auto simp: arena_step_def arena_inv_def)

lemma remove_sender_step: "remove_sender pool ar sdr = Inr (pool', ar') \<Longrightarrow> arena_step ar ar'"
  by (auto simp: remove_sender_def rbind_Inr_iff deref_Inr_iff intro!: arena_step_set sender_inv_stop
      split: if_splits option.splits)

lemma add_sender_step:
  assumes "add_sender pool ar p ps num = Inr (r, pool', ar')" "num = CHUNK_PKTS" "chunk_pkts ps"
  shows "arena_step ar ar' \<and> (\<forall>a. r = Some a \<longrightarrow> a \<in> live ar')"
  using assms window_one
  by (auto simp: add_sender_def Let_def rbind_Inr_iff arena_step_def arena_inv_def sender_inv_def sender_ok_def
      CWND_def SSTHRESH_def init_timer_def CHUNK_PKTS_def split: if_splits)

section \<open>Parts of the state a handler does not touch\<close>

definition sender_part where
  "sender_part g = (sender_heap g, timers g, new_senders g, sender_threads g, log_file g)"

lemma sender_part_inv: "sender_part g' = sender_part g \<Longrightarrow> senders_inv g' = senders_inv g"
  by (simp add: sender_part_def senders_inv_def)

lemma senders_inv_step:
  assumes "senders_inv g" "arena_step (sender_heap g) (sender_heap g')"
    and "timers g' = timers g" "new_senders g' = new_senders g" "sender_threads g' = sender_threads g"
    and "log_file g \<noteq> Freed \<Longrightarrow> log_file g' \<noteq> Freed"
  shows "senders_inv g'"
  using assms by (simp add: senders_inv_def arena_step_def) blast

named_theorems sender_frame \<open>operations that leave the sending side alone\<close>

lemma send_PKT_frame [sender_frame]: "send_PKT st peer pkt = Inr st' \<Longrightarrow> sender_part st' = sender_part st"
  by (auto simp: send_PKT_def rbind_Inr_iff sender_part_def split: if_splits option.splits)

lemma send_to_peers_frame [sender_frame]: "send_to_peers n st a p = Inr st' \<Longrightarrow> sender_part st' = sender_part st"
proof (induction n st a p rule: send_to_peers.induct)
  case (3 k st a pkt)
  from "3.prems" obtain pe st1 where pe: "deref (peer_heap (config st)) (Some a) = Inr pe"
      and st1: "(if peer_id pe \<noteq> identity (config st) then send_PKT st (Some a) (Some pkt) else Inr st) = Inr st1"
      and rest: "send_to_peers k st1 (peer_next pe) pkt = Inr st'"
    unfolding send_to_peers.simps rbind_Inr_iff by blast
  from st1 have "sender_part st1 = sender_part st" by (auto split: if_splits dest: send_PKT_frame)
  with "3.IH" [OF pe st1 rest] show ?case by simp
qed auto

lemma whohas_loop_frame [sender_frame]: "whohas_loop n st q = Inr st' \<Longrightarrow> sender_part st' = sender_part st"
proof (induction n arbitrary: st q)
  case 0
  then show ?case by (subst (asm) whohas_loop.simps) (auto simp: rbind_Inr_iff split: option.splits)
next
  case (Suc n)
  from Suc.prems obtain pkt q' where "dequeue q = Inr (pkt, q')"
      and "(case pkt of None \<Rightarrow> Inr st
        | Some p \<Rightarrow> rbind (send_to_peers (peer_brk (config st)) st (peers (config st)) p)
            (\<lambda>st1. whohas_loop n st1 q')) = Inr st'"
    unfolding whohas_loop.simps [of "Suc n"] nat.case by (auto simp: rbind_Inr_iff)
  then show ?case
    using Suc.IH by (cases pkt) (auto simp: rbind_Inr_iff dest!: send_to_peers_frame)
qed

lemma process_download_frame [sender_frame]: "process_download m st = Inr st' \<Longrightarrow> sender_part st' = sender_part st"
  by (auto simp: process_download_def rbind_Inr_iff Let_def dest!: whohas_loop_frame) (auto simp: sender_part_def)

lemma process_WHOHAS_frame [sender_frame]: "process_WHOHAS st pkt peer = Inr st' \<Longrightarrow> sender_part st' = sender_part st"
  by (auto simp: process_WHOHAS_def rbind_Inr_iff split: if_splits dest!: send_PKT_frame) (auto simp: sender_part_def)

lemma process_IHAVE_frame [sender_frame]: "process_IHAVE st pkt peer = Inr st' \<Longrightarrow> sender_part st' = sender_part st"
  by (auto simp: process_IHAVE_def rbind_Inr_iff sender_part_def)

lemma finish_chunk_frame [sender_frame]: "finish_chunk m st a r = Inr st' \<Longrightarrow> sender_part st' = sender_part st"
  by (auto simp: finish_chunk_def rbind_Inr_iff sender_part_def)

lemma accept_data_frame [sender_frame]: "accept_data st pkt a = Inr st' \<Longrightarrow> sender_part st' = sender_part st"
  by (auto simp: accept_data_def rbind_Inr_iff sender_part_def split: if_splits)

lemma process_DATA_frame [sender_frame]: "process_DATA m st pkt peer = Inr st' \<Longrightarrow> sender_part st' = sender_part st"
  by (auto simp: process_DATA_def rbind_Inr_iff split: option.splits if_splits
      dest!: send_PKT_frame accept_data_frame finish_chunk_frame)

lemma request_chunk_frame [sender_frame]: "request_chunk m st p peer a = Inr st' \<Longrightarrow> sender_part st' = sender_part st"
  by (auto simp: request_chunk_def rbind_Inr_iff dest!: send_PKT_frame) (auto simp: sender_part_def)

lemma look_at_frame [sender_frame]: "look_at m st = Inr st' \<Longrightarrow> sender_part st' = sender_part st"
  by (auto simp: look_at_def rbind_Inr_iff Let_def split: if_splits option.splits dest!: request_chunk_frame)
    (auto simp: sender_part_def)

lemma chunks2file_frame [sender_frame]: "chunks2file m st = Inr st' \<Longrightarrow> sender_part st' = sender_part st"
  by (auto simp: chunks2file_def rbind_Inr_iff sender_part_def split: if_splits)

lemma receiver_round_frame [sender_frame]: "receiver_round m st = Inr (b, st') \<Longrightarrow> sender_part st' = sender_part st"
  by (auto simp: receiver_round_def rbind_Inr_iff split: if_splits dest!: look_at_frame chunks2file_frame)
    (auto simp: sender_part_def)

lemma handle_user_input_frame [sender_frame]: "handle_user_input m line st = Inr st' \<Longrightarrow> sender_part st' = sender_part st"
  by (auto simp: handle_user_input_def process_get_def rbind_Inr_iff split: prod.splits if_splits
      dest!: process_download_frame) (auto simp: sender_part_def)

section \<open>Steps that change the sending side\<close>

lemma find_hash_loop_any: "init_chunk (junk_chunk m) 0 s = Inr c \<Longrightarrow> length (chunk_data c) = BT_CHUNK_SIZE"
  by (auto simp: init_chunk_def rbind_Inr_iff)

lemma length_fread_chunk: "length buf = BT_CHUNK_SIZE \<Longrightarrow> length (fread_chunk f off buf) = BT_CHUNK_SIZE"
  by (simp add: fread_chunk_def Let_def)

lemma get_data_chunk_length:
  assumes "get_data_chunk m files mem f pkt = Inr (p, mem')" "deref (ch_heap mem') p = Inr c"
  shows "length (chunk_data c) = BT_CHUNK_SIZE"
  using assms
  by (auto simp: get_data_chunk_def rbind_Inr_iff alloc_chunk_def deref_Inr_iff length_fread_chunk find_hash_loop_any
      case_prod_unfold split: option.split_asm)

lemma chunk2pkts_chunk_pkts:
  "length (chunk_data c) = BT_CHUNK_SIZE \<Longrightarrow> chunk2pkts c = Inr (ps, num) \<Longrightarrow> chunk_pkts ps \<and> num = CHUNK_PKTS"
  using chunk2pkts_spec [of c] by (auto simp: chunk_pkts_def)

lemma process_GET_inv:
  assumes "senders_inv st" "process_GET m st pkt peer = Inr st'"
  shows "senders_inv st'"
proof -
  obtain st1 where st1: "(if sender_pool st = Null
      then rbind (init_sender_pool m (max_conn (config st))) (\<lambda>p. Inr (st\<lparr>sender_pool := Obj p\<rparr>))
      else Inr st) = Inr st1"
    using assms(2) by (auto simp: process_GET_def rbind_Inr_iff)
  then have "sender_part st1 = sender_part st" by (auto simp: rbind_Inr_iff sender_part_def split: if_splits)
  then have inv1: "senders_inv st1" using sender_part_inv assms(1) by blast
  obtain sdr go where go: "get_sender (sender_pool st1) (sender_heap st1) peer = Inr sdr"
      "(case sdr of
              None \<Rightarrow> Inr (Some st1)
            | Some a \<Rightarrow> rbind (deref (ar_heap (sender_heap st1)) (Some a)) (\<lambda>s.
                if last_sent s = pkt_num s
                then rbind (remove_sender (sender_pool st1) (sender_heap st1) (Some a)) (\<lambda>(pool, ar).
                       Inr (Some (st1\<lparr>sender_pool := pool, sender_heap := ar\<rparr>)))
                else Inr None)) = Inr go"
    using assms(2) unfolding process_GET_def st1 rbind_simps rbind_Inr_iff by blast
  note main = assms(2) [unfolded process_GET_def st1 rbind_simps go]
  show ?thesis
  proof (cases go)
    case None
    with main inv1 show ?thesis by simp
  next
    case (Some st2)
    have inv2: "senders_inv st2"
      using go(2) inv1 Some
      by (auto simp: rbind_Inr_iff split: option.splits if_splits dest!: remove_sender_step
          intro: senders_inv_step [OF inv1])
    obtain pool where pool: "sender_pool st2 = Obj pool"
      using main Some by (cases "sender_pool st2") auto
    show ?thesis
    proof (cases "cur_num pool \<ge> max_num pool")
      case True
      with main Some pool have "sender_part st' = sender_part st2"
        by (auto simp: rbind_Inr_iff dest!: send_PKT_frame)
      with inv2 show ?thesis using sender_part_inv by blast
    next
      case False
      with main Some pool obtain chunk mem c ps num a pool' ar where
        c: "get_data_chunk m (fs st2) (chunk_heap st2) (chunk_file (config st2)) pkt = Inr (chunk, mem)"
          "deref (ch_heap mem) chunk = Inr c" "chunk2pkts c = Inr (ps, num)"
          "add_sender pool (sender_heap st2) peer ps num = Inr (Some a, pool', ar)" and
        st': "st' = st2\<lparr>chunk_heap := mem, sender_pool := Obj pool', sender_heap := ar, new_senders := new_senders st2 @ [a]\<rparr>"
        by (auto simp: rbind_Inr_iff split: option.splits)
      have "chunk_pkts ps \<and> num = CHUNK_PKTS"
        by (rule chunk2pkts_chunk_pkts [OF get_data_chunk_length [OF c(1,2)] c(3)])
      then have "arena_step (sender_heap st2) ar \<and> a \<in> live ar"
        using add_sender_step [OF c(4)] by simp
      with inv2 show ?thesis by (simp add: st' senders_inv_def arena_step_def) blast
    qed
  qed
qed

lemma set_sender_inv:
  assumes "senders_inv g" "ar_heap (sender_heap g) a = Some s0" "sender_inv s"
  shows "senders_inv (set_sender g a s)"
  using assms liveI [OF assms(2)] by (auto simp: senders_inv_def arena_inv_def set_sender_def)

lemma senders_invD: "senders_inv g \<Longrightarrow> ar_heap (sender_heap g) a = Some s \<Longrightarrow> sender_inv s"
  by (simp add: senders_inv_def arena_inv_def)

lemma cwnd2log_inv: "cwnd2log st p w = Inr st' \<Longrightarrow> senders_inv st \<Longrightarrow> senders_inv st'"
  by (erule senders_inv_step) (auto simp: cwnd2log_def rbind_Inr_iff)

lemma cwnd2log_heap: "cwnd2log st p w = Inr st' \<Longrightarrow> sender_heap st' = sender_heap st"
  by (auto simp: cwnd2log_def rbind_Inr_iff)

lemma process_ACK_inv:
  assumes "senders_inv st" "process_ACK st pkt peer = Inr st'"
  shows "senders_inv st'"
proof -
  let ?ack = "ack_num (header pkt)"
  obtain r where r: "get_sender (sender_pool st) (sender_heap st) peer = Inr r"
    using assms(2) by (auto simp: process_ACK_def rbind_Inr_iff)
  show ?thesis
  proof (cases r)
    case None
    with r assms show ?thesis by (simp add: process_ACK_def)
  next
    case (Some a)
    with r assms(2) obtain s where s: "ar_heap (sender_heap st) a = Some s"
      by (auto simp: process_ACK_def rbind_Inr_iff deref_Inr_iff Let_def)
    have inv: "sender_inv s" by (rule senders_invD [OF assms(1) s])
    note main = assms(2) [unfolded process_ACK_def r Some rbind_simps option.case Let_def deref_simps(2) [of "ar_heap (sender_heap st)", OF s]]
    show ?thesis
    proof (cases "?ack \<ge> pkt_num s")
      case True
      have stop: "senders_inv (set_sender st a (stop_timer s))"
        by (rule set_sender_inv [OF assms(1) s sender_inv_stop [OF inv]])
      show ?thesis
        using main True assms(1)
        by (auto simp: rbind_Inr_iff simp del: set_sender_fields split: if_splits dest!: remove_sender_step
            intro: senders_inv_step [OF stop])
    next
      case False
      then have "?ack < 375" using inv by (simp add: sender_inv_def)
      with main False obtain s' logged st1 where s': "ack_window s ?ack = Inr (s', logged)"
          and st1: "(if logged then cwnd2log (set_sender st a s') (p_receiver s') (cwnd s')
                        else Inr (set_sender st a s')) = Inr st1"
          and st': "st' = set_sender st1 a (stop_timer s')"
        by (auto simp: rbind_Inr_iff)
      have "sender_inv s'" using sender_inv_ack [OF inv \<open>?ack < 375\<close>] s' by simp
      then have "senders_inv st1" "ar_heap (sender_heap st1) a = Some s'" "sender_inv (stop_timer s')"
        using st1 set_sender_inv [OF assms(1) s, of s'] cwnd2log_inv sender_inv_stop
        by (auto split: if_splits dest: cwnd2log_heap)
      then show ?thesis unfolding st' by (rule set_sender_inv)
    qed
  qed
qed

lemma process_PKT_inv:
  assumes "senders_inv st" "process_PKT m st raw port = Inr st'"
  shows "senders_inv st'"
proof -
  obtain bad where bad: "not_correct (convert raw HOST) = Inr bad"
    using assms(2) by (auto simp: process_PKT_def Let_def rbind_Inr_iff)
  show ?thesis
  proof (cases bad)
    case True
    with bad assms show ?thesis by (simp add: process_PKT_def)
  next
    case False
    with bad assms(2) obtain peer type where "get_peer (config st) port = Inr peer"
        "pkt_parse_type (packet_type (header (convert raw HOST))) = Inr type"
      unfolding process_PKT_def Let_def bad rbind_simps by (auto simp: rbind_Inr_iff)
    with bad False assms show ?thesis
      by (cases type) (auto simp: process_PKT_def process_DENIED_def dest: process_GET_inv process_ACK_inv
        sender_part_inv [OF process_WHOHAS_frame] sender_part_inv [OF process_IHAVE_frame]
        sender_part_inv [OF process_DATA_frame])
  qed
qed

lemma run_timer_inv:
  assumes "senders_inv g" "ar_heap (sender_heap g) a = Some s"
  shows "senders_inv (run_timer g a s)"
proof -
  have "sender_inv s" by (rule senders_invD [OF assms])
  then have "sender_inv (start_timer (s\<lparr>timer := init_timer (timer s) (last_acked s)\<rparr>))"
    by (simp add: start_timer_def init_timer_def sender_inv_def sender_ok_def)
  from set_sender_inv [OF assms this] show ?thesis
    by (auto simp: run_timer_def senders_inv_def)
qed

lemma senders_inv_allocated: "senders_inv g \<Longrightarrow> a \<in> set (new_senders g) \<union> set (sender_threads g) \<union> fst ` set (timers g) \<Longrightarrow>
    \<exists>s. ar_heap (sender_heap g) a = Some s \<and> sender_inv s"
  unfolding senders_inv_def arena_inv_def by (blast dest: liveD)

text \<open>Threads end and timers are taken off the lists: fewer references are no harm.\<close>

lemma senders_inv_fewer:
  assumes "senders_inv g" "sender_heap g' = sender_heap g"
    and "set (new_senders g') \<union> set (sender_threads g') \<subseteq> set (new_senders g) \<union> set (sender_threads g)"
    and "set (timers g') \<subseteq> set (timers g)" "log_file g' \<noteq> Freed"
  shows "senders_inv g'"
proof -
  have "set (new_senders g) \<union> set (sender_threads g) \<subseteq> live (sender_heap g)"
      and "fst ` set (timers g) \<subseteq> live (sender_heap g)"
    using assms(1) by (simp_all add: senders_inv_def)
  then have "set (new_senders g') \<union> set (sender_threads g') \<union> fst ` set (timers g') \<subseteq> live (sender_heap g)"
    using subset_trans [OF assms(3)] subset_trans [OF image_mono [OF assms(4)]] by (intro Un_least [of _ _ "fst ` _"])
  moreover have "\<forall>a tid. (a, Some tid) \<in> set (timers g') \<longrightarrow> tid < 375"
    using assms(1,4) unfolding senders_inv_def by blast
  ultimately show ?thesis using assms(1,2,5) by (simp add: senders_inv_def)
qed

lemma sender_enter_inv:
  assumes "senders_inv g" "a \<in> set (new_senders g)" "sender_enter g a = Inr g'"
  shows "senders_inv g'"
proof -
  obtain s where s: "ar_heap (sender_heap g) a = Some s"
    using senders_inv_allocated [OF assms(1)] assms(2) by blast
  define g1 where "g1 = (if log_file g = Null then g\<lparr>log_file := Obj []\<rparr> else g)"
  have g1: "senders_inv g1" "ar_heap (sender_heap g1) a = Some s" "new_senders g1 = new_senders g" "sender_threads g1 = sender_threads g"
    using assms(1) s by (auto simp: senders_inv_def g1_def)
  let ?t = "run_timer g1 a s"
  have inv: "senders_inv ?t" by (rule run_timer_inv [OF g1(1,2)])
  have t: "new_senders ?t = new_senders g" "sender_threads ?t = sender_threads g"
    by (simp_all add: run_timer_def g1)
  have "g' = ?t\<lparr>new_senders := remove1 a (new_senders g), sender_threads := sender_threads g @ [a]\<rparr>"
    using assms(3) s by (simp add: sender_enter_def flip: g1_def)
  moreover have "set (remove1 a (new_senders g)) \<union> set (sender_threads g @ [a]) \<subseteq> set (new_senders g) \<union> set (sender_threads g)"
    using assms(2) set_remove1_subset [of a "new_senders g"] by auto
  ultimately show ?thesis
    using inv t by (intro senders_inv_fewer [OF inv]) (auto simp: senders_inv_def)
qed

lemma sender_send_inv:
  assumes "senders_inv g" "ar_heap (sender_heap g) a = Some s" "sender_send g a = Inr g'"
  shows "senders_inv g' \<and> log_file g' = log_file g \<and> new_senders g' = new_senders g \<and>
    sender_threads g' = sender_threads g"
proof (cases "last_sent s < last_available s \<and> last_sent s < pkt_num s")
  case False
  with assms show ?thesis by (simp add: sender_send_def)
next
  case True
  let ?g = "if last_sent s = last_acked s then run_timer g a s else g"
  have inv: "senders_inv ?g" using assms(1,2) by (simp add: run_timer_inv)
  obtain s1 where s1: "ar_heap (sender_heap ?g) a = Some s1" "last_sent s1 = last_sent s" "pkt_num s1 = pkt_num s"
    using assms(2) by (cases "last_sent s = last_acked s") (auto simp: run_timer_def start_timer_def)
  have "sender_inv s1" by (rule senders_invD [OF inv s1(1)])
  then have "sender_inv (s1\<lparr>last_sent := last_sent s1 + 1\<rparr>)"
    using True s1 inc_le [of "last_sent s1" 375] by (simp add: sender_inv_def sender_ok_def)
  note inv2 = set_sender_inv [OF inv s1(1) this]
  obtain p pkt where "send_PKT (set_sender ?g a (s1\<lparr>last_sent := last_sent s1 + 1\<rparr>)) p (Some pkt) = Inr g'"
    using assms(2,3) True s1(1) by (auto simp: sender_send_def Let_def rbind_Inr_iff)
  then have part: "sender_part g' = sender_part (set_sender ?g a (s1\<lparr>last_sent := last_sent s1 + 1\<rparr>))"
    by (rule send_PKT_frame)
  moreover have "log_file ?g = log_file g" "new_senders ?g = new_senders g" "sender_threads ?g = sender_threads g"
    by (simp_all add: run_timer_def)
  ultimately show ?thesis using inv2 sender_part_inv [OF part] by (simp add: sender_part_def)
qed

lemma sender_round_inv:
  assumes "senders_inv g" "ar_heap (sender_heap g) a = Some s" "sender_round g a = Inr (go, g')"
  shows "senders_inv g' \<and> go"
proof -
  obtain g1 where g1: "sender_send g a = Inr g1" using assms(3) by (auto simp: sender_round_def rbind_Inr_iff)
  have inv: "senders_inv g1" using sender_send_inv [OF assms(1,2) g1] by simp
  from g1 assms(3) obtain s1 where s1: "ar_heap (sender_heap g1) a = Some s1"
    by (auto simp: sender_round_def rbind_Inr_iff deref_Inr_iff)
  have "sender_inv s1" by (rule senders_invD [OF inv s1])
  then have "\<not> last_acked s1 \<ge> pkt_num s1" by (simp add: sender_inv_def not_le)
  with g1 s1 assms(3) inv show ?thesis by (simp add: sender_round_def)
qed

lemma timer_begin_inv:
  assumes "senders_inv g" "i < length (timers g)" "timer_begin g i = Inr g'"
  shows "senders_inv g'"
proof -
  obtain a t where at: "timers g ! i = (a, t)" by (cases "timers g ! i")
  then have mem: "(a, t) \<in> set (timers g)" using assms(2) nth_mem by metis
  then obtain s where s: "ar_heap (sender_heap g) a = Some s" "sender_inv s"
    using senders_inv_allocated [OF assms(1)] by force
  show ?thesis
  proof (cases "t_start_begin s")
    case None
    then have "g' = g\<lparr>timers := take i (timers g) @ drop (Suc i) (timers g)\<rparr>"
      using assms(2,3) at s by (simp add: timer_begin_def bget_def)
    then show ?thesis
      using assms(1) by (intro senders_inv_fewer [OF assms(1)]) (auto simp: senders_inv_def dest: in_set_takeD in_set_dropD)
  next
    case (Some tid)
    then have g': "g' = g\<lparr>timers := (timers g)[i := (a, Some tid)]\<rparr>"
      using assms(2,3) at s by (simp add: timer_begin_def bget_def)
    have "tid < 375" using Some s(2) by (auto simp: t_start_begin_def sender_inv_def split: if_splits)
    moreover have "set (timers g') \<subseteq> insert (a, Some tid) (set (timers g))"
      by (simp add: g' set_update_subset_insert)
    moreover have "fst ` set (timers g') \<subseteq> fst ` insert (a, Some tid) (set (timers g))"
      by (rule image_mono) (simp add: g' set_update_subset_insert)
    moreover have "a \<in> fst ` set (timers g)" using mem by force
    ultimately have "fst ` set (timers g') \<subseteq> fst ` set (timers g)" "\<forall>a tid. (a, Some tid) \<in> set (timers g') \<longrightarrow> tid < 375"
      using assms(1) unfolding senders_inv_def by auto
    with assms(1) show ?thesis unfolding senders_inv_def g' by (simp add: subset_trans)
  qed
qed

lemma timer_end_inv:
  assumes "senders_inv g" "i < length (timers g)" "timer_end g i = Inr g'"
  shows "senders_inv g'"
proof -
  obtain a t where at: "timers g ! i = (a, t)" by (cases "timers g ! i")
  then have mem: "(a, t) \<in> set (timers g)" using assms(2) nth_mem by metis
  then obtain s where s: "ar_heap (sender_heap g) a = Some s" "sender_inv s"
    using senders_inv_allocated [OF assms(1)] by force
  show ?thesis
  proof (cases t)
    case None
    then show ?thesis using assms at by (simp add: timer_end_def bget_def)
  next
    case (Some tid)
    then have "tid < 375" using assms(1) mem by (auto simp: senders_inv_def)
    from assms(2,3) at s Some obtain s' where s': "t_start_end s tid = Inr s'"
        "g' = (set_sender g a s')\<lparr>timers := take i (timers g) @ drop (Suc i) (timers g)\<rparr>"
      by (auto simp: timer_end_def bget_def rbind_Inr_iff)
    have "sender_inv s'"
      using s'(1) s(2) sender_inv_retransmit [OF s(2) \<open>tid < 375\<close>] by (auto simp: t_start_end_def split: if_splits)
    then have inv: "senders_inv (set_sender g a s')" by (rule set_sender_inv [OF assms(1) s(1)])
    show ?thesis
      using inv by (intro senders_inv_fewer [OF inv])
        (auto simp: s'(2) set_sender_def senders_inv_def dest: in_set_takeD in_set_dropD)
  qed
qed

section \<open>Every step keeps the invariant\<close>

lemma process_inbound_udp_inv: "senders_inv g \<Longrightarrow> process_inbound_udp m sp d g = Inr g' \<Longrightarrow> senders_inv g'"
  by (auto simp: process_inbound_udp_def rbind_Inr_iff dest: process_PKT_inv split: if_splits)

lemma handle_user_input_inv: "senders_inv g \<Longrightarrow> handle_user_input m line g = Inr g' \<Longrightarrow> senders_inv g'"
  using sender_part_inv [OF handle_user_input_frame] by blast

lemma main_round_inv:
  assumes "senders_inv (globals nd)" "main_round m r nd = Inr nd'"
  shows "senders_inv (globals nd')"
proof (cases r)
  case Select_Error
  with assms show ?thesis by (auto simp: main_round_def)
next
  case (Ready udp input)
  with assms(2) obtain g ub g' where
    g: "(case udp of None \<Rightarrow> Inr (globals nd) | Some d \<Rightarrow> process_inbound_udp m (spf nd) d (globals nd)) = Inr g"
      "(case input of None \<Rightarrow> Inr (userbuf nd, g)
        | Some data \<Rightarrow> process_user_input (handle_user_input m) data (userbuf nd) g) = Inr (ub, g')"
      "globals nd' = g'"
    by (auto simp: main_round_def rbind_Inr_iff)
  have "senders_inv g" using g(1) assms(1) process_inbound_udp_inv by (auto split: option.splits)
  moreover have "senders_inv g'" if "input = Some data" "senders_inv g" for data
    by (rule process_user_input_inv [where P = senders_inv and h = "handle_user_input m"])
      (use g(2) that handle_user_input_inv in auto)
  ultimately have "senders_inv g'" using g(2) by (cases input) auto
  with g(3) show ?thesis by simp
qed

lemma peer_event_inv:
  assumes "senders_inv (globals nd)" "peer_event m e nd = Inr nd'"
  shows "senders_inv (globals nd')"
proof (cases "main_running nd \<and> enabled (globals nd) e")
  case False
  with assms show ?thesis by (auto simp: peer_event_def Let_def)
next
  case True
  note run = assms(2) [unfolded peer_event_def Let_def] True
  show ?thesis
  proof (cases e)
    case (Main_Round r)
    with run assms(1) main_round_inv show ?thesis by auto
  next
    case (Sender_Enter a)
    with run assms(1) show ?thesis
      by (auto simp: on_globals_def rbind_Inr_iff enabled_def dest: sender_enter_inv)
  next
    case (Sender_Round a)
    with True obtain s where "ar_heap (sender_heap (globals nd)) a = Some s"
      using senders_inv_allocated [OF assms(1), of a] by (auto simp: enabled_def)
    with run assms(1) Sender_Round show ?thesis
      by (auto simp: on_globals_def rbind_Inr_iff dest: sender_round_inv)
  next
    case (Timer_Begin i)
    with run assms(1) show ?thesis
      by (auto simp: on_globals_def rbind_Inr_iff enabled_def dest: timer_begin_inv)
  next
    case (Timer_End i)
    with run obtain g' where "i < length (timers (globals nd))" "timer_end (globals nd) i = Inr g'" "globals nd' = g'"
      by (auto simp: on_globals_def rbind_Inr_iff enabled_def)
    with timer_end_inv [OF assms(1)] show ?thesis by blast
  next
    case Receiver_Round
    with run assms(1) show ?thesis
      by (auto simp: on_globals_def rbind_Inr_iff sender_part_inv [OF receiver_round_frame])
  qed
qed

lemma handler_start_inv: "senders_inv (handler_start c files w)"
  by (simp add: handler_start_def senders_inv_def arena_inv_def)

lemma main_inv: "main env = Inr nd \<Longrightarrow> senders_inv (globals nd)"
  by (auto simp: main_def peer_run_def rbind_Inr_iff Let_def handler_start_inv split: if_splits prod.splits)

lemma reachable_inv: "reachable m env nd \<Longrightarrow> senders_inv (globals nd)"
  by (induction rule: reachable.induct) (auto intro: main_inv peer_event_inv)

text \<open>An environment in which the program starts.\<close>

definition demo_env :: environment where
  "demo_env = \<lparr>env_gethostbyname = (\<lambda>h. Some 0x0100007F), env_inet_aton = (\<lambda>h. None), env_router = None,
     env_files = (\<lambda>f. Some (peer_list_text [(1, cstr ''a'', 80)])), env_writable = (\<lambda>f. True),
     env_options = [(112, [110]), (99, [104]), (102, [99]), (109, dec 4), (105, dec 1)], env_debug = 0,
     env_socket = True, env_bind = True, env_testing = False\<rparr>"

lemma demo_env_starts: "\<exists>nd. main demo_env = Inr nd"
proof -
  have "entry_ok (\<lambda>h. Some 0x0100007F) (1, cstr ''a'', 80)"
    by (simp add: entry_ok_def cstr_def isspace_def peer_line_def dec.simps word_le_nat_alt)
  then have "ok (bt_parse_command_line (env_gethostbyname demo_env) (env_files demo_env) (env_options demo_env) bt_init 0)
      (\<lambda>(c, dbg). dbg = 0)"
    unfolding demo_env_def environment.simps
    by (intro ok_mono [OF bt_parse_command_line_ok [where es = "[(1, cstr ''a'', 80)]"]]) auto
  then show ?thesis
    by (auto simp: main_def ok_iff peer_run_def Let_def demo_env_def testing_config_def split: prod.splits)
qed

section \<open>A round of the sender thread\<close>

lemma wire_image_data_packet: "\<exists>bytes. wire_image (data_packet d i) = Inr bytes"
  by (simp add: data_packet_def Let_def wire_image_sized DATA_SIZE_def)

lemma chunk_pkts_nth: "chunk_pkts ps \<Longrightarrow> length ps = CHUNK_PKTS \<and> (i < CHUNK_PKTS \<longrightarrow> (\<exists>bytes. wire_image (ps ! i) = Inr bytes))"
  using wire_image_data_packet by (auto simp: chunk_pkts_def)

lemma sender_send_ok:
  assumes "senders_inv g" "ar_heap (sender_heap g) a = Some s" "p_receiver s = Some b" "peer_heap (config g) b = Some pe"
  shows "ok (sender_send g a) (\<lambda>g'.
    if last_sent s < last_available s \<and> last_sent s < pkt_num s
    then (\<exists>bytes. wire_image (pkts s ! unat (last_sent s)) = Inr bytes \<and>
            sent g' = sent g @ [(sin_addr pe, sin_port pe, bytes)]) \<and>
         (\<exists>s'. ar_heap (sender_heap g') a = Some s' \<and> last_sent s' = last_sent s + 1 \<and>
            last_acked s' = last_acked s \<and> same_connection s s')
    else g' = g)"
proof (cases "last_sent s < last_available s \<and> last_sent s < pkt_num s")
  case False
  with assms(2) show ?thesis by (auto simp: sender_send_def)
next
  case True
  have inv: "sender_inv s" by (rule senders_invD [OF assms(1,2)])
  then have i: "unat (last_sent s) < CHUNK_PKTS"
    using True by (simp add: sender_inv_def CHUNK_PKTS_def word_less_nat_alt)
  from chunk_pkts_nth [of "pkts s" "unat (last_sent s)"] inv i
  obtain bytes where w: "wire_image (pkts s ! unat (last_sent s)) = Inr bytes" "length (pkts s) = CHUNK_PKTS"
    by (auto simp: sender_inv_def)
  show ?thesis
    using True assms w i
    by (auto simp: sender_send_def Let_def run_timer_def start_timer_def bget_def send_PKT_def same_connection_def)
qed

section \<open>Properties\<close>

text \<open>
  C4. The sending side is well formed whatever happens: in every state the program can reach, through any
  sequence of datagrams, lines typed, sender rounds, timers and receiver rounds, every sender holds the
  375 packets of one chunk, has sent at most 375 and acknowledged fewer, has a window between 1 and
  \<open>2 ^ 24\<close>; threads and timers refer to existing senders, pending timers have numbers below 375, and the log
  is not closed.
\<close>

theorem senders_always_well_formed:
  assumes "reachable m env nd"
  shows "senders_inv (globals nd)"
  by (rule reachable_inv [OF assms])

theorem senders_always_well_formed_witness:
  "\<exists>nd. main demo_env = Inr nd \<and> senders_inv (globals nd)"
  using demo_env_starts senders_always_well_formed reachable.start by blast

text \<open>
  C8. A round of the sender thread: with the window open it sends exactly the packet after the last one
  sent, to its peer, and counts it; with the window closed it changes nothing. It goes on in either case:
  no sender thread ever ends, because \<open>process_ACK\<close> drops the connection without raising \<open>last_acked\<close> to the
  number of packets.
\<close>

theorem sender_round_sends:
  assumes "senders_inv g" "ar_heap (sender_heap g) a = Some s" "p_receiver s = Some b" "peer_heap (config g) b = Some pe"
  shows "ok (sender_round g a) (\<lambda>(go, g'). go \<and>
    (if last_sent s < last_available s \<and> last_sent s < pkt_num s
     then (\<exists>bytes. wire_image (pkts s ! unat (last_sent s)) = Inr bytes \<and>
             sent g' = sent g @ [(sin_addr pe, sin_port pe, bytes)]) \<and>
          (\<exists>s'. ar_heap (sender_heap g') a = Some s' \<and> last_sent s' = last_sent s + 1)
     else g' = g))"
proof -
  obtain g' where g': "sender_send g a = Inr g'" and
    post: "if last_sent s < last_available s \<and> last_sent s < pkt_num s
      then (\<exists>bytes. wire_image (pkts s ! unat (last_sent s)) = Inr bytes \<and>
              sent g' = sent g @ [(sin_addr pe, sin_port pe, bytes)]) \<and>
           (\<exists>s'. ar_heap (sender_heap g') a = Some s' \<and> last_sent s' = last_sent s + 1 \<and>
              last_acked s' = last_acked s \<and> same_connection s s')
      else g' = g"
    using sender_send_ok [OF assms] by (auto simp: ok_iff)
  obtain s' where s': "ar_heap (sender_heap g') a = Some s'" "last_acked s' = last_acked s" "pkt_num s' = pkt_num s"
    using post assms(2) by (auto simp: same_connection_def split: if_splits)
  have "\<not> last_acked s' \<ge> pkt_num s'"
    using senders_invD [OF assms(1,2)] s' by (simp add: sender_inv_def not_le)
  then have "sender_round g a = Inr (True, g')" using g' s'(1) by (simp add: sender_round_def)
  then show ?thesis using post by (auto split: if_splits)
qed

definition demo_chunk_sender :: sender where
  "demo_chunk_sender = (demo_sender 7)\<lparr>pkts := map (data_packet (replicate BT_CHUNK_SIZE 0)) [0..<CHUNK_PKTS]\<rparr>"

lemma demo_chunk_sender_inv: "sender_inv demo_chunk_sender"
  unfolding sender_inv_def chunk_pkts_def
  by (intro conjI exI [of _ "replicate BT_CHUNK_SIZE 0"])
    (simp_all add: demo_chunk_sender_def demo_sender_def sender_ok_def window_def MAX_WINDOW_def)

lemma demo_senders_inv: "senders_inv (demo_handler demo_chunk_sender)"
  by (simp add: demo_handler_def senders_inv_def arena_inv_def handler_start_def demo_chunk_sender_inv)

theorem sender_round_sends_witness:
  "ok (sender_round (demo_handler demo_chunk_sender) 0) (\<lambda>(go, g'). go \<and> length (sent g') = 1)"
  by (rule ok_mono [OF sender_round_sends [OF demo_senders_inv, where s = demo_chunk_sender and b = 7 and
        pe = "\<lparr>peer_id = 2, sin_addr = 9, sin_port = 80, peer_next = None\<rparr>"]])
    (auto simp: demo_handler_def handler_start_def demo_config_def demo_chunk_sender_def demo_sender_def)

end
