(* ===== verification/Data_Receipt.thy ===== *)
theory Data_Receipt
  imports Ack_Window Tracker_Packets Tracker_Files
begin

text \<open>
  The receiving side of a connection: which packets are accepted at all, and what a DATA packet does to
  the chunk, to the receiver and to the connection.
\<close>

section \<open>Packets that are accepted\<close>

definition acceptable :: "pkt_header \<Rightarrow> bool" where
  "acceptable h \<longleftrightarrow> magic_num h = 15441 \<and> version_num h = 1 \<and>
     (\<exists>t. packet_type h = pkt_code t \<and> (t = DATA \<longleftrightarrow> seq_num h \<noteq> 0) \<and> (t \<noteq> ACK \<longrightarrow> ack_num h = 0))"

lemma pkt_parse_type_code: "pkt_parse_type (pkt_code t) = Inr t"
  by (cases t) (simp_all add: pkt_parse_type_def)

lemma pkt_code_inject [simp]: "pkt_code t = pkt_code t' \<longleftrightarrow> t = t'"
  by (cases t; cases t') simp_all

lemma pkt_code_range: "(b :: byte) \<le> 5 \<longleftrightarrow> (\<exists>t. b = pkt_code t)"
proof
  assume "b \<le> 5"
  then have "unat b \<le> 5" by (simp add: word_le_nat_alt)
  then have n: "unat b = 0 \<or> unat b = 1 \<or> unat b = 2 \<or> unat b = 3 \<or> unat b = 4 \<or> unat b = 5" by linarith
  have "b = of_nat (unat b)" by simp
  with n have "b = 0 \<or> b = 1 \<or> b = 2 \<or> b = 3 \<or> b = 4 \<or> b = 5" by (elim disjE) simp_all
  then show "\<exists>t. b = pkt_code t" by (metis pkt_code.simps)
next
  assume "\<exists>t. b = pkt_code t"
  then obtain t where "b = pkt_code t" by blast
  then show "b \<le> 5" by (cases t) auto
qed

lemma acceptable_code:
  "packet_type h = pkt_code t \<Longrightarrow> acceptable h \<longleftrightarrow> magic_num h = MAGIC \<and> version_num h = VERSION \<and>
     (t = DATA \<longleftrightarrow> seq_num h \<noteq> 0) \<and> (t \<noteq> ACK \<longrightarrow> ack_num h = 0)"
  by (auto simp: acceptable_def MAGIC_def VERSION_def)

lemma correct_spec: "correct p = Inr (acceptable (header p))"
proof (cases "packet_type (header p) \<le> 5")
  case False
  then have "\<not> acceptable (header p)" using pkt_code_range unfolding acceptable_def by metis
  with False show ?thesis by (simp add: correct_def Let_def not_le)
next
  case True
  then obtain t where t: "packet_type (header p) = pkt_code t" using pkt_code_range by blast
  have "\<not> packet_type (header p) > pkt_code DENIED" using True by (simp add: not_less)
  moreover have "\<not> packet_type (header p) < pkt_code WHOHAS" by simp
  moreover have "0 < x \<longleftrightarrow> x \<noteq> 0" "x \<le> 0 \<longleftrightarrow> x = 0" for x :: u32 by (auto simp: word_neq_0_conv)
  ultimately show ?thesis
    by (cases t) (simp_all add: correct_def acceptable_code [OF t] Let_def t pkt_parse_type_code del: pkt_code.simps)
qed

lemma not_correct_spec: "not_correct p = Inr (\<not> acceptable (header p))"
  by (simp add: not_correct_def correct_spec)

section \<open>Filling the chunk\<close>

definition slice :: "byte list \<Rightarrow> nat \<Rightarrow> byte list" where
  "slice d i = take DATA_SIZE (drop (i * DATA_SIZE) d)"

text \<open>\<open>got d k x\<close>: the buffer \<open>x\<close> of a chunk holds the first \<open>k\<close> packets of \<open>d\<close>.\<close>

definition got :: "byte list \<Rightarrow> nat \<Rightarrow> byte list \<Rightarrow> bool" where
  "got d k x \<longleftrightarrow> length x = BT_CHUNK_SIZE \<and> take (k * DATA_SIZE) x = take (k * DATA_SIZE) d"

lemma got_0: "length x = BT_CHUNK_SIZE \<Longrightarrow> got d 0 x"
  by (simp add: got_def)

lemma got_all:
  assumes "got d CHUNK_PKTS x" "length d = BT_CHUNK_SIZE"
  shows "x = d"
proof -
  have "BT_CHUNK_SIZE \<le> CHUNK_PKTS * DATA_SIZE" by (simp add: CHUNK_PKTS_def DATA_SIZE_def BT_CHUNK_SIZE_def)
  then show ?thesis using assms unfolding got_def by (metis take_all)
qed

lemma data_packet_slice: "data_packet d i = \<lparr>header = sized_header DATA (of_nat (i + 1)) (length (slice d i)), pkt_data = slice d i\<rparr>"
  by (simp add: data_packet_def slice_def Let_def)

lemma length_slice: "length (slice d i) \<le> DATA_SIZE"
  by (simp add: slice_def)

lemma slice_fits:
  assumes "length d = BT_CHUNK_SIZE" "i < CHUNK_PKTS"
  shows "i * DATA_SIZE + length (slice d i) \<le> BT_CHUNK_SIZE"
proof -
  have "i * DATA_SIZE \<le> 374 * DATA_SIZE" using assms(2) by (simp add: CHUNK_PKTS_def)
  then have "i * DATA_SIZE \<le> BT_CHUNK_SIZE" by (simp add: DATA_SIZE_def BT_CHUNK_SIZE_def)
  moreover have "length (slice d i) \<le> BT_CHUNK_SIZE - i * DATA_SIZE" using assms(1) by (simp add: slice_def)
  ultimately show ?thesis by linarith
qed

lemma take_step: "length d = n \<Longrightarrow> take (p + q) (take p d @ take q (drop p d) @ r) = take (p + q) d @ take (p + q - min n (p + q)) r"
proof -
  have "take p d @ take q (drop p d) = take (p + q) d" by (simp add: take_add)
  then have "take p d @ take q (drop p d) @ r = take (p + q) d @ r" by (metis append_assoc)
  moreover assume "length d = n"
  then have "length (take (p + q) d) = min n (p + q)" by simp
  ultimately show ?thesis by (simp only: take_append take_take min.idem)
qed

lemma got_step:
  assumes "got d k x" "length d = BT_CHUNK_SIZE" "k < CHUNK_PKTS"
  shows "got d (Suc k) (take (k * DATA_SIZE) x @ slice d k @ drop (k * DATA_SIZE + length (slice d k)) x)"
proof -
  let ?p = "k * DATA_SIZE" and ?r = "drop (k * DATA_SIZE + length (slice d k)) x"
  have x: "length x = BT_CHUNK_SIZE" "take ?p x = take ?p d" using assms(1) by (simp_all add: got_def)
  have r: "take (?p + DATA_SIZE - min BT_CHUNK_SIZE (?p + DATA_SIZE)) ?r = []"
  proof (cases "?p + DATA_SIZE \<le> BT_CHUNK_SIZE")
    case False
    then have "length (slice d k) = BT_CHUNK_SIZE - ?p" using assms(2) by (simp add: slice_def)
    then show ?thesis using x(1) by simp
  qed simp
  have "take (Suc k * DATA_SIZE) (take ?p x @ slice d k @ ?r) = take (Suc k * DATA_SIZE) d"
    using take_step [OF assms(2), of ?p DATA_SIZE ?r] r by (simp add: x(2) slice_def add.commute)
  moreover have "length (take ?p x @ slice d k @ ?r) = BT_CHUNK_SIZE"
    using slice_fits [OF assms(2,3)] x(1) by simp
  ultimately show ?thesis by (simp add: got_def)
qed

section \<open>A DATA packet\<close>

text \<open>What a receiver gets: the packet, and behind it whatever was in the buffer.\<close>

definition arrived :: "packet \<Rightarrow> byte list \<Rightarrow> packet" where
  "arrived p junk = p\<lparr>pkt_data := pkt_data p @ junk\<rparr>"

lemma store_data_slice:
  assumes "length (chunk_data c) = BT_CHUNK_SIZE" "length d = BT_CHUNK_SIZE" "k < CHUNK_PKTS"
  shows "store_data c (of_nat k) (arrived (data_packet d k) junk) =
    Inr (c\<lparr>chunk_data := take (k * DATA_SIZE) (chunk_data c) @ slice d k @
      drop (k * DATA_SIZE + length (slice d k)) (chunk_data c)\<rparr>)"
proof -
  have len: "length (slice d k) < 65520" using length_slice [of d k] by (simp add: DATA_SIZE_def)
  have "uint (total_pkt_len (header (data_packet d k))) = 16 + int (length (slice d k))"
    using unat_sized_total [OF len] by (simp add: data_packet_slice uint_nat)
  moreover have "uint (header_len (header (data_packet d k))) = 16"
    by (simp add: data_packet_slice sized_header_def HDR_SIZE_def)
  moreover have "unat (of_nat k * of_nat DATA_SIZE :: u32) = k * DATA_SIZE"
    using assms(3) by (simp add: CHUNK_PKTS_def DATA_SIZE_def unat_word_ariths unat_of_nat take_bit_nat_eq_self)
  ultimately show ?thesis
    using slice_fits [OF assms(2,3)] assms(1)
    by (simp add: store_data_def Let_def arrived_def buf_read_def buf_write_def data_packet_slice)
qed

text \<open>One connection on the receiving side: the receiver, its chunk, and the first \<open>k\<close> packets of \<open>d\<close>.\<close>

definition receiving :: "handler \<Rightarrow> nat \<Rightarrow> nat \<Rightarrow> byte list \<Rightarrow> nat \<Rightarrow> bool" where
  "receiving st a ca d k \<longleftrightarrow>
     (\<exists>r. ar_heap (receiver_heap st) a = Some r \<and> r_chunk r = Some ca \<and> last_rcvd r = of_nat k \<and>
        next_expected r = of_nat (k + 1)) \<and>
     (\<exists>c. ch_heap (chunk_heap st) ca = Some c \<and> got d k (chunk_data c))"

text \<open>The step only changes the receiver's numbers and the data of its chunk.\<close>

definition data_step :: "handler \<Rightarrow> nat \<Rightarrow> nat \<Rightarrow> receiver arena \<Rightarrow> chunk_mem \<Rightarrow> bool" where
  "data_step st a ca rh ch \<longleftrightarrow> (\<exists>r r' c x. ar_heap (receiver_heap st) a = Some r \<and> p_sender r' = p_sender r \<and>
     rh = (receiver_heap st)\<lparr>ar_heap := (ar_heap (receiver_heap st))(a \<mapsto> r')\<rparr> \<and>
     ch_heap (chunk_heap st) ca = Some c \<and> length x = BT_CHUNK_SIZE \<and>
     ch = (chunk_heap st)\<lparr>ch_heap := (ch_heap (chunk_heap st))(ca \<mapsto> c\<lparr>chunk_data := x\<rparr>)\<rparr>)"

lemma data_step_refl:
  assumes "receiving st a ca d k"
  shows "data_step st a ca (receiver_heap st) (chunk_heap st)"
proof -
  obtain r c where "ar_heap (receiver_heap st) a = Some r" "ch_heap (chunk_heap st) ca = Some c" "got d k (chunk_data c)"
    using assms by (auto simp: receiving_def)
  then show ?thesis unfolding data_step_def got_def
    by (intro exI [of _ r] exI [of _ c] exI [of _ "chunk_data c"]) (simp add: fun_upd_idem)
qed

lemma accept_data_step:
  assumes "receiving st a ca d k" "length d = BT_CHUNK_SIZE" "k < CHUNK_PKTS" "i < CHUNK_PKTS"
  shows "\<exists>rh ch. accept_data st (arrived (data_packet d i) junk) a = Inr (st\<lparr>receiver_heap := rh, chunk_heap := ch\<rparr>) \<and>
    receiving (st\<lparr>receiver_heap := rh, chunk_heap := ch\<rparr>) a ca d (if i = k then Suc k else k) \<and> data_step st a ca rh ch"
proof -
  obtain r c where r: "ar_heap (receiver_heap st) a = Some r" "r_chunk r = Some ca" "last_rcvd r = of_nat k"
      "next_expected r = of_nat (k + 1)" and c: "ch_heap (chunk_heap st) ca = Some c" "got d k (chunk_data c)"
    using assms(1) by (auto simp: receiving_def)
  have seq: "seq_num (header (arrived (data_packet d i) junk)) = of_nat (i + 1)"
    by (simp add: arrived_def data_packet_slice sized_header_def)
  have same: "(of_nat (i + 1) :: u32) = of_nat (k + 1) \<longleftrightarrow> i = k"
    using assms(3,4) by (simp add: word_unat_eq_iff CHUNK_PKTS_def unat_of_nat take_bit_nat_eq_self del: of_nat_add of_nat_Suc)
  show ?thesis
  proof (cases "i = k")
    case False
    then have "accept_data st (arrived (data_packet d i) junk) a = Inr (st\<lparr>receiver_heap := receiver_heap st, chunk_heap := chunk_heap st\<rparr>)"
      using r same seq by (simp add: accept_data_def)
    then show ?thesis using False assms(1) data_step_refl [OF assms(1)] by (intro exI [of _ "receiver_heap st"] exI [of _ "chunk_heap st"]) simp
  next
    case True
    have "length (chunk_data c) = BT_CHUNK_SIZE" using c(2) by (simp add: got_def)
    note stored = store_data_slice [OF this assms(2,3), of junk]
    define x where "x = take (k * DATA_SIZE) (chunk_data c) @ slice d k @ drop (k * DATA_SIZE + length (slice d k)) (chunk_data c)"
    have x: "got d (Suc k) x" "length x = BT_CHUNK_SIZE"
      using got_step [OF c(2) assms(2,3)] by (simp_all add: x_def got_def)
    let ?r' = "r\<lparr>last_rcvd := next_expected r, next_expected := next_expected r + 1\<rparr>"
    let ?rh = "(receiver_heap st)\<lparr>ar_heap := (ar_heap (receiver_heap st))(a \<mapsto> ?r')\<rparr>"
    let ?ch = "(chunk_heap st)\<lparr>ch_heap := (ch_heap (chunk_heap st))(ca \<mapsto> c\<lparr>chunk_data := x\<rparr>)\<rparr>"
    have "accept_data st (arrived (data_packet d i) junk) a = Inr (st\<lparr>receiver_heap := ?rh, chunk_heap := ?ch\<rparr>)"
      using True r c seq stored by (simp add: accept_data_def x_def)
    moreover have "receiving (st\<lparr>receiver_heap := ?rh, chunk_heap := ?ch\<rparr>) a ca d (Suc k)"
      using r c x by (simp add: receiving_def)
    moreover have "data_step st a ca ?rh ?ch"
      unfolding data_step_def using r(1) c(1) x(2)
      by (intro exI [of _ r] exI [of _ ?r'] exI [of _ c] exI [of _ x]) simp
    ultimately show ?thesis unfolding True by (simp only: simp_thms if_True) blast
  qed
qed

section \<open>Acknowledging\<close>

definition ack_packet :: "nat \<Rightarrow> packet" where
  "ack_packet k = \<lparr>header = sized_header ACK (of_nat k) 0, pkt_data = []\<rparr>"

text \<open>The bytes a packet leaves the host with.\<close>

definition wire :: "packet \<Rightarrow> byte list" where
  "wire p = (case wire_image p of Inl e \<Rightarrow> [] | Inr b \<Rightarrow> b)"

lemma make_ACK_packet: "make_ACK (of_nat k) = Inr (ack_packet k)"
  using make_PKT_Inr [of 0 "[]" ACK "of_nat k"] by (simp add: make_ACK_def ack_packet_def)

lemma wire_ack: "wire_image (ack_packet k) = Inr (wire (ack_packet k))"
  using wire_image_sized [of 0 "[]" ACK "of_nat k"] by (simp add: wire_def ack_packet_def)

lemma wire_data: "wire_image (data_packet d i) = Inr (wire (data_packet d i))"
  using wire_image_sized [of "length (slice d i)" "slice d i" DATA "of_nat (i + 1)"] length_slice [of d i]
  by (simp add: wire_def data_packet_slice DATA_SIZE_def)

lemma send_PKT_ok:
  "peer_heap (config st) b = Some pe \<Longrightarrow> wire_image p = Inr w \<Longrightarrow>
   send_PKT st (Some b) (Some p) = Inr (st\<lparr>sent := sent st @ [(sin_addr pe, sin_port pe, w)]\<rparr>)"
  by (simp add: send_PKT_def)

lemma chunk_complete: "k \<le> CHUNK_PKTS \<Longrightarrow> of_nat BT_CHUNK_SIZE \<le> (of_nat k * of_nat DATA_SIZE :: u32) \<longleftrightarrow> k = CHUNK_PKTS"
  by (auto simp: word_le_nat_alt CHUNK_PKTS_def DATA_SIZE_def BT_CHUNK_SIZE_def unat_word_ariths unat_of_nat
      take_bit_nat_eq_self)

lemma process_DATA_step:
  assumes "get_receiver (receiver_pool st) (receiver_heap st) (Some b) = Inr (Some a)"
    and "receiving st a ca d k" "length d = BT_CHUNK_SIZE" "k < CHUNK_PKTS" "i < CHUNK_PKTS"
    and "peer_heap (config st) b = Some pe"
  defines "k' \<equiv> if i = k then Suc k else k"
  shows "\<exists>rh ch st1. st1 = st\<lparr>receiver_heap := rh, chunk_heap := ch,
      sent := sent st @ [(sin_addr pe, sin_port pe, wire (ack_packet k'))]\<rparr> \<and> receiving st1 a ca d k' \<and> data_step st a ca rh ch \<and>
    process_DATA m st (arrived (data_packet d i) junk) (Some b) =
      (if k' < CHUNK_PKTS then Inr st1 else finish_chunk m st1 a (the (ar_heap rh a)))"
proof -
  obtain rh ch where acc: "accept_data st (arrived (data_packet d i) junk) a = Inr (st\<lparr>receiver_heap := rh, chunk_heap := ch\<rparr>)"
      "receiving (st\<lparr>receiver_heap := rh, chunk_heap := ch\<rparr>) a ca d k'" "data_step st a ca rh ch"
    using accept_data_step [OF assms(2-5), of junk] unfolding k'_def by blast
  then obtain r where r: "ar_heap rh a = Some r" "last_rcvd r = of_nat k'" by (auto simp: receiving_def)
  let ?st1 = "st\<lparr>receiver_heap := rh, chunk_heap := ch, sent := sent st @ [(sin_addr pe, sin_port pe, wire (ack_packet k'))]\<rparr>"
  have k': "k' \<le> CHUNK_PKTS" using assms(4) by (simp add: k'_def)
  have "send_PKT (st\<lparr>receiver_heap := rh, chunk_heap := ch\<rparr>) (Some b) (Some (ack_packet k')) = Inr ?st1"
    using send_PKT_ok [of "st\<lparr>receiver_heap := rh, chunk_heap := ch\<rparr>" b pe] assms(6) wire_ack by simp
  then have "process_DATA m st (arrived (data_packet d i) junk) (Some b) =
      (if k' < CHUNK_PKTS then Inr ?st1 else finish_chunk m ?st1 a (the (ar_heap rh a)))"
    using assms(1) acc(1) r make_ACK_packet [of k'] chunk_complete [OF k'] k' by (simp add: process_DATA_def)
  moreover have "receiving ?st1 a ca d k'" using acc(2) by (simp add: receiving_def)
  ultimately show ?thesis using acc(3) by blast
qed

section \<open>Completing the chunk\<close>

lemma update_state_data:
  "update_state mem q p s = Inr mem' \<Longrightarrow> ch_heap mem a = Some c \<Longrightarrow>
   \<exists>c'. ch_heap mem' a = Some c' \<and> chunk_data c' = chunk_data c"
  by (auto simp: update_state_def rbind_Inr_iff deref_Inr_iff split: option.splits if_splits)

lemma finish_chunk_keeps:
  assumes "finish_chunk m st a r = Inr st'" "receiving st a' ca d k"
  shows "receiving st' a' ca d k \<and> sent st' = sent st \<and> config st' = config st \<and>
    remove_receiver (receiver_pool st) (receiver_heap st) (Some a) = Inr (receiver_pool st') \<and>
    receiver_heap st' = receiver_heap st \<and> down_chunks st' = down_chunks st"
proof -
  obtain good mem pool where g: "update_state (chunk_heap st) (down_chunks st) (r_chunk r) (if good then FINISHED else READY) = Inr mem"
      "remove_receiver (receiver_pool st) (receiver_heap st) (Some a) = Inr pool"
      "st' = st\<lparr>chunk_heap := mem, receiver_pool := pool\<rparr>"
    using assms(1) by (auto simp: finish_chunk_def rbind_Inr_iff)
  with assms(2) update_state_data [OF g(1)] show ?thesis by (fastforce simp: receiving_def)
qed

end
