(* ===== verification/Chunk_Transfer.thy ===== *)
theory Chunk_Transfer
  imports Sender_Invariant Data_Receipt
begin

text \<open>
  The transfer of one chunk between two peers: the sending peer \<open>A\<close> and the receiving peer \<open>B\<close> run the
  code of \<open>Handler_C\<close>, and the network between them loses, repeats, delays and reorders datagrams. A
  state of the transfer is the pair of their globals; what has been sent stays available for delivery
  at any time, any number of times.
\<close>

section \<open>The transfer as a transition system\<close>

text \<open>
  A session: the data, the sender object and the peer it serves on \<open>A\<close>; the receiver object, its peer and
  the chunk on \<open>B\<close>; the ports the two are known by; and how many datagrams each had sent before it (old
  datagrams of earlier sessions, whose numbers mean other packets, are assumed to be gone).
\<close>

record session =
  se_data :: "byte list"
  se_sender :: nat
  se_to :: nat
  se_receiver :: nat
  se_from :: nat
  se_chunk :: nat
  se_port_a :: u16
  se_port_b :: u16
  se_sent_a :: nat
  se_sent_b :: nat

inductive transfer_step :: "machine \<Rightarrow> session \<Rightarrow> handler \<times> handler \<Rightarrow> handler \<times> handler \<Rightarrow> bool" for m se where
  send: "sender_round A (se_sender se) = Inr (go, A') \<Longrightarrow> transfer_step m se (A, B) (A', B)"
| timer_starts: "i < length (timers A) \<Longrightarrow> fst (timers A ! i) = se_sender se \<Longrightarrow> timer_begin A i = Inr A' \<Longrightarrow>
    transfer_step m se (A, B) (A', B)"
| timer_fires: "i < length (timers A) \<Longrightarrow> fst (timers A ! i) = se_sender se \<Longrightarrow> timer_end A i = Inr A' \<Longrightarrow>
    transfer_step m se (A, B) (A', B)"
| data_arrives: "(ad, po, w) \<in> set (drop (se_sent_a se) (sent A)) \<Longrightarrow> packet_of_mem (w @ junk) = Inr p \<Longrightarrow>
    process_PKT m B p (se_port_a se) = Inr B' \<Longrightarrow> transfer_step m se (A, B) (A, B')"
| ack_arrives: "(ad, po, w) \<in> set (drop (se_sent_b se) (sent B)) \<Longrightarrow> packet_of_mem (w @ junk) = Inr p \<Longrightarrow>
    process_PKT m A p (se_port_b se) = Inr A' \<Longrightarrow> transfer_step m se (A, B) (A', B)"

section \<open>The invariant\<close>

text \<open>
  \<open>n\<close> is the number of packets \<open>B\<close> has received in order. On \<open>A\<close>, nothing beyond \<open>n\<close> is acknowledged, no
  timer has a larger number, and every datagram is a packet of the chunk; on \<open>B\<close> the chunk starts with
  the first \<open>n\<close> packets and every datagram acknowledges at most \<open>n\<close>.
\<close>

definition alone :: "('w \<Rightarrow> nat option) \<Rightarrow> pool_t cptr \<Rightarrow> 'w arena \<Rightarrow> nat \<Rightarrow> nat \<Rightarrow> nat list \<Rightarrow> bool" where
  "alone peer_of pool ar x a ids \<longleftrightarrow> pool_ok peer_of pool ar ids \<and>
     (\<forall>b \<in> set ids. peer_of (worker_at ar b) = Some x \<longrightarrow> b = a)"

definition only :: "nat \<Rightarrow> (u32 \<times> u16 \<times> byte list) list \<Rightarrow> byte list set \<Rightarrow> bool" where
  "only k out W \<longleftrightarrow> k \<le> length out \<and> (\<forall>(ad, po, w) \<in> set (drop k out). w \<in> W)"

definition sender_at :: "handler \<Rightarrow> session \<Rightarrow> nat \<Rightarrow> sender \<Rightarrow> bool" where
  "sender_at A se n s \<longleftrightarrow> ar_heap (sender_heap A) (se_sender se) = Some s \<and> p_receiver s = Some (se_to se) \<and>
     pkts s = map (data_packet (se_data se)) [0..<CHUNK_PKTS] \<and> unat (last_acked s) \<le> n \<and> unat (timer_id (timer s)) \<le> n"

definition sending :: "handler \<Rightarrow> session \<Rightarrow> nat \<Rightarrow> bool" where
  "sending A se n \<longleftrightarrow> senders_inv A \<and> (\<exists>s. sender_at A se n s) \<and>
     (\<forall>tid. (se_sender se, Some tid) \<in> set (timers A) \<longrightarrow> unat tid \<le> n) \<and>
     (\<exists>ids. alone p_receiver (sender_pool A) (sender_heap A) (se_to se) (se_sender se) ids) \<and>
     get_peer (config A) (se_port_b se) = Inr (Some (se_to se)) \<and> (\<exists>pe. peer_heap (config A) (se_to se) = Some pe) \<and>
     only (se_sent_a se) (sent A) {wire (data_packet (se_data se) i) | i. i < CHUNK_PKTS}"

definition receiver_side :: "handler \<Rightarrow> session \<Rightarrow> nat \<Rightarrow> bool" where
  "receiver_side B se n \<longleftrightarrow> receiving B (se_receiver se) (se_chunk se) (se_data se) n \<and> n \<le> CHUNK_PKTS \<and>
     (\<exists>r. ar_heap (receiver_heap B) (se_receiver se) = Some r \<and> p_sender r = Some (se_from se)) \<and>
     (\<exists>ids. alone p_sender (receiver_pool B) (receiver_heap B) (se_from se) (se_receiver se) ids \<and>
        (n = CHUNK_PKTS \<longrightarrow> se_receiver se \<notin> set ids)) \<and>
     get_peer (config B) (se_port_a se) = Inr (Some (se_from se)) \<and> (\<exists>pe. peer_heap (config B) (se_from se) = Some pe) \<and>
     only (se_sent_b se) (sent B) {wire (ack_packet k) | k. k \<le> n}"

lemma only_mono: "only k out W \<Longrightarrow> W \<subseteq> W' \<Longrightarrow> only k out W'"
  by (auto simp: only_def)

lemma only_append: "only k out W \<Longrightarrow> w \<in> W \<Longrightarrow> only k (out @ [(ad, po, w)]) W"
  by (auto simp: only_def)

lemma only_in: "only k out W \<Longrightarrow> (ad, po, w) \<in> set (drop k out) \<Longrightarrow> w \<in> W"
  by (auto simp: only_def)

lemma sending_mono: "sending A se n \<Longrightarrow> n \<le> n' \<Longrightarrow> sending A se n'"
  unfolding sending_def sender_at_def by (meson le_trans)

lemma alone_update:
  assumes "alone peer_of pool ar x a ids" "ar_heap ar c = Some w" "peer_of w' = peer_of w"
  shows "alone peer_of pool (ar\<lparr>ar_heap := (ar_heap ar)(c \<mapsto> w')\<rparr>) x a ids"
proof -
  have "pool_ok peer_of pool ar ids" using assms(1) by (simp add: alone_def)
  note upd = pool_ok_update [OF this assms(2,3)]
  show ?thesis using assms(1) upd by (simp add: alone_def)
qed

section \<open>Datagrams that arrive\<close>

lemma wire_arrives:
  assumes "packet_of_mem (wire p @ junk) = Inr q" "p = \<lparr>header = sized_header t s (length d), pkt_data = d\<rparr>" "length d < 65520"
  shows "convert q HOST = arrived p junk"
proof -
  have "wire_image p = Inr (wire p)" using wire_image_sized [OF assms(3) refl, of t s] by (simp add: wire_def assms(2))
  from packet_of_wire [OF assms(3) refl, of t s "wire p" junk] this assms(1) show ?thesis
    by (simp add: assms(2) arrived_def)
qed

lemma data_arrives_as:
  "packet_of_mem (wire (data_packet d i) @ junk) = Inr q \<Longrightarrow> convert q HOST = arrived (data_packet d i) junk"
  using wire_arrives [OF _ data_packet_slice] length_slice [of d i] by (simp add: DATA_SIZE_def)

lemma ack_arrives_as: "packet_of_mem (wire (ack_packet k) @ junk) = Inr q \<Longrightarrow> convert q HOST = arrived (ack_packet k) junk"
  using wire_arrives [of "ack_packet k" junk q ACK "of_nat k" "[]"] by (simp add: ack_packet_def)

lemma data_acceptable:
  assumes "i < CHUNK_PKTS"
  shows "acceptable (header (arrived (data_packet d i) junk))"
proof -
  have "unat (of_nat (i + 1) :: u32) = i + 1"
    using assms by (simp add: CHUNK_PKTS_def unat_of_nat take_bit_nat_eq_self del: of_nat_add of_nat_Suc)
  then have "(of_nat (i + 1) :: u32) \<noteq> 0" by (metis add_is_0 one_neq_zero unat_0)
  then show ?thesis
    by (simp add: acceptable_code [of _ DATA] arrived_def data_packet_slice sized_header_def INIT_ACK_def
        del: of_nat_add of_nat_Suc pkt_code.simps)
qed

lemma ack_acceptable: "acceptable (header (arrived (ack_packet k) junk))"
  by (simp add: acceptable_code [of _ ACK] arrived_def ack_packet_def sized_header_def INIT_SEQ_def del: pkt_code.simps)

lemma process_PKT_data:
  assumes "packet_of_mem (wire (data_packet d i) @ junk) = Inr q" "i < CHUNK_PKTS" "get_peer (config st) port = Inr peer"
  shows "process_PKT m st q port = process_DATA m st (arrived (data_packet d i) junk) peer"
  using data_arrives_as [OF assms(1)] data_acceptable [OF assms(2)] assms(3) pkt_parse_type_code [of DATA]
  by (simp add: process_PKT_def not_correct_spec del: pkt_code.simps)
    (simp add: arrived_def data_packet_slice sized_header_def del: pkt_code.simps)

lemma process_PKT_ack:
  assumes "packet_of_mem (wire (ack_packet k) @ junk) = Inr q" "get_peer (config st) port = Inr peer"
  shows "process_PKT m st q port = process_ACK st (arrived (ack_packet k) junk) peer"
  using ack_arrives_as [OF assms(1)] ack_acceptable assms(2) pkt_parse_type_code [of ACK]
  by (simp add: process_PKT_def not_correct_spec del: pkt_code.simps)
    (simp add: arrived_def ack_packet_def sized_header_def del: pkt_code.simps)

section \<open>Steps of the sending side\<close>

text \<open>One sender object changes, keeping its connection; timers and datagrams are added.\<close>

lemma sending_set:
  assumes "sending A se n" "sender_at A se n s" "same_connection s s'"
    and "unat (last_acked s') \<le> n" "unat (timer_id (timer s')) \<le> n"
    and "senders_inv A'" "sender_heap A' = (sender_heap A)\<lparr>ar_heap := (ar_heap (sender_heap A))(se_sender se \<mapsto> s')\<rparr>"
    and "sender_pool A' = sender_pool A" "config A' = config A"
    and "\<And>tid. (se_sender se, Some tid) \<in> set (timers A') \<Longrightarrow> unat tid \<le> n"
    and "only (se_sent_a se) (sent A') {wire (data_packet (se_data se) i) | i. i < CHUNK_PKTS}"
  shows "sending A' se n"
proof -
  obtain ids where ids: "alone p_receiver (sender_pool A) (sender_heap A) (se_to se) (se_sender se) ids"
    using assms(1) by (auto simp: sending_def)
  have "alone p_receiver (sender_pool A') (sender_heap A') (se_to se) (se_sender se) ids"
    unfolding assms(7,8) by (rule alone_update [OF ids])
      (use assms(2,3) in \<open>auto simp: sender_at_def same_connection_def\<close>)
  moreover have "sender_at A' se n s'"
    using assms(2-5,7) by (simp add: sender_at_def same_connection_def)
  ultimately show ?thesis using assms(1,6,9-11) unfolding sending_def by auto
qed

lemma sendingE:
  assumes "sending A se n"
  obtains s where "sender_at A se n s" "ar_heap (sender_heap A) (se_sender se) = Some s" "sender_inv s"
  using assms senders_invD by (auto simp: sending_def sender_at_def)

lemma same_connection_refl [simp]: "same_connection s s"
  by (simp add: same_connection_def)

lemma sending_send:
  assumes "sending A se n" "sender_round A (se_sender se) = Inr (go, A')"
  shows "sending A' se n"
proof -
  let ?a = "se_sender se"
  obtain s where at: "sender_at A se n s" and s: "ar_heap (sender_heap A) ?a = Some s" "sender_inv s"
    by (rule sendingE [OF assms(1)])
  have inv: "senders_inv A" using assms(1) by (simp add: sending_def)
  obtain A1 where A1: "sender_send A ?a = Inr A1" using assms(2) by (auto simp: sender_round_def rbind_Inr_iff)
  have "go \<and> senders_inv A'" using sender_round_inv [OF inv s(1) assms(2)] by simp
  moreover from this have A': "A' = A1" using assms(2) A1 by (auto simp: sender_round_def rbind_Inr_iff split: if_splits)
  ultimately have inv': "senders_inv A'" by simp
  show ?thesis
  proof (cases "last_sent s < last_available s \<and> last_sent s < pkt_num s")
    case False
    with A1 s(1) A' assms(1) show ?thesis by (simp add: sender_send_def)
  next
    case True
    have i: "unat (last_sent s) < CHUNK_PKTS" "pkts s = map (data_packet (se_data se)) [0..<CHUNK_PKTS]"
      using True s(2) at by (simp_all add: sender_inv_def CHUNK_PKTS_def word_less_nat_alt sender_at_def)
    obtain pe where pe: "peer_heap (config A) (se_to se) = Some pe" "p_receiver s = Some (se_to se)"
      using assms(1) at by (auto simp: sending_def sender_at_def)
    let ?s1 = "if last_sent s = last_acked s
      then start_timer (s\<lparr>timer := init_timer (timer s) (last_acked s)\<rparr>) else s"
    let ?ts = "if last_sent s = last_acked s then [(?a, None)] else []"
    have form: "sender_heap A' = (sender_heap A)\<lparr>ar_heap := (ar_heap (sender_heap A))(?a \<mapsto>
          ?s1\<lparr>last_sent := last_sent s + 1\<rparr>)\<rparr> \<and> timers A' = timers A @ ?ts \<and> sender_pool A' = sender_pool A \<and>
        config A' = config A \<and> sent A' = sent A @ [(sin_addr pe, sin_port pe, wire (data_packet (se_data se) (unat (last_sent s))))]"
      using A1 True s(1) i pe wire_data [of "se_data se" "unat (last_sent s)"]
      by (cases "last_sent s = last_acked s")
        (auto simp: A' sender_send_def Let_def run_timer_def start_timer_def set_sender_def rbind_Inr_iff bget_def send_PKT_def)
    show ?thesis
    proof (rule sending_set [OF assms(1) at _ _ _ inv'])
      show "sender_heap A' = (sender_heap A)\<lparr>ar_heap := (ar_heap (sender_heap A))(?a \<mapsto> ?s1\<lparr>last_sent := last_sent s + 1\<rparr>)\<rparr>"
        "sender_pool A' = sender_pool A" "config A' = config A" using form by auto
      show "only (se_sent_a se) (sent A') {wire (data_packet (se_data se) i) | i. i < CHUNK_PKTS}"
        using form assms(1) i(1) by (auto simp: sending_def intro!: only_append)
      show "unat tid \<le> n" if "(?a, Some tid) \<in> set (timers A')" for tid
        using that form assms(1) by (auto simp: sending_def split: if_splits)
    qed (use at in \<open>auto simp: sender_at_def same_connection_def start_timer_def init_timer_def\<close>)
  qed
qed

lemma sending_timer_begin:
  assumes "sending A se n" "i < length (timers A)" "fst (timers A ! i) = se_sender se" "timer_begin A i = Inr A'"
  shows "sending A' se n"
proof -
  obtain s where at: "sender_at A se n s" and s: "ar_heap (sender_heap A) (se_sender se) = Some s" "sender_inv s"
    by (rule sendingE [OF assms(1)])
  obtain t where t: "timers A ! i = (se_sender se, t)" using assms(3) by (cases "timers A ! i") auto
  have "senders_inv A'" using timer_begin_inv assms(1,2,4) by (auto simp: sending_def)
  moreover have "\<exists>ts. A' = A\<lparr>timers := ts\<rparr> \<and> (\<forall>tid. (se_sender se, Some tid) \<in> set ts \<longrightarrow> unat tid \<le> n)"
  proof (cases "t_start_begin s")
    case None
    then have "A' = A\<lparr>timers := take i (timers A) @ drop (Suc i) (timers A)\<rparr>"
      using assms(2,4) t s(1) by (simp add: timer_begin_def bget_def)
    then show ?thesis using assms(1)
      by (intro exI [of _ "take i (timers A) @ drop (Suc i) (timers A)"])
        (auto simp: sending_def dest: in_set_takeD in_set_dropD)
  next
    case (Some tid)
    then have "A' = A\<lparr>timers := (timers A)[i := (se_sender se, Some tid)]\<rparr>"
      using assms(2,4) t s(1) by (simp add: timer_begin_def bget_def)
    moreover have "unat tid \<le> n" using Some at by (auto simp: t_start_begin_def sender_at_def split: if_splits)
    ultimately show ?thesis
      using assms(1) set_update_subset_insert [of "timers A" i "(se_sender se, Some tid)"]
      by (intro exI [of _ "(timers A)[i := (se_sender se, Some tid)]"]) (auto simp: sending_def)
  qed
  ultimately show ?thesis using assms(1) by (auto simp: sending_def sender_at_def)
qed

lemma sending_timer_end:
  assumes "sending A se n" "i < length (timers A)" "fst (timers A ! i) = se_sender se" "timer_end A i = Inr A'"
  shows "sending A' se n"
proof -
  obtain s where at: "sender_at A se n s" and s: "ar_heap (sender_heap A) (se_sender se) = Some s" "sender_inv s"
    by (rule sendingE [OF assms(1)])
  obtain t where t: "timers A ! i = (se_sender se, t)" using assms(3) by (cases "timers A ! i") auto
  have inv': "senders_inv A'" using timer_end_inv assms(1,2,4) by (auto simp: sending_def)
  show ?thesis
  proof (cases t)
    case None
    with t assms show ?thesis by (simp add: timer_end_def bget_def)
  next
    case (Some tid)
    have "(se_sender se, Some tid) \<in> set (timers A)" using t Some assms(2) nth_mem by metis
    then have tid: "unat tid \<le> n" "tid < 375" using assms(1) by (auto simp: sending_def senders_inv_def)
    obtain s' where s': "t_start_end s tid = Inr s'"
        "A' = (set_sender A (se_sender se) s')\<lparr>timers := take i (timers A) @ drop (Suc i) (timers A)\<rparr>"
      using assms(2,4) t Some s(1) by (auto simp: timer_end_def bget_def rbind_Inr_iff)
    have "same_connection s s' \<and> unat (last_acked s') \<le> n \<and> timer s' = timer s"
      using s'(1) retransmit_ok [OF sender_inv_ok [OF s(2)] below_chunk [OF tid(2)]] tid(1) at
      by (auto simp: t_start_end_def sender_at_def split: if_splits)
    then show ?thesis
      by (intro sending_set [OF assms(1) at _ _ _ inv'])
        (use at assms(1) s'(2) in \<open>auto simp: set_sender_def sender_at_def sending_def dest: in_set_takeD in_set_dropD\<close>)
  qed
qed

lemma ack_num_arrived: "k \<le> CHUNK_PKTS \<Longrightarrow> unat (ack_num (header (arrived (ack_packet k) junk))) = k"
  by (simp add: arrived_def ack_packet_def sized_header_def CHUNK_PKTS_def unat_of_nat take_bit_nat_eq_self)

lemma get_sender_alone:
  assumes "sending A se n"
  obtains ids where "alone p_receiver (sender_pool A) (sender_heap A) (se_to se) (se_sender se) ids"
    "get_sender (sender_pool A) (sender_heap A) (Some (se_to se)) =
       Inr (if se_sender se \<in> set ids then Some (se_sender se) else None)"
proof -
  obtain s ids where "sender_at A se n s" and ids: "alone p_receiver (sender_pool A) (sender_heap A) (se_to se) (se_sender se) ids"
    using assms by (auto simp: sending_def)
  then have "get_sender (sender_pool A) (sender_heap A) (Some (se_to se)) =
      Inr (if se_sender se \<in> set ids then Some (se_sender se) else None)"
    by (intro senders.get_conn [where w = s]) (auto simp: alone_def sender_at_def)
  with ids that show thesis by blast
qed

text \<open>An acknowledgment that completes the chunk takes the sender out of the pool.\<close>

lemma sending_removed:
  assumes "sending A se n" "sender_at A se n s" "senders_inv A'"
    and "alone p_receiver (sender_pool A) (sender_heap A) (se_to se) (se_sender se) ids" "se_sender se \<in> set ids"
    and "A1 = set_sender A (se_sender se) (stop_timer s)"
    and "remove_sender (sender_pool A1) (sender_heap A1) (Some (se_sender se)) = Inr (pool, ar)"
    and "A' = A1\<lparr>sender_pool := pool, sender_heap := ar\<rparr>"
  shows "sending A' se n \<and> get_sender (sender_pool A') (sender_heap A') (Some (se_to se)) = Inr None"
proof -
  have stop: "p_receiver (stop_timer s) = p_receiver s" "pkts (stop_timer s) = pkts s" "last_acked (stop_timer s) = last_acked s"
    "timer_id (timer (stop_timer s)) = timer_id (timer s)" "stop_timer (stop_timer s) = stop_timer s" for s
    by (simp_all add: stop_timer_def)
  have h: "sender_heap A1 = (sender_heap A)\<lparr>ar_heap := (ar_heap (sender_heap A))(se_sender se \<mapsto> stop_timer s)\<rparr>"
    by (simp add: assms(6) set_sender_def)
  have "alone p_receiver (sender_pool A) (sender_heap A1) (se_to se) (se_sender se) ids"
    unfolding h by (rule alone_update [OF assms(4)]) (use assms(2) stop in \<open>auto simp: sender_at_def\<close>)
  then have ids1: "pool_ok p_receiver (sender_pool A1) (sender_heap A1) ids"
      and one: "\<forall>b \<in> set ids. p_receiver (worker_at (sender_heap A1) b) = Some (se_to se) \<longrightarrow> b = se_sender se"
    by (simp_all add: alone_def assms(6))
  obtain ids' where ar: "ar = (sender_heap A1)\<lparr>ar_heap := (ar_heap (sender_heap A1))(se_sender se \<mapsto>
        stop_timer (worker_at (sender_heap A1) (se_sender se)))\<rparr>"
      and ids': "pool_ok p_receiver pool ar ids'" "set ids' = set ids - {se_sender se}"
    using remove_sender_ok [OF ids1 assms(5)] assms(7) by auto
  have w: "worker_at (sender_heap A1) (se_sender se) = stop_timer s" by (simp add: h worker_at_def)
  have "p_receiver (worker_at ar b) = p_receiver (worker_at (sender_heap A1) b)" for b
    unfolding ar w by (simp add: worker_at_def h stop)
  then have al: "alone p_receiver pool ar (se_to se) (se_sender se) ids'"
    using ids' one by (auto simp: alone_def)
  moreover have at: "sender_at A' se n (stop_timer s)"
    using assms(2) stop w by (simp add: sender_at_def assms(8) ar)
  ultimately have "sending A' se n"
    using assms(1,3) by (auto simp: sending_def assms(6,8) set_sender_def)
  moreover have "get_sender pool ar (Some (se_to se)) = Inr (if se_sender se \<in> set ids' then Some (se_sender se) else None)"
    by (rule senders.get_conn [where w = "stop_timer s"]) (use al at in \<open>auto simp: alone_def sender_at_def assms(8)\<close>)
  ultimately show ?thesis using ids'(2) by (simp add: assms(8))
qed

lemma sending_ack:
  assumes "sending A se n" "process_ACK A (arrived (ack_packet k) junk) (Some (se_to se)) = Inr A'" "k \<le> n" "n \<le> CHUNK_PKTS"
  shows "sending A' se n"
proof -
  let ?p = "arrived (ack_packet k) junk" and ?a = "se_sender se"
  let ?ack = "ack_num (header ?p)"
  have inv': "senders_inv A'" using process_ACK_inv [OF _ assms(2)] assms(1) by (simp add: sending_def)
  have ack: "unat ?ack = k" using assms(3,4) by (intro ack_num_arrived) simp
  obtain ids where ids: "alone p_receiver (sender_pool A) (sender_heap A) (se_to se) ?a ids"
      "get_sender (sender_pool A) (sender_heap A) (Some (se_to se)) = Inr (if ?a \<in> set ids then Some ?a else None)"
    by (rule get_sender_alone [OF assms(1)])
  obtain s where at: "sender_at A se n s" and s: "ar_heap (sender_heap A) ?a = Some s" "sender_inv s"
    by (rule sendingE [OF assms(1)])
  show ?thesis
  proof (cases "?a \<in> set ids")
    case False
    with ids(2) assms(1,2) show ?thesis by (simp add: process_ACK_def)
  next
    case True
    note main = assms(2) [unfolded process_ACK_def ids(2) if_P [OF True] rbind_simps option.case Let_def
        deref_simps(2) [of "ar_heap (sender_heap A)", OF s(1)]]
    show ?thesis
    proof (cases "?ack \<ge> pkt_num s")
      case full: True
      show ?thesis
      proof (cases "last_sent s < pkt_num s")
        case True
        with full main assms(1) show ?thesis by simp
      next
        case False
        with full main obtain pool ar where rm: "remove_sender (sender_pool (set_sender A ?a (stop_timer s)))
              (sender_heap (set_sender A ?a (stop_timer s))) (Some ?a) = Inr (pool, ar)"
            "A' = (set_sender A ?a (stop_timer s))\<lparr>sender_pool := pool, sender_heap := ar\<rparr>"
          by (auto simp: rbind_Inr_iff simp del: set_sender_fields)
        from sending_removed [OF assms(1) at inv' ids(1) True refl rm] show ?thesis by simp
      qed
    next
      case False
      then have below: "?ack < 375" using s(2) by (simp add: sender_inv_def)
      from main False obtain s' logged A1 where s': "ack_window s ?ack = Inr (s', logged)"
          and A1: "(if logged then cwnd2log (set_sender A ?a s') (p_receiver s') (cwnd s')
                        else Inr (set_sender A ?a s')) = Inr A1"
          and A': "A' = set_sender A1 ?a (stop_timer s')"
        by (auto simp: rbind_Inr_iff)
      have upd: "same_connection s s'" "timer s' = timer s" "last_acked s' = max (last_acked s) ?ack"
        using ack_window_ok [OF sender_inv_ok [OF s(2)] below_chunk [OF below]] s' by auto
      have form: "sender_heap A1 = (sender_heap A)\<lparr>ar_heap := (ar_heap (sender_heap A))(?a \<mapsto> s')\<rparr> \<and>
          sender_pool A1 = sender_pool A \<and> config A1 = config A \<and> timers A1 = timers A \<and> sent A1 = sent A"
        using A1 by (auto simp: cwnd2log_def rbind_Inr_iff set_sender_def split: if_splits)
      have "unat (last_acked s') \<le> n"
        using at ack assms(3) by (simp add: upd(3) max_def sender_at_def)
      moreover have "unat (timer_id (timer s)) \<le> n" using at by (simp add: sender_at_def)
      ultimately show ?thesis
        by (intro sending_set [OF assms(1) at _ _ _ inv', where s' = "stop_timer s'"])
          (use form upd(1,2) assms(1) in \<open>auto simp: A' set_sender_def stop_timer_def same_connection_def sending_def\<close>)
    qed
  qed
qed

section \<open>Steps of the receiving side\<close>

lemma receiver_data:
  assumes "receiver_side B se n" "process_DATA m B (arrived (data_packet (se_data se) i) junk) (Some (se_from se)) = Inr B'"
    and "i < CHUNK_PKTS" "length (se_data se) = BT_CHUNK_SIZE"
  shows "\<exists>n'. n \<le> n' \<and> receiver_side B' se n'"
proof -
  let ?a = "se_receiver se" and ?ca = "se_chunk se" and ?d = "se_data se"
  obtain r ids pe where r: "ar_heap (receiver_heap B) ?a = Some r" "p_sender r = Some (se_from se)"
      and ids: "alone p_sender (receiver_pool B) (receiver_heap B) (se_from se) ?a ids"
        "n = CHUNK_PKTS \<longrightarrow> ?a \<notin> set ids"
      and pe: "peer_heap (config B) (se_from se) = Some pe" and rcv: "receiving B ?a ?ca ?d n" "n \<le> CHUNK_PKTS"
    using assms(1) by (auto simp: receiver_side_def)
  have get: "get_receiver (receiver_pool B) (receiver_heap B) (Some (se_from se)) = Inr (if ?a \<in> set ids then Some ?a else None)"
    by (rule receivers.get_conn [OF _ r]) (use ids in \<open>auto simp: alone_def\<close>)
  show ?thesis
  proof (cases "?a \<in> set ids")
    case False
    with get assms(1,2) show ?thesis by (auto simp: process_DATA_def)
  next
    case True
    with ids(2) rcv(2) have n: "n < CHUNK_PKTS" by (auto simp: le_less)
    define n' where "n' = (if i = n then Suc n else n)"
    obtain rh ch B1 where B1: "B1 = B\<lparr>receiver_heap := rh, chunk_heap := ch,
          sent := sent B @ [(sin_addr pe, sin_port pe, wire (ack_packet n'))]\<rparr>"
        "receiving B1 ?a ?ca ?d n'" "data_step B ?a ?ca rh ch"
        "process_DATA m B (arrived (data_packet ?d i) junk) (Some (se_from se)) =
          (if n' < CHUNK_PKTS then Inr B1 else finish_chunk m B1 ?a (the (ar_heap rh ?a)))"
      using process_DATA_step [OF _ rcv(1) assms(4) n assms(3) pe, of m junk] get True unfolding n'_def by auto
    obtain r' where r': "p_sender r' = p_sender r" "rh = (receiver_heap B)\<lparr>ar_heap := (ar_heap (receiver_heap B))(?a \<mapsto> r')\<rparr>"
      using B1(3) r(1) by (auto simp: data_step_def)
    have al: "alone p_sender (receiver_pool B) rh (se_from se) ?a ids"
      unfolding r'(2) by (rule alone_update [OF ids(1) r(1) r'(1)])
    have n': "n \<le> n'" "n' \<le> CHUNK_PKTS" using n by (auto simp: n'_def)
    have acks: "only (se_sent_b se) (sent B1) {wire (ack_packet k) | k. k \<le> n'}"
      unfolding B1(1) using assms(1) n' by (auto simp: receiver_side_def intro!: only_append elim!: only_mono)
    have side: "receiver_side B' se n'" if "receiving B' ?a ?ca ?d n'" "sent B' = sent B1" "config B' = config B1"
        "receiver_heap B' = rh" "alone p_sender (receiver_pool B') rh (se_from se) ?a ids'"
        "n' = CHUNK_PKTS \<longrightarrow> ?a \<notin> set ids'" for ids' and B' :: handler
      using that assms(1) acks n' r r' unfolding receiver_side_def by (auto simp: B1(1))
    show ?thesis
    proof (cases "n' < CHUNK_PKTS")
      case True
      with B1 assms(2) al side [of B1 ids] n' show ?thesis by auto
    next
      case False
      with B1(4) assms(2) have fin: "finish_chunk m B1 ?a (the (ar_heap rh ?a)) = Inr B'" by simp
      note keep = finish_chunk_keeps [OF fin B1(2)]
      have "pool_ok p_sender (receiver_pool B1) (receiver_heap B1) ids" using al by (simp add: alone_def B1(1))
      from remove_receiver_ok [OF this \<open>?a \<in> set ids\<close>] keep obtain ids' where
        "pool_ok p_sender (receiver_pool B') rh ids'" "set ids' = set ids - {?a}"
        by (auto simp: B1(1))
      then have "alone p_sender (receiver_pool B') rh (se_from se) ?a ids'" "?a \<notin> set ids'"
        using al by (auto simp: alone_def)
      with side [of B' ids'] keep n'(1) show ?thesis by (auto simp: B1(1))
    qed
  qed
qed

section \<open>The invariant holds in every state\<close>

definition transfer_inv :: "session \<Rightarrow> handler \<times> handler \<Rightarrow> bool" where
  "transfer_inv se AB \<longleftrightarrow> length (se_data se) = BT_CHUNK_SIZE \<and>
     (\<exists>n. sending (fst AB) se n \<and> receiver_side (snd AB) se n)"

lemma transfer_step_inv:
  assumes "transfer_step m se AB AB'" "transfer_inv se AB"
  shows "transfer_inv se AB'"
  using assms
proof (induction rule: transfer_step.induct)
  case (send A go A' B)
  then show ?case by (auto simp: transfer_inv_def intro: sending_send)
next
  case (timer_starts i A A' B)
  then show ?case by (auto simp: transfer_inv_def intro: sending_timer_begin)
next
  case (timer_fires i A A' B)
  then show ?case by (auto simp: transfer_inv_def intro: sending_timer_end)
next
  case (data_arrives ad po w A junk p B B')
  then obtain n where n: "sending A se n" "receiver_side B se n" and d: "length (se_data se) = BT_CHUNK_SIZE"
    by (auto simp: transfer_inv_def)
  have "only (se_sent_a se) (sent A) {wire (data_packet (se_data se) i) | i. i < CHUNK_PKTS}"
    using n(1) by (simp add: sending_def)
  from only_in [OF this data_arrives(1)] obtain i where i: "w = wire (data_packet (se_data se) i)" "i < CHUNK_PKTS" by blast
  have "get_peer (config B) (se_port_a se) = Inr (Some (se_from se))" using n(2) by (simp add: receiver_side_def)
  from process_PKT_data [OF data_arrives(2) [unfolded i(1)] i(2) this] data_arrives(3)
  have "process_DATA m B (arrived (data_packet (se_data se) i) junk) (Some (se_from se)) = Inr B'" by simp
  from receiver_data [OF n(2) this i(2) d] obtain n' where "n \<le> n'" "receiver_side B' se n'" by blast
  with sending_mono [OF n(1)] d show ?case by (auto simp: transfer_inv_def)
next
  case (ack_arrives ad po w B junk p A A')
  then obtain n where n: "sending A se n" "receiver_side B se n" and d: "length (se_data se) = BT_CHUNK_SIZE"
    by (auto simp: transfer_inv_def)
  have side: "n \<le> CHUNK_PKTS" "only (se_sent_b se) (sent B) {wire (ack_packet k) | k. k \<le> n}"
    using n(2) by (simp_all add: receiver_side_def)
  from only_in [OF side(2) ack_arrives(1)] obtain k where k: "w = wire (ack_packet k)" "k \<le> n" by blast
  have "get_peer (config A) (se_port_b se) = Inr (Some (se_to se))" using n(1) by (simp add: sending_def)
  from process_PKT_ack [OF ack_arrives(2) [unfolded k(1)] this] ack_arrives(3)
  have "process_ACK A (arrived (ack_packet k) junk) (Some (se_to se)) = Inr A'" by simp
  from sending_ack [OF n(1) this k(2) side(1)] n(2) d show ?case by (auto simp: transfer_inv_def)
qed

lemma transfer_steps_inv: "(transfer_step m se)\<^sup>*\<^sup>* AB AB' \<Longrightarrow> transfer_inv se AB \<Longrightarrow> transfer_inv se AB'"
  by (induction rule: rtranclp_induct) (auto intro: transfer_step_inv)

section \<open>Properties\<close>

text \<open>
  C3. A transfer is safe: from the start of a session on, however the network loses, repeats and reorders
  datagrams and however the sender and its timers are scheduled, what the receiver has counted is a
  prefix of the sender's chunk in the receiver's buffer, the sender never believes more to be received
  than is, and when all 375 packets are counted the receiver's chunk is the sender's.
\<close>

theorem transfer_safe:
  assumes "length (se_data se) = BT_CHUNK_SIZE" "sending A se 0" "receiver_side B se 0"
    and "(transfer_step m se)\<^sup>*\<^sup>* (A, B) (A', B')"
  shows "\<exists>s r c n. ar_heap (sender_heap A') (se_sender se) = Some s \<and>
    ar_heap (receiver_heap B') (se_receiver se) = Some r \<and> ch_heap (chunk_heap B') (se_chunk se) = Some c \<and>
    n = unat (last_rcvd r) \<and> n \<le> CHUNK_PKTS \<and> unat (last_acked s) \<le> n \<and>
    take (n * DATA_SIZE) (chunk_data c) = take (n * DATA_SIZE) (se_data se) \<and>
    (n = CHUNK_PKTS \<longrightarrow> chunk_data c = se_data se)"
proof -
  have "transfer_inv se (A, B)" using assms(1-3) by (auto simp: transfer_inv_def)
  from transfer_steps_inv [OF assms(4) this] obtain n where n: "sending A' se n" "receiver_side B' se n"
    by (auto simp: transfer_inv_def)
  from n(1) obtain s where s: "sender_at A' se n s" by (auto simp: sending_def)
  from n(2) obtain r c where r: "ar_heap (receiver_heap B') (se_receiver se) = Some r" "last_rcvd r = of_nat n"
      "ch_heap (chunk_heap B') (se_chunk se) = Some c" "got (se_data se) n (chunk_data c)" "n \<le> CHUNK_PKTS"
    by (auto simp: receiver_side_def receiving_def)
  have "unat (last_rcvd r) = n" using r(2,5) by (simp add: CHUNK_PKTS_def unat_of_nat take_bit_nat_eq_self)
  moreover have "n = CHUNK_PKTS \<longrightarrow> chunk_data c = se_data se" using got_all r(4) assms(1) by blast
  ultimately show ?thesis using s r by (auto simp: sender_at_def got_def)
qed

end
