(* ===== verification/Transfer_Run.thy ===== *)
theory Transfer_Run
  imports Chunk_Transfer
begin

text \<open>
  A run without losses: the two peers of \<open>Chunk_Transfer\<close> exchange packet after packet, and the transfer
  completes. Together with the safety of every run this says that the receiver ends up with the sender's
  chunk, checked and marked.
\<close>

section \<open>Lockstep\<close>

text \<open>
  \<open>ready\<close>: both sides agree on \<open>n\<close> packets, the window is open, both connections are in their pools, the
  log is open, and the receiver's chunk is in its well-formed download queue under the hash of the data.
\<close>

definition ready :: "handler \<Rightarrow> handler \<Rightarrow> session \<Rightarrow> nat \<Rightarrow> bool" where
  "ready A B se n \<longleftrightarrow> sending A se n \<and> receiver_side B se n \<and>
     (\<exists>s. ar_heap (sender_heap A) (se_sender se) = Some s \<and> last_sent s = of_nat n \<and> last_acked s = of_nat n \<and>
        last_acked s < last_available s) \<and>
     (\<exists>lines. log_file A = Obj lines) \<and>
     get_sender (sender_pool A) (sender_heap A) (Some (se_to se)) = Inr (Some (se_sender se)) \<and>
     get_receiver (receiver_pool B) (receiver_heap B) (Some (se_from se)) = Inr (Some (se_receiver se)) \<and>
     mem_ok (chunk_heap B) \<and> key_at (chunk_heap B) (se_chunk se) = hex_string (sha1_spec (se_data se)) \<and>
     (\<exists>xs. repr (down_chunks B) xs \<and> valid (chunk_heap B) xs \<and> se_chunk se \<in> set xs)"

lemma chunk_num:
  assumes "n \<le> CHUNK_PKTS"
  shows "unat (of_nat n :: u32) = n"
  using assms by (simp add: CHUNK_PKTS_def unat_of_nat take_bit_nat_eq_self)

lemma send_now:
  assumes "sending A se n" "ar_heap (sender_heap A) (se_sender se) = Some s" "last_sent s = of_nat n" "last_acked s = of_nat n"
    and "last_acked s < last_available s" "n < CHUNK_PKTS"
  shows "\<exists>A' s' ad po. sender_round A (se_sender se) = Inr (True, A') \<and>
    ar_heap (sender_heap A') (se_sender se) = Some s' \<and> last_sent s' = of_nat (Suc n) \<and> last_acked s' = of_nat n \<and>
    sender_pool A' = sender_pool A \<and> log_file A' = log_file A \<and>
    get_sender (sender_pool A') (sender_heap A') x = get_sender (sender_pool A) (sender_heap A) x \<and>
    sent A' = sent A @ [(ad, po, wire (data_packet (se_data se) n))]"
proof -
  let ?a = "se_sender se"
  have inv: "senders_inv A" "sender_inv s" using assms(1,2) senders_invD by (auto simp: sending_def)
  have s: "p_receiver s = Some (se_to se)" "pkts s = map (data_packet (se_data se)) [0..<CHUNK_PKTS]"
    using assms(1,2) by (auto simp: sending_def sender_at_def)
  obtain pe ids where pe: "peer_heap (config A) (se_to se) = Some pe" and ids: "pool_ok p_receiver (sender_pool A) (sender_heap A) ids"
    using assms(1) by (auto simp: sending_def alone_def)
  have n: "unat (of_nat n :: u32) = n" using assms(6) by (intro chunk_num) simp
  have open_: "last_sent s < pkt_num s"
    using inv(2) assms(3,6) n by (simp add: sender_inv_def word_less_nat_alt CHUNK_PKTS_def)
  let ?s' = "(start_timer (s\<lparr>timer := init_timer (timer s) (last_acked s)\<rparr>))\<lparr>last_sent := last_sent s + 1\<rparr>"
  let ?A' = "(set_sender (run_timer A ?a s) ?a ?s')
    \<lparr>sent := sent A @ [(sin_addr pe, sin_port pe, wire (data_packet (se_data se) n))]\<rparr>"
  have "sender_send A ?a = Inr ?A'"
    using assms(2-6) s pe open_ n wire_data [of "se_data se" n]
    by (simp add: sender_send_def Let_def run_timer_def start_timer_def set_sender_def bget_def send_PKT_def)
  moreover have "\<not> last_acked ?s' \<ge> pkt_num ?s'"
    using inv(2) by (simp add: start_timer_def sender_inv_def not_le)
  ultimately have "sender_round A ?a = Inr (True, ?A')"
    by (simp add: sender_round_def start_timer_def)
  moreover have "get_sender (sender_pool A) (sender_heap ?A') x = get_sender (sender_pool A) (sender_heap A) x"
    using senders.get_update [OF ids assms(2), of ?s' x] s(1)
    by (simp add: set_sender_def run_timer_def start_timer_def)
  ultimately show ?thesis
    by (intro exI [of _ ?A'] exI [of _ ?s'] exI [of _ "sin_addr pe"] exI [of _ "sin_port pe"])
      (simp add: assms(3,4) start_timer_def run_timer_def)
qed

text \<open>What arrives can be read: the bytes of a packet are at least a header long.\<close>

lemma wire_readable: "\<exists>q. packet_of_mem (wire (data_packet d i) @ junk) = Inr q" "\<exists>q. packet_of_mem (wire (ack_packet k) @ junk) = Inr q"
proof -
  have "\<exists>q. packet_of_mem (b @ junk) = Inr q" if "wire_image p = Inr b" "p = \<lparr>header = sized_header t s (length d), pkt_data = d\<rparr>"
      "length d < 65520" for p t s d b
    using packet_of_wire [OF that(3) refl, of t s b junk] that(1,2) by (auto simp: rbind_Inr_iff)
  from this [OF wire_data data_packet_slice] this [OF wire_ack, of k ACK "of_nat k" "[]"] length_slice [of d i]
  show "\<exists>q. packet_of_mem (wire (data_packet d i) @ junk) = Inr q" "\<exists>q. packet_of_mem (wire (ack_packet k) @ junk) = Inr q"
    by (simp_all add: DATA_SIZE_def ack_packet_def)
qed

lemma data_step_mem:
  assumes "data_step st a ca rh ch" "mem_ok (chunk_heap st)" "valid (chunk_heap st) xs"
  shows "mem_ok ch \<and> valid ch xs"
proof -
  obtain c x where c: "ch_heap (chunk_heap st) ca = Some c" "length x = BT_CHUNK_SIZE"
      "ch = (chunk_heap st)\<lparr>ch_heap := (ch_heap (chunk_heap st))(ca \<mapsto> c\<lparr>chunk_data := x\<rparr>)\<rparr>"
    using assms(1) by (auto simp: data_step_def)
  have "chunk_ok (c\<lparr>chunk_data := x\<rparr>)" using mem_okD [OF assms(2) c(1)] c(2) by (simp add: chunk_ok_def)
  from mem_ok_set [OF assms(2) c(1) this] valid_set [OF assms(3)] show ?thesis by (simp add: c(3))
qed

lemma data_step_key: "data_step st a ca rh ch \<Longrightarrow> key_at ch b = key_at (chunk_heap st) b"
  by (auto simp: data_step_def key_at_def chunk_at_def key_def)

lemma receive_now:
  assumes "ready A B se n" "length (se_data se) = BT_CHUNK_SIZE" "n < CHUNK_PKTS"
    and "packet_of_mem (wire (data_packet (se_data se) n) @ junk) = Inr q"
  shows "\<exists>rh ch B1 ad po. B1 = B\<lparr>receiver_heap := rh, chunk_heap := ch, sent := sent B @ [(ad, po, wire (ack_packet (Suc n)))]\<rparr> \<and>
    receiving B1 (se_receiver se) (se_chunk se) (se_data se) (Suc n) \<and> mem_ok ch \<and>
    (\<forall>xs. valid (chunk_heap B) xs \<longrightarrow> valid ch xs) \<and> (\<forall>b. key_at ch b = key_at (chunk_heap B) b) \<and>
    data_step B (se_receiver se) (se_chunk se) rh ch \<and>
    get_receiver (receiver_pool B) rh (Some (se_from se)) = Inr (Some (se_receiver se)) \<and>
    process_PKT m B q (se_port_a se) =
      (if Suc n < CHUNK_PKTS then Inr B1 else finish_chunk m B1 (se_receiver se) (the (ar_heap rh (se_receiver se))))"
proof -
  let ?a = "se_receiver se" and ?ca = "se_chunk se" and ?d = "se_data se"
  have side: "receiver_side B se n" and get: "get_receiver (receiver_pool B) (receiver_heap B) (Some (se_from se)) = Inr (Some ?a)"
      and mem: "mem_ok (chunk_heap B)"
    using assms(1) by (auto simp: ready_def)
  obtain pe ids where pe: "peer_heap (config B) (se_from se) = Some pe" and rcv: "receiving B ?a ?ca ?d n"
      and ids: "pool_ok p_sender (receiver_pool B) (receiver_heap B) ids"
      and port: "get_peer (config B) (se_port_a se) = Inr (Some (se_from se))"
    using side by (auto simp: receiver_side_def alone_def)
  obtain rh ch B1 where B1: "B1 = B\<lparr>receiver_heap := rh, chunk_heap := ch, sent := sent B @ [(sin_addr pe, sin_port pe, wire (ack_packet (Suc n)))]\<rparr>"
      "receiving B1 ?a ?ca ?d (Suc n)" "data_step B ?a ?ca rh ch"
      "process_DATA m B (arrived (data_packet ?d n) junk) (Some (se_from se)) =
        (if Suc n < CHUNK_PKTS then Inr B1 else finish_chunk m B1 ?a (the (ar_heap rh ?a)))"
    using process_DATA_step [OF get rcv assms(2,3,3) pe, of m junk] by auto
  obtain r r' where "ar_heap (receiver_heap B) ?a = Some r" "p_sender r' = p_sender r"
      "rh = (receiver_heap B)\<lparr>ar_heap := (ar_heap (receiver_heap B))(?a \<mapsto> r')\<rparr>"
    using B1(3) by (auto simp: data_step_def)
  then have "get_receiver (receiver_pool B) rh (Some (se_from se)) = Inr (Some ?a)"
    using receivers.get_update [OF ids, of ?a r r' "Some (se_from se)"] get by simp
  moreover have "mem_ok ch \<and> (\<forall>xs. valid (chunk_heap B) xs \<longrightarrow> valid ch xs)"
    using data_step_mem [OF B1(3) mem] data_step_mem [OF B1(3) mem, of "[]"] by auto
  moreover have "process_PKT m B q (se_port_a se) = process_DATA m B (arrived (data_packet ?d n) junk) (Some (se_from se))"
    by (rule process_PKT_data [OF assms(4,3) port])
  ultimately show ?thesis using B1 data_step_key [OF B1(3)] by metis
qed

lemma ack_now:
  assumes "sending A se n" "ar_heap (sender_heap A) (se_sender se) = Some s" "last_sent s = of_nat (Suc n)"
    and "last_acked s = of_nat n" "log_file A = Obj lines"
    and "get_sender (sender_pool A) (sender_heap A) (Some (se_to se)) = Inr (Some (se_sender se))" "Suc n < CHUNK_PKTS"
  shows "\<exists>A' s' lines'. process_ACK A (arrived (ack_packet (Suc n)) junk) (Some (se_to se)) = Inr A' \<and>
    ar_heap (sender_heap A') (se_sender se) = Some s' \<and> last_sent s' = of_nat (Suc n) \<and> last_acked s' = of_nat (Suc n) \<and>
    last_acked s' < last_available s' \<and> log_file A' = Obj lines' \<and>
    get_sender (sender_pool A') (sender_heap A') (Some (se_to se)) = Inr (Some (se_sender se))"
proof -
  let ?a = "se_sender se" and ?ack = "ack_num (header (arrived (ack_packet (Suc n)) junk))"
  have inv: "sender_inv s" using assms(1,2) senders_invD by (auto simp: sending_def)
  have s: "p_receiver s = Some (se_to se)" using assms(1,2) by (auto simp: sending_def sender_at_def)
  obtain pe ids where pe: "peer_heap (config A) (se_to se) = Some pe" and ids: "pool_ok p_receiver (sender_pool A) (sender_heap A) ids"
    using assms(1) by (auto simp: sending_def alone_def)
  have ack: "unat ?ack = Suc n" using assms(7) by (intro ack_num_arrived) simp
  have num: "unat (of_nat n :: u32) = n" using assms(7) by (intro chunk_num) simp
  have below: "?ack < 375" using ack assms(7) by (simp add: word_less_nat_alt CHUNK_PKTS_def)
  have newer: "last_acked s < ?ack" using ack num assms(4) by (simp add: word_less_nat_alt)
  obtain s' logged where s': "ack_window s ?ack = Inr (s', logged)" "sender_ok s'" "same_connection s s'" "timer s' = timer s"
      "last_sent s' = last_sent s" "last_acked s' = ?ack" "?ack < last_available s'"
    using ack_window_new [OF sender_inv_ok [OF inv] below_chunk [OF below] newer] by (auto elim!: ok_pairE)
  have cw: "int_of_f32 (cwnd s') = Inr (floor (cwnd s'))"
    using s'(2) int_of_f32_window by (simp add: sender_ok_def)
  define lines' where "lines' = (if logged then lines @ [(peer_id pe, floor (cwnd s'))] else lines)"
  let ?A' = "A\<lparr>sender_heap := (sender_heap A)\<lparr>ar_heap := (ar_heap (sender_heap A))(?a \<mapsto> stop_timer s')\<rparr>, log_file := Obj lines'\<rparr>"
  have "\<not> ?ack \<ge> pkt_num s" using below inv by (simp add: sender_inv_def not_le)
  then have "process_ACK A (arrived (ack_packet (Suc n)) junk) (Some (se_to se)) = Inr ?A'"
    using assms(2,5,6) s'(1,3) s pe cw
    by (auto simp: process_ACK_def Let_def cwnd2log_def same_connection_def lines'_def set_sender_def)
  moreover have "?ack = of_nat (Suc n)" by (simp add: arrived_def ack_packet_def sized_header_def)
  moreover have "get_sender (sender_pool A) (sender_heap ?A') (Some (se_to se)) = Inr (Some ?a)"
    using senders.get_update [OF ids assms(2), of "stop_timer s'" "Some (se_to se)"] s'(3) assms(6)
    by (simp add: same_connection_def stop_timer_def)
  ultimately show ?thesis
    using s'(5-7) assms(3) by (intro exI [of _ ?A'] exI [of _ "stop_timer s'"] exI [of _ lines']) (simp add: stop_timer_def)
qed

lemma receiver_side_num:
  assumes "receiver_side B se n'" "receiving B (se_receiver se) (se_chunk se) d k" "k \<le> CHUNK_PKTS"
  shows "n' = k"
proof -
  have "(of_nat n' :: u32) = of_nat k" "n' \<le> CHUNK_PKTS" using assms(1,2) by (auto simp: receiver_side_def receiving_def)
  then show ?thesis using chunk_num [of n'] chunk_num [of k] assms(3) by metis
qed

text \<open>The datagram sent last is in the network.\<close>

lemma last_sent_available: "only k out W \<Longrightarrow> out' = out @ [x] \<Longrightarrow> x \<in> set (drop k out')"
  by (simp add: only_def)

lemma lockstep_round:
  assumes "ready A B se n" "length (se_data se) = BT_CHUNK_SIZE" "Suc n < CHUNK_PKTS"
  shows "\<exists>A' B'. (transfer_step m se)\<^sup>*\<^sup>* (A, B) (A', B') \<and> ready A' B' se (Suc n)"
proof -
  let ?d = "se_data se"
  from assms(1) obtain s lines xs where A: "sending A se n" "ar_heap (sender_heap A) (se_sender se) = Some s"
      "last_sent s = of_nat n" "last_acked s = of_nat n" "last_acked s < last_available s" "log_file A = Obj lines"
      "get_sender (sender_pool A) (sender_heap A) (Some (se_to se)) = Inr (Some (se_sender se))"
      and B: "receiver_side B se n" "mem_ok (chunk_heap B)" "repr (down_chunks B) xs" "valid (chunk_heap B) xs"
        "se_chunk se \<in> set xs" "key_at (chunk_heap B) (se_chunk se) = hex_string (sha1_spec ?d)"
    by (auto simp: ready_def)
  have n: "n < CHUNK_PKTS" using assms(3) by simp
  obtain A1 s1 ad po where A1: "sender_round A (se_sender se) = Inr (True, A1)"
      "ar_heap (sender_heap A1) (se_sender se) = Some s1" "last_sent s1 = of_nat (Suc n)" "last_acked s1 = of_nat n"
      "log_file A1 = Obj lines" "get_sender (sender_pool A1) (sender_heap A1) (Some (se_to se)) = Inr (Some (se_sender se))"
      "sent A1 = sent A @ [(ad, po, wire (data_packet ?d n))]"
    using send_now [OF A(1-5) n, of "Some (se_to se)"] A(6,7) by auto
  have step1: "transfer_step m se (A, B) (A1, B)" using A1(1) by (rule transfer_step.send)
  have A1s: "sending A1 se n" by (rule sending_send [OF A(1) A1(1)])
  obtain q where q: "packet_of_mem (wire (data_packet ?d n) @ []) = Inr q" using wire_readable(1) by blast
  obtain rh ch B1 ad' po' where B1: "B1 = B\<lparr>receiver_heap := rh, chunk_heap := ch, sent := sent B @ [(ad', po', wire (ack_packet (Suc n)))]\<rparr>"
      "receiving B1 (se_receiver se) (se_chunk se) ?d (Suc n)" "mem_ok ch" "\<forall>xs. valid (chunk_heap B) xs \<longrightarrow> valid ch xs"
      "get_receiver (receiver_pool B) rh (Some (se_from se)) = Inr (Some (se_receiver se))"
      "process_PKT m B q (se_port_a se) = Inr B1" "\<forall>b. key_at ch b = key_at (chunk_heap B) b"
    using receive_now [OF assms(1,2) n q, of m] assms(3) by auto
  have avail: "(ad, po, wire (data_packet ?d n)) \<in> set (drop (se_sent_a se) (sent A1))"
    using A(1) by (intro last_sent_available [OF _ A1(7)]) (auto simp: sending_def)
  have step2: "transfer_step m se (A1, B) (A1, B1)" by (rule transfer_step.data_arrives [OF avail q B1(6)])
  have "transfer_inv se (A1, B1)"
    by (rule transfer_step_inv [OF step2]) (use A1s B(1) assms(2) in \<open>auto simp: transfer_inv_def\<close>)
  then obtain n' where "receiver_side B1 se n'" by (auto simp: transfer_inv_def)
  with receiver_side_num [OF this B1(2)] assms(3) have B1s: "receiver_side B1 se (Suc n)" by simp
  obtain A2 s2 lines' where A2: "process_ACK A1 (arrived (ack_packet (Suc n)) []) (Some (se_to se)) = Inr A2"
      "ar_heap (sender_heap A2) (se_sender se) = Some s2" "last_sent s2 = of_nat (Suc n)" "last_acked s2 = of_nat (Suc n)"
      "last_acked s2 < last_available s2" "log_file A2 = Obj lines'"
      "get_sender (sender_pool A2) (sender_heap A2) (Some (se_to se)) = Inr (Some (se_sender se))"
    using ack_now [OF A1s A1(2-6) assms(3), of "[]"] by auto
  obtain q' where q': "packet_of_mem (wire (ack_packet (Suc n)) @ []) = Inr q'" using wire_readable(2) by blast
  have avail': "(ad', po', wire (ack_packet (Suc n))) \<in> set (drop (se_sent_b se) (sent B1))"
    using B(1) by (intro last_sent_available [of _ "sent B"]) (auto simp: receiver_side_def B1(1))
  have "get_peer (config A1) (se_port_b se) = Inr (Some (se_to se))" using A1s by (simp add: sending_def)
  from process_PKT_ack [OF q' this, of m] A2(1) have "process_PKT m A1 q' (se_port_b se) = Inr A2" by simp
  then have step3: "transfer_step m se (A1, B1) (A2, B1)" by (rule transfer_step.ack_arrives [OF avail' q'])
  have "sending A2 se (Suc n)"
    by (rule sending_ack [OF sending_mono [OF A1s] A2(1)]) (use assms(3) in auto)
  then have "ready A2 B1 se (Suc n)"
    using B1s A2 B B1 by (auto simp: ready_def)
  with step1 step2 step3 show ?thesis by (meson converse_rtranclp_into_rtranclp rtranclp.rtrancl_refl)
qed

lemma lockstep:
  "ready A B se 0 \<Longrightarrow> length (se_data se) = BT_CHUNK_SIZE \<Longrightarrow> n < CHUNK_PKTS \<Longrightarrow>
   \<exists>A' B'. (transfer_step m se)\<^sup>*\<^sup>* (A, B) (A', B') \<and> ready A' B' se n"
proof (induction n)
  case (Suc n)
  then obtain A' B' where "(transfer_step m se)\<^sup>*\<^sup>* (A, B) (A', B')" "ready A' B' se n" by auto
  with lockstep_round [OF _ Suc.prems(2,3), of A' B' m] show ?case by (meson rtranclp_trans)
qed auto

section \<open>The last packet\<close>

lemma finish_now:
  assumes "receiving B a ca d CHUNK_PKTS" "length d = BT_CHUNK_SIZE" "mem_ok (chunk_heap B)"
    and "repr (down_chunks B) xs" "valid (chunk_heap B) xs" "ca \<in> set xs"
    and "key_at (chunk_heap B) ca = hex_string (sha1_spec d)"
    and "pool_ok p_sender (receiver_pool B) (receiver_heap B) ids" "a \<in> set ids" "21 \<le> frame_slack m"
  shows "ok (finish_chunk m B a (the (ar_heap (receiver_heap B) a))) (\<lambda>B'.
    \<exists>b \<in> set xs. finished (chunk_heap B') b \<and> key_at (chunk_heap B') b = key_at (chunk_heap B) ca)"
proof -
  obtain r c where r: "ar_heap (receiver_heap B) a = Some r" "r_chunk r = Some ca"
      and c: "ch_heap (chunk_heap B) ca = Some c" "got d CHUNK_PKTS (chunk_data c)"
    using assms(1) by (auto simp: receiving_def)
  have d: "chunk_data c = d" by (rule got_all [OF c(2) assms(2)])
  have sha: "length (chunk_sha1 c) = 255" using mem_okD [OF assms(3) c(1)] by (simp add: chunk_ok_def)
  have "take 40 (chunk_sha1 c) = hex_string (sha1_spec d)"
    using assms(7) c(1) by (simp add: key_at_def key_def chunk_at_def SHA1_HASH_SIZE_def)
  then have good: "check_chunk m c (chunk_sha1 c) = Inr True"
    using check_chunk_spec [of c "chunk_sha1 c" m] assms(2,10) d sha by simp
  obtain b where b: "List.find (\<lambda>b. key_at (chunk_heap B) b = key_at (chunk_heap B) ca) xs = Some b"
    using assms(6) by (cases "List.find (\<lambda>b. key_at (chunk_heap B) b = key_at (chunk_heap B) ca) xs") (auto simp: find_None_iff)
  note bs = find_SomeD [OF b]
  let ?c' = "(chunk_at (chunk_heap B) b)\<lparr>c_state := max (c_state (chunk_at (chunk_heap B) b)) FINISHED\<rparr>"
  let ?mem = "(chunk_heap B)\<lparr>ch_heap := (ch_heap (chunk_heap B))(b \<mapsto> ?c')\<rparr>"
  have upd: "update_state (chunk_heap B) (down_chunks B) (Some ca) FINISHED = Inr ?mem"
    using update_state_spec [OF assms(3-5) c(1)] b by simp
  have "max st FINISHED = FINISHED" for st by (cases st) (simp_all add: max_def less_eq_chunk_state_def)
  then have "finished ?mem b" "key_at ?mem b = key_at (chunk_heap B) ca"
    using bs by (simp_all add: finished_def key_at_def chunk_at_def key_def)
  moreover obtain pool where "remove_receiver (receiver_pool B) (receiver_heap B) (Some a) = Inr pool"
    using remove_receiver_ok [OF assms(8,9)] by (auto simp: ok_iff)
  ultimately show ?thesis
    using r c(1) good upd bs by (auto simp: finish_chunk_def)
qed

lemma final_ack_now:
  assumes "sending A se n" "n \<le> CHUNK_PKTS" "ar_heap (sender_heap A) (se_sender se) = Some s" "last_sent s = of_nat CHUNK_PKTS"
    and "get_sender (sender_pool A) (sender_heap A) (Some (se_to se)) = Inr (Some (se_sender se))"
  shows "ok (process_ACK A (arrived (ack_packet CHUNK_PKTS) junk) (Some (se_to se)))
    (\<lambda>A'. get_sender (sender_pool A') (sender_heap A') (Some (se_to se)) = Inr None)"
proof -
  let ?a = "se_sender se" and ?ack = "ack_num (header (arrived (ack_packet CHUNK_PKTS) junk))"
  let ?A1 = "set_sender A ?a (stop_timer s)"
  have inv: "senders_inv A" "sender_inv s" using assms(1,3) senders_invD by (auto simp: sending_def)
  have at: "sender_at A se n s" using assms(1,3) by (auto simp: sending_def sender_at_def)
  obtain ids where ids: "alone p_receiver (sender_pool A) (sender_heap A) (se_to se) ?a ids"
      "get_sender (sender_pool A) (sender_heap A) (Some (se_to se)) = Inr (if ?a \<in> set ids then Some ?a else None)"
    by (rule get_sender_alone [OF assms(1)])
  then have mem: "?a \<in> set ids" using assms(5) by (auto split: if_splits)
  have num: "pkt_num s = 375" using inv(2) by (simp add: sender_inv_def)
  have ack: "?ack \<ge> pkt_num s" using ack_num_arrived [of CHUNK_PKTS junk] by (simp add: num word_le_nat_alt CHUNK_PKTS_def)
  have sent: "\<not> last_sent s < pkt_num s" by (simp add: num assms(4) CHUNK_PKTS_def)
  have "pool_ok p_receiver (sender_pool ?A1) (sender_heap ?A1) ids"
    using pool_ok_update(1) [of p_receiver "sender_pool A" "sender_heap A" ids ?a s "stop_timer s"] ids(1) assms(3)
    by (simp add: alone_def set_sender_def stop_timer_def)
  from remove_sender_ok [OF this mem] obtain pool ar where
    rm: "remove_sender (sender_pool ?A1) (sender_heap ?A1) (Some ?a) = Inr (pool, ar)" by (auto simp: ok_iff)
  have step: "process_ACK A (arrived (ack_packet CHUNK_PKTS) junk) (Some (se_to se)) =
      Inr (?A1\<lparr>sender_pool := pool, sender_heap := ar\<rparr>)"
    using assms(3,5) ack sent rm by (simp add: process_ACK_def Let_def del: set_sender_fields)
  have "senders_inv (?A1\<lparr>sender_pool := pool, sender_heap := ar\<rparr>)" by (rule process_ACK_inv [OF inv(1) step])
  from sending_removed [OF assms(1) at this ids(1) mem refl rm refl] step show ?thesis by simp
qed

text \<open>The receiver counts the last packet, checks the chunk, marks it and closes the connection.\<close>

lemma receive_last:
  assumes "ready A B se n" "length (se_data se) = BT_CHUNK_SIZE" "Suc n = CHUNK_PKTS" "21 \<le> frame_slack m"
    and "packet_of_mem (wire (data_packet (se_data se) n) @ junk) = Inr q"
  shows "\<exists>B' b xs ad po. process_PKT m B q (se_port_a se) = Inr B' \<and>
    receiving B' (se_receiver se) (se_chunk se) (se_data se) CHUNK_PKTS \<and>
    repr (down_chunks B') xs \<and> b \<in> set xs \<and> finished (chunk_heap B') b \<and>
    key_at (chunk_heap B') b = hex_string (sha1_spec (se_data se)) \<and>
    sent B' = sent B @ [(ad, po, wire (ack_packet CHUNK_PKTS))]"
proof -
  let ?d = "se_data se" and ?a = "se_receiver se"
  have n: "n < CHUNK_PKTS" using assms(3) by simp
  from assms(1) obtain xs where B: "receiver_side B se n" "repr (down_chunks B) xs" "valid (chunk_heap B) xs" "se_chunk se \<in> set xs"
      "key_at (chunk_heap B) (se_chunk se) = hex_string (sha1_spec ?d)"
    by (auto simp: ready_def)
  obtain rh ch B1 ad po where B1: "B1 = B\<lparr>receiver_heap := rh, chunk_heap := ch, sent := sent B @ [(ad, po, wire (ack_packet CHUNK_PKTS))]\<rparr>"
      "receiving B1 ?a (se_chunk se) ?d CHUNK_PKTS" "mem_ok ch" "\<forall>xs. valid (chunk_heap B) xs \<longrightarrow> valid ch xs"
      "data_step B ?a (se_chunk se) rh ch" "\<forall>b. key_at ch b = key_at (chunk_heap B) b"
      "get_receiver (receiver_pool B) rh (Some (se_from se)) = Inr (Some ?a)"
      "process_PKT m B q (se_port_a se) = finish_chunk m B1 ?a (the (ar_heap (receiver_heap B1) ?a))"
    using receive_now [OF assms(1,2) n assms(5), of m, unfolded assms(3)] by auto
  obtain ids r where ids: "alone p_sender (receiver_pool B) (receiver_heap B) (se_from se) ?a ids"
      and r: "ar_heap (receiver_heap B) ?a = Some r" "p_sender r = Some (se_from se)"
    using B(1) by (auto simp: receiver_side_def)
  obtain r' where r': "p_sender r' = p_sender r" "rh = (receiver_heap B)\<lparr>ar_heap := (ar_heap (receiver_heap B))(?a \<mapsto> r')\<rparr>"
    using B1(5) r(1) by (auto simp: data_step_def)
  have al: "alone p_sender (receiver_pool B) rh (se_from se) ?a ids"
    unfolding r'(2) by (rule alone_update [OF ids r(1) r'(1)])
  then have "get_receiver (receiver_pool B) rh (Some (se_from se)) = Inr (if ?a \<in> set ids then Some ?a else None)"
    by (intro receivers.get_conn [where w = r']) (use r(2) r' in \<open>auto simp: alone_def\<close>)
  with B1(7) have mem: "?a \<in> set ids" by (auto split: if_splits)
  have pool: "pool_ok p_sender (receiver_pool B1) (receiver_heap B1) ids" using al by (simp add: alone_def B1(1))
  obtain B2 b where B2: "finish_chunk m B1 ?a (the (ar_heap (receiver_heap B1) ?a)) = Inr B2"
      "b \<in> set xs" "finished (chunk_heap B2) b" "key_at (chunk_heap B2) b = key_at (chunk_heap B1) (se_chunk se)"
    using finish_now [OF B1(2) assms(2) _ _ _ B(4) _ pool mem assms(4)] B B1 by (auto simp: ok_iff)
  have "key_at (chunk_heap B2) b = hex_string (sha1_spec ?d)" using B2(4) B1(6) B(5) by (simp add: B1(1))
  with finish_chunk_keeps [OF B2(1) B1(2)] B1(1,8) B2 B(2) show ?thesis by (auto intro!: exI [of _ b])
qed

lemma lockstep_completes:
  assumes "ready A B se 0" "length (se_data se) = BT_CHUNK_SIZE" "21 \<le> frame_slack m"
  shows "\<exists>A' B' c b xs. (transfer_step m se)\<^sup>*\<^sup>* (A, B) (A', B') \<and>
    ch_heap (chunk_heap B') (se_chunk se) = Some c \<and> chunk_data c = se_data se \<and>
    repr (down_chunks B') xs \<and> b \<in> set xs \<and> finished (chunk_heap B') b \<and>
    key_at (chunk_heap B') b = hex_string (sha1_spec (se_data se)) \<and>
    get_receiver (receiver_pool B') (receiver_heap B') (Some (se_from se)) = Inr None \<and>
    get_sender (sender_pool A') (sender_heap A') (Some (se_to se)) = Inr None"
proof -
  let ?d = "se_data se" and ?a = "se_receiver se"
  define n where "n = CHUNK_PKTS - 1"
  have n: "n < CHUNK_PKTS" "Suc n = CHUNK_PKTS" by (simp_all add: n_def CHUNK_PKTS_def)
  obtain A0 B0 where run: "(transfer_step m se)\<^sup>*\<^sup>* (A, B) (A0, B0)" and ready: "ready A0 B0 se n"
    using lockstep [OF assms(1,2) n(1), of m] by blast
  from ready obtain s where A: "sending A0 se n" "ar_heap (sender_heap A0) (se_sender se) = Some s"
      "last_sent s = of_nat n" "last_acked s = of_nat n" "last_acked s < last_available s"
      "get_sender (sender_pool A0) (sender_heap A0) (Some (se_to se)) = Inr (Some (se_sender se))" and B: "receiver_side B0 se n"
    by (auto simp: ready_def)
  obtain A1 s1 ad po where A1: "sender_round A0 (se_sender se) = Inr (True, A1)"
      "ar_heap (sender_heap A1) (se_sender se) = Some s1" "last_sent s1 = of_nat CHUNK_PKTS"
      "get_sender (sender_pool A1) (sender_heap A1) (Some (se_to se)) = Inr (Some (se_sender se))"
      "sent A1 = sent A0 @ [(ad, po, wire (data_packet ?d n))]"
    using send_now [OF A(1-5) n(1), of "Some (se_to se)", unfolded n(2)] A(6) by auto
  have A1s: "sending A1 se n" by (rule sending_send [OF A(1) A1(1)])
  have step1: "transfer_step m se (A0, B0) (A1, B0)" using A1(1) by (rule transfer_step.send)
  obtain q where q: "packet_of_mem (wire (data_packet ?d n) @ []) = Inr q" using wire_readable(1) by blast
  obtain B2 b xs ad' po' where B2: "process_PKT m B0 q (se_port_a se) = Inr B2" "receiving B2 ?a (se_chunk se) ?d CHUNK_PKTS"
      "repr (down_chunks B2) xs" "b \<in> set xs" "finished (chunk_heap B2) b" "key_at (chunk_heap B2) b = hex_string (sha1_spec ?d)"
      "sent B2 = sent B0 @ [(ad', po', wire (ack_packet CHUNK_PKTS))]"
    using receive_last [OF ready assms(2) n(2) assms(3) q] by blast
  have avail: "(ad, po, wire (data_packet ?d n)) \<in> set (drop (se_sent_a se) (sent A1))"
    using A(1) by (intro last_sent_available [OF _ A1(5)]) (auto simp: sending_def)
  have step2: "transfer_step m se (A1, B0) (A1, B2)" by (rule transfer_step.data_arrives [OF avail q B2(1)])
  have "transfer_inv se (A1, B2)"
    by (rule transfer_step_inv [OF step2]) (use A1s B assms(2) in \<open>auto simp: transfer_inv_def\<close>)
  then obtain n' where "receiver_side B2 se n'" by (auto simp: transfer_inv_def)
  with receiver_side_num [OF this B2(2)] have "receiver_side B2 se CHUNK_PKTS" by simp
  then obtain ids2 r2 where "alone p_sender (receiver_pool B2) (receiver_heap B2) (se_from se) ?a ids2" "?a \<notin> set ids2"
      "ar_heap (receiver_heap B2) ?a = Some r2" "p_sender r2 = Some (se_from se)"
    by (auto simp: receiver_side_def)
  then have gone: "get_receiver (receiver_pool B2) (receiver_heap B2) (Some (se_from se)) = Inr None"
    using receivers.get_conn [of "receiver_pool B2" "receiver_heap B2" ids2 ?a r2 "se_from se"] by (simp add: alone_def)
  obtain A2 where A2: "process_ACK A1 (arrived (ack_packet CHUNK_PKTS) []) (Some (se_to se)) = Inr A2"
      "get_sender (sender_pool A2) (sender_heap A2) (Some (se_to se)) = Inr None"
    using final_ack_now [OF A1s _ A1(2-4), of "[]"] n by (auto simp: ok_iff)
  obtain q' where q': "packet_of_mem (wire (ack_packet CHUNK_PKTS) @ []) = Inr q'" using wire_readable(2) by blast
  have avail': "(ad', po', wire (ack_packet CHUNK_PKTS)) \<in> set (drop (se_sent_b se) (sent B2))"
    using B by (intro last_sent_available [OF _ B2(7)]) (auto simp: receiver_side_def)
  have "get_peer (config A1) (se_port_b se) = Inr (Some (se_to se))" using A1s by (simp add: sending_def)
  from process_PKT_ack [OF q' this, of m] A2(1) have "process_PKT m A1 q' (se_port_b se) = Inr A2" by simp
  then have "transfer_step m se (A1, B2) (A2, B2)" by (rule transfer_step.ack_arrives [OF avail' q'])
  with run step1 step2 have "(transfer_step m se)\<^sup>*\<^sup>* (A, B) (A2, B2)" by (meson rtranclp.rtrancl_into_rtrancl)
  moreover obtain c where "ch_heap (chunk_heap B2) (se_chunk se) = Some c" "chunk_data c = ?d"
    using B2(2) got_all [OF _ assms(2)] by (auto simp: receiving_def)
  ultimately show ?thesis using gone A2(2) B2(3-6) by blast
qed

section \<open>Properties\<close>

text \<open>
  A transfer completes: from the start of a session, if the receiver's chunk is in the download queue
  under the hash of the sender's data and the machine tolerates the overflow in \<open>check_chunk\<close>, the run in
  which no datagram is lost ends with the sender's data in the receiver's chunk, a chunk with that hash
  marked as finished, and both connections closed.
\<close>

theorem transfer_completes:
  assumes "ready A B se 0" "length (se_data se) = BT_CHUNK_SIZE" "21 \<le> frame_slack m"
  shows "\<exists>A' B' c b xs. (transfer_step m se)\<^sup>*\<^sup>* (A, B) (A', B') \<and>
    ch_heap (chunk_heap B') (se_chunk se) = Some c \<and> chunk_data c = se_data se \<and>
    repr (down_chunks B') xs \<and> b \<in> set xs \<and> finished (chunk_heap B') b \<and>
    key_at (chunk_heap B') b = hex_string (sha1_spec (se_data se)) \<and>
    get_receiver (receiver_pool B') (receiver_heap B') (Some (se_from se)) = Inr None \<and>
    get_sender (sender_pool A') (sender_heap A') (Some (se_to se)) = Inr None"
  by (rule lockstep_completes [OF assms])

section \<open>A concrete session\<close>

definition demo_data :: "byte list" where
  "demo_data = replicate BT_CHUNK_SIZE 0"

definition demo_session :: session where
  "demo_session = \<lparr>se_data = demo_data, se_sender = 0, se_to = 7, se_receiver = 0, se_from = 7, se_chunk = 0,
     se_port_a = 80, se_port_b = 80, se_sent_a = 0, se_sent_b = 0\<rparr>"

definition demo_fresh_sender :: sender where
  "demo_fresh_sender = demo_chunk_sender\<lparr>last_sent := 0, last_acked := 0, last_available := 1,
     timer := \<lparr>running = 0, timer_id = 0, tv_sec = 1, tv_usec = 0\<rparr>\<rparr>"

definition demo_chunk :: chunk_t where
  "demo_chunk = zero_chunk\<lparr>chunk_sha1 := hex_string (sha1_spec demo_data) @ replicate 215 0, c_state := DOWNLOADING,
     holders := init_queue\<rparr>"

definition demo_receiver :: handler where
  "demo_receiver = (handler_start demo_config Map.empty (\<lambda>f. True))
     \<lparr>receiver_pool := Obj \<lparr>max_num = 1, cur_num = 1, workers = queue_of [0]\<rparr>,
      receiver_heap := \<lparr>ar_heap = [0 \<mapsto> \<lparr>last_read = 0, last_rcvd = 0, next_expected = 1, r_chunk = Some 0, p_sender = Some 7\<rparr>],
        ar_brk = 1\<rparr>,
      chunk_heap := alloc_all empty_mem [demo_chunk], down_chunks := queue_of [0], done_chunks := init_queue\<rparr>"

lemma demo_get_peer: "get_peer demo_config 80 = Inr (Some 7)"
proof -
  have "peers_ok demo_config [7]" by (simp add: peers_ok_def demo_config_def)
  then show ?thesis
    using find_peer_path [of "peer_heap demo_config" "peers demo_config" "[7]" "peer_brk demo_config"]
    by (simp add: get_peer_def peers_ok_def) (simp add: demo_config_def)
qed

lemma demo_fresh_sender_inv: "sender_inv demo_fresh_sender"
  using demo_chunk_sender_inv by (simp add: demo_fresh_sender_def sender_inv_def sender_ok_def)

lemma demo_sending: "sending (demo_handler demo_fresh_sender) demo_session 0"
proof -
  let ?A = "demo_handler demo_fresh_sender"
  have s: "p_receiver demo_fresh_sender = Some 7" "pkts demo_fresh_sender = map (data_packet demo_data) [0..<CHUNK_PKTS]"
    by (simp_all add: demo_fresh_sender_def demo_chunk_sender_def demo_sender_def demo_data_def)
  have "senders_inv ?A"
    by (simp add: demo_handler_def senders_inv_def arena_inv_def handler_start_def demo_fresh_sender_inv)
  moreover have "sender_at ?A demo_session 0 demo_fresh_sender"
    using s by (simp add: sender_at_def demo_handler_def demo_session_def demo_fresh_sender_def)
  moreover have "alone p_receiver (sender_pool ?A) (sender_heap ?A) 7 0 [0]"
    by (simp add: alone_def pool_ok_def pool_rep_def arena_ok_def repr_queue_of demo_handler_def)
  moreover have "config ?A = demo_config" "sent ?A = []" "timers ?A = []"
    by (simp_all add: demo_handler_def handler_start_def)
  moreover have "\<exists>pe. peer_heap demo_config 7 = Some pe" by (simp add: demo_config_def)
  ultimately show ?thesis
    unfolding sending_def using demo_get_peer by (auto simp: demo_session_def only_def)
qed

lemma demo_chunk_mem:
  "mem_ok (alloc_all empty_mem [demo_chunk])" "valid (alloc_all empty_mem [demo_chunk]) [0]"
  "ch_heap (alloc_all empty_mem [demo_chunk]) 0 = Some demo_chunk"
  "key_at (alloc_all empty_mem [demo_chunk]) 0 = hex_string (sha1_spec demo_data)"
proof -
  have "chunk_ok demo_chunk"
    unfolding demo_chunk_def by (intro chunk_ok_zero [OF cq.rep_new]) (simp add: length_sha1_spec)
  then have ok: "\<forall>c \<in> set [demo_chunk]. chunk_ok c" by simp
  note mem = alloc_all_empty [OF ok]
  show "mem_ok (alloc_all empty_mem [demo_chunk])" by (rule mem(1))
  show "valid (alloc_all empty_mem [demo_chunk]) [0]" using mem(2) by simp
  show "ch_heap (alloc_all empty_mem [demo_chunk]) 0 = Some demo_chunk" using mem(3) [of 0] by simp
  show "key_at (alloc_all empty_mem [demo_chunk]) 0 = hex_string (sha1_spec demo_data)"
    using mem(4) [of 0] by (simp add: key_at_def key_def demo_chunk_def SHA1_HASH_SIZE_def length_sha1_spec)
qed

lemma demo_receiver_side: "receiver_side demo_receiver demo_session 0"
proof -
  have "receiving demo_receiver 0 0 demo_data 0"
    using demo_chunk_mem(3) by (simp add: receiving_def demo_receiver_def got_0 demo_chunk_def)
  moreover have "alone p_sender (receiver_pool demo_receiver) (receiver_heap demo_receiver) 7 0 [0]"
    by (simp add: alone_def pool_ok_def pool_rep_def arena_ok_def repr_queue_of demo_receiver_def)
  moreover have "config demo_receiver = demo_config" "sent demo_receiver = []"
    by (simp_all add: demo_receiver_def handler_start_def)
  moreover have "\<exists>pe. peer_heap demo_config 7 = Some pe" by (simp add: demo_config_def)
  moreover have "\<exists>r. ar_heap (receiver_heap demo_receiver) 0 = Some r \<and> p_sender r = Some 7"
    by (simp add: demo_receiver_def)
  ultimately show ?thesis
    unfolding receiver_side_def using demo_get_peer by (auto simp: demo_session_def only_def CHUNK_PKTS_def)
qed

lemma demo_get_receiver: "get_receiver (receiver_pool demo_receiver) (receiver_heap demo_receiver) (Some 7) = Inr (Some 0)"
proof -
  let ?r = "\<lparr>last_read = 0, last_rcvd = 0, next_expected = 1, r_chunk = Some 0, p_sender = Some 7\<rparr>"
  let ?p = "\<lparr>max_num = 1, cur_num = 1, workers = queue_of [0]\<rparr>" and ?a = "\<lparr>ar_heap = [0 \<mapsto> ?r], ar_brk = 1\<rparr>"
  have "pool_rep ?p [0]" "arena_ok ?a [0]" by (simp_all add: pool_rep_def repr_queue_of arena_ok_def)
  from receivers.get_find [OF this, of 7] have "get_receiver (Obj ?p) ?a (Some 7) = Inr (Some 0)"
    by (simp add: worker_at_def)
  moreover have "receiver_pool demo_receiver = Obj ?p" "receiver_heap demo_receiver = ?a"
    by (simp_all add: demo_receiver_def)
  ultimately show ?thesis by (simp only:)
qed

lemma demo_ready: "ready (demo_handler demo_fresh_sender) demo_receiver demo_session 0"
proof -
  let ?A = "demo_handler demo_fresh_sender"
  have "get_sender (sender_pool ?A) (sender_heap ?A) (Some 7) = Inr (Some 0)"
    by (rule demo_handler_sender) (simp add: demo_fresh_sender_def demo_chunk_sender_def demo_sender_def)
  moreover have "get_receiver (receiver_pool demo_receiver) (receiver_heap demo_receiver) (Some 7) = Inr (Some 0)"
    by (rule demo_get_receiver)
  moreover have "log_file ?A = Obj []" "ar_heap (sender_heap ?A) 0 = Some demo_fresh_sender"
    by (simp_all add: demo_handler_def)
  moreover have "chunk_heap demo_receiver = alloc_all empty_mem [demo_chunk]" "down_chunks demo_receiver = queue_of [0]"
    by (simp_all add: demo_receiver_def)
  moreover have "repr (queue_of [0]) [0 :: nat]" by (rule repr_queue_of)
  moreover have "last_sent demo_fresh_sender = 0" "last_acked demo_fresh_sender = 0" "last_available demo_fresh_sender = 1"
    by (simp_all add: demo_fresh_sender_def)
  moreover have "se_sender demo_session = 0" "se_to demo_session = 7" "se_receiver demo_session = 0" "se_from demo_session = 7"
    "se_chunk demo_session = 0" "se_data demo_session = demo_data"
    by (simp_all add: demo_session_def)
  ultimately show ?thesis
    unfolding ready_def using demo_sending demo_receiver_side demo_chunk_mem
    by (intro conjI exI [of _ demo_fresh_sender] exI [of _ "[] :: (int \<times> int) list"] exI [of _ "[0 :: nat]"]) simp_all
qed

theorem transfer_completes_witness:
  "\<exists>A B c. (transfer_step \<lparr>stack_byte = (\<lambda>i. 0), heap_byte = (\<lambda>i. 0), literal_tail = [], frame_slack = 21, heap_slack = 0\<rparr>
      demo_session)\<^sup>*\<^sup>* (demo_handler demo_fresh_sender, demo_receiver) (A, B) \<and>
    ch_heap (chunk_heap B) 0 = Some c \<and> chunk_data c = demo_data"
  using transfer_completes [OF demo_ready, of "\<lparr>stack_byte = (\<lambda>i. 0), heap_byte = (\<lambda>i. 0), literal_tail = [], frame_slack = 21,
      heap_slack = 0\<rparr>"]
  by (auto simp: demo_session_def demo_data_def)

theorem transfer_safe_witness:
  "\<exists>A B c. (transfer_step \<lparr>stack_byte = (\<lambda>i. 0), heap_byte = (\<lambda>i. 0), literal_tail = [], frame_slack = 0, heap_slack = 0\<rparr>
      demo_session)\<^sup>*\<^sup>* (demo_handler demo_fresh_sender, demo_receiver) (A, B) \<and>
    ch_heap (chunk_heap B) 0 = Some c \<and> take (374 * DATA_SIZE) (chunk_data c) = take (374 * DATA_SIZE) demo_data"
proof -
  let ?m = "\<lparr>stack_byte = (\<lambda>i. 0), heap_byte = (\<lambda>i. 0), literal_tail = [], frame_slack = 0, heap_slack = 0\<rparr>"
  have len: "length (se_data demo_session) = BT_CHUNK_SIZE" by (simp add: demo_session_def demo_data_def)
  obtain A B where run: "(transfer_step ?m demo_session)\<^sup>*\<^sup>* (demo_handler demo_fresh_sender, demo_receiver) (A, B)"
      and ready: "ready A B demo_session 374"
    using lockstep [OF demo_ready len, of 374 ?m] by (auto simp: CHUNK_PKTS_def)
  from transfer_safe [OF len demo_sending demo_receiver_side run] obtain r c where
    r: "ar_heap (receiver_heap B) 0 = Some r" "ch_heap (chunk_heap B) 0 = Some c"
      "take (unat (last_rcvd r) * DATA_SIZE) (chunk_data c) = take (unat (last_rcvd r) * DATA_SIZE) demo_data"
    by (auto simp: demo_session_def)
  have "last_rcvd r = of_nat 374" using ready r(1) by (auto simp: ready_def receiver_side_def receiving_def demo_session_def)
  then have "unat (last_rcvd r) = 374" by simp
  with run r(2,3) show ?thesis by auto
qed

end
