(* ===== verification/Handler_Answers.thy ===== *)
theory Handler_Answers
  imports Data_Receipt Download_C
begin

text \<open>
  What the handlers answer: the lists of hashes (WHOHAS, IHAVE), requests (GET) and data (DATA), and the
  packets that are dropped.
\<close>

section \<open>Freeing chunks\<close>

lemma free_all_distinct:
  "distinct as \<Longrightarrow> \<forall>a \<in> set as. \<exists>x. h a = Some x \<Longrightarrow> free_all h (map Some as) = Inr (h |` (- set as))"
proof (induction as arbitrary: h)
  case (Cons a as)
  then obtain x where x: "h a = Some x" by auto
  have "\<forall>b \<in> set as. \<exists>x. (h(a := None)) b = Some x" using Cons.prems by auto
  with Cons have "free_all (h(a := None)) (map Some as) = Inr ((h(a := None)) |` (- set as))" by simp
  moreover have "(h(a := None)) |` (- set as) = h |` (- set (a # as))"
    by (auto simp: restrict_map_def fun_eq_iff)
  ultimately show ?case using x by simp
qed (simp add: restrict_map_def)

lemma free_all_twice:
  "(\<exists>b \<in> set as. h b = None) \<or> \<not> distinct as \<Longrightarrow> free_all h (map Some as) = Inl Double_Free"
proof (induction as arbitrary: h)
  case (Cons a as)
  show ?case
  proof (cases "h a")
    case (Some x)
    with Cons.prems have "(\<exists>b \<in> set as. (h(a := None)) b = None) \<or> \<not> distinct as" by auto
    from Cons.IH [OF this] Some show ?thesis by (simp add: fun_upd_def)
  qed simp
qed simp

lemma free_chunk_queue_spec:
  "repr q as \<Longrightarrow> distinct as \<Longrightarrow> valid mem as \<Longrightarrow>
   free_chunk_queue mem q = Inr (mem\<lparr>ch_heap := ch_heap mem |` (- set as)\<rparr>)"
  by (simp add: free_chunk_queue_def free_queue_repr free_all_distinct valid_def)

section \<open>Holders\<close>

lemma chunk_at_upd: "chunk_at (mem\<lparr>ch_heap := (ch_heap mem)(a \<mapsto> c)\<rparr>) b = (if b = a then c else chunk_at mem b)"
  by (simp add: chunk_at_def)

definition same_chunks :: "chunk_mem \<Rightarrow> chunk_mem \<Rightarrow> bool" where
  "same_chunks mem mem' \<longleftrightarrow> (\<forall>a. (ch_heap mem a = None) = (ch_heap mem' a = None)) \<and>
     (\<forall>a. chunk_at mem' a = (chunk_at mem a)\<lparr>holders := holders (chunk_at mem' a)\<rparr>)"

lemma same_chunks_key: "same_chunks mem mem' \<Longrightarrow> key_at mem' a = key_at mem a"
  unfolding same_chunks_def key_at_def key_def by (metis chunk_t.select_convs(2) chunk_t.surjective chunk_t.update_convs(4))

lemma same_chunks_valid: "same_chunks mem mem' \<Longrightarrow> valid mem as \<Longrightarrow> valid mem' as"
  unfolding same_chunks_def valid_def by (metis not_Some_eq)

lemma same_chunks_trans: "same_chunks a b \<Longrightarrow> same_chunks b c \<Longrightarrow> same_chunks a c"
  unfolding same_chunks_def by simp (metis chunk_t.select_convs(4) chunk_t.surjective chunk_t.update_convs(4))

lemma add_holders_spec:
  assumes "mem_ok mem" "repr q xs" "valid mem xs" "distinct (map (key_at mem) xs)" "valid mem as"
  shows "ok (add_holders mem q as p) (\<lambda>mem'. mem_ok mem' \<and> same_chunks mem mem' \<and>
    (\<forall>b \<in> set xs. holders_of (chunk_at mem' b) =
       holders_of (chunk_at mem b) @ replicate (count_list (map (key_at mem) as) (key_at mem b)) p))"
  using assms
proof (induction as arbitrary: mem)
  case Nil
  then show ?case by (simp add: same_chunks_def)
next
  case (Cons a as)
  obtain c where c: "ch_heap mem a = Some c" "valid mem as" using Cons.prems(5) by auto
  let ?f = "List.find (\<lambda>b. key_at mem b = key_at mem a) xs"
  obtain mem1 where m1: "add_holder mem q (Some a) p = Inr mem1" "mem_ok mem1" "same_chunks mem mem1"
      "\<forall>b \<in> set xs. holders_of (chunk_at mem1 b) = holders_of (chunk_at mem b) @ (if key_at mem b = key_at mem a then [p] else [])"
  proof (cases ?f)
    case None
    with add_holder_spec [OF Cons.prems(1-3) c(1), of p] have "add_holder mem q (Some a) p = Inr mem"
      by (simp add: ok_iff)
    moreover have "\<forall>b \<in> set xs. key_at mem b \<noteq> key_at mem a" using None by (auto simp: find_None_iff)
    ultimately show thesis using that [of mem] Cons.prems(1) by (simp add: same_chunks_def)
  next
    case (Some d)
    note d = find_SomeD [OF Some]
    obtain hs q' where hs: "repr (holders (chunk_at mem d)) hs" "repr q' (hs @ [p])"
        "add_holder mem q (Some a) p = Inr (mem\<lparr>ch_heap := (ch_heap mem)(d \<mapsto> (chunk_at mem d)\<lparr>holders := q'\<rparr>)\<rparr>)"
      using add_holder_spec [OF Cons.prems(1-3) c(1), of p] Some by (auto simp: ok_iff)
    have dd: "ch_heap mem d = Some (chunk_at mem d)" using validD [OF Cons.prems(3)] d by blast
    let ?m = "mem\<lparr>ch_heap := (ch_heap mem)(d \<mapsto> (chunk_at mem d)\<lparr>holders := q'\<rparr>)\<rparr>"
    have "chunk_ok ((chunk_at mem d)\<lparr>holders := q'\<rparr>)"
      using mem_okD [OF Cons.prems(1) dd] hs(2) by (auto simp: chunk_ok_def)
    then have ok: "mem_ok ?m" by (rule mem_ok_set [OF Cons.prems(1) dd])
    have same: "same_chunks mem ?m" using dd by (auto simp: same_chunks_def chunk_at_def)
    have "key_at mem b = key_at mem a \<longleftrightarrow> b = d" if "b \<in> set xs" for b
      using Cons.prems(4) d that by (metis distinct_map inj_onD)
    then have "\<forall>b \<in> set xs. holders_of (chunk_at ?m b) = holders_of (chunk_at mem b) @ (if key_at mem b = key_at mem a then [p] else [])"
      using hs(1,2) by (simp add: chunk_at_upd holders_of_repr)
    with that [of ?m] hs(3) ok same show thesis by blast
  qed
  have keys: "key_at mem1 = key_at mem" using same_chunks_key [OF m1(3)] by (rule ext)
  have "ok (add_holders mem1 q as p) (\<lambda>mem'. mem_ok mem' \<and> same_chunks mem1 mem' \<and>
    (\<forall>b \<in> set xs. holders_of (chunk_at mem' b) =
       holders_of (chunk_at mem1 b) @ replicate (count_list (map (key_at mem1) as) (key_at mem1 b)) p))"
    by (rule Cons.IH) (use m1(2) Cons.prems(2,4) keys same_chunks_valid [OF m1(3)] Cons.prems(3) c(2) in auto)
  then show ?case
    using m1(1,3,4) same_chunks_trans by (auto simp: ok_iff keys)
qed

section \<open>Answering a WHOHAS\<close>

lemma wire_hash_packet:
  assumes "\<forall>b \<in> set bs. length b = 20" "length bs \<le> SHA_MAX_NUM"
  shows "wire_image (hash_packet t bs) = Inr (wire (hash_packet t bs))"
proof -
  have "length (concat bs) = 20 * length bs" by (rule length_concat_const) (use assms(1) in blast)
  then have "length (hash_payload bs) = 4 + 20 * length bs" by (simp add: hash_payload_def)
  from wire_image_sized [OF _ this, of t 0] assms(2) show ?thesis
    by (simp add: wire_def hash_packet_def SHA_MAX_NUM_74)
qed

lemma map_filter_hex:
  "filter (\<lambda>k. k \<in> hex_string ` set hs) (map hex_string bs) = map hex_string (filter (\<lambda>h. h \<in> set hs) bs)"
proof (induction bs)
  case (Cons b bs)
  have "hex_string b \<in> hex_string ` set hs \<longleftrightarrow> b \<in> set hs" by (auto simp: hex_string_inject)
  with Cons show ?case by simp
qed simp

lemma unhex_filter:
  "map unhex (filter (\<lambda>k. k \<in> hex_string ` set hs) (map hex_string bs)) = filter (\<lambda>h. h \<in> set hs) bs"
  by (simp add: map_filter_hex unhex_hex_string comp_def)

lemma one_batch: "0 < length xs \<Longrightarrow> length xs < SHA_MAX_NUM \<Longrightarrow> batches (length xs) (batch_count (length xs)) xs = [xs]"
  by (simp add: batch_count_def)

lemma matches_first:
  assumes "r \<in> set (concat (map (matches mem own) as))"
  shows "List.find (\<lambda>c. key_at mem c = key_at mem r) own = Some r"
proof -
  from assms obtain x where "r \<in> set (matches mem own x)" unfolding set_concat set_map by blast
  then have "List.find (\<lambda>c. key_at mem c = key_at mem x) own = Some r"
    by (auto simp: matches_def split: option.splits)
  with find_SomeD [OF this] show ?thesis by simp
qed

lemma matches_key_inj: "inj_on (key_at mem) (set (concat (map (matches mem own) as)))"
  using matches_first by (intro inj_onI) (metis option.inject)

lemma distinct_unhex: "\<forall>b \<in> set bs. length b = 20 \<Longrightarrow> distinct (map hex_string bs) = distinct bs"
  by (simp add: distinct_map inj_on_def hex_string_inject)

text \<open>Taking the first entry with each of some keys out of a list, by its place and by its key.\<close>

lemma map_remove1_find:
  "List.find (\<lambda>c. f c = f r) own = Some r \<Longrightarrow> map f (remove1 r own) = remove1 (f r) (map f own)"
  by (induction own) (auto split: if_splits)

lemma find_remove1:
  "List.find (\<lambda>c. f c = f x) own = Some x \<Longrightarrow> f r \<noteq> f x \<Longrightarrow> List.find (\<lambda>c. f c = f x) (remove1 r own) = Some x"
  by (induction own) (auto split: if_splits)

lemma map_fold_remove1:
  "\<forall>r \<in> set res. List.find (\<lambda>c. f c = f r) own = Some r \<Longrightarrow> distinct (map f res) \<Longrightarrow>
   map f (fold remove1 res own) = fold remove1 (map f res) (map f own)"
proof (induction res arbitrary: own)
  case (Cons r res)
  have "f r \<noteq> f x" if "x \<in> set res" for x using Cons.prems(2) that by auto
  then have "\<forall>x \<in> set res. List.find (\<lambda>c. f c = f x) (remove1 r own) = Some x"
    using Cons.prems(1) by (auto intro: find_remove1)
  from Cons.IH [OF this] Cons.prems show ?case by (simp add: map_remove1_find)
qed simp

lemma fold_remove1_distinct: "distinct own \<Longrightarrow> fold remove1 res own = filter (\<lambda>a. a \<notin> set res) own"
proof (induction res arbitrary: own)
  case (Cons r res)
  from Cons.IH [of "remove1 r own"] Cons.prems show ?case
    by (simp add: distinct_remove1_removeAll removeAll_filter_not_eq) (auto intro: filter_cong)
qed simp

lemma fold_remove1_hex:
  "\<forall>h \<in> set hs \<union> set bs. length h = 20 \<Longrightarrow>
   fold remove1 (map hex_string bs) (map hex_string hs) = map hex_string (fold remove1 bs hs)"
proof (induction bs arbitrary: hs)
  case (Cons b bs)
  have "inj_on hex_string (insert b (set hs))" using Cons.prems by (intro inj_onI) (simp add: hex_string_inject)
  then have "remove1 (hex_string b) (map hex_string hs) = map hex_string (remove1 b hs)"
    by (induction hs) (auto simp: inj_on_def)
  moreover have "set (remove1 b hs) \<subseteq> set hs" by (rule set_remove1_subset)
  then have "\<forall>h \<in> set (remove1 b hs) \<union> set bs. length h = 20" using Cons.prems by auto
  ultimately show ?case using Cons.IH by simp
qed simp

lemma mem_ok_None: "mem_ok mem \<Longrightarrow> ch_brk mem \<le> a \<Longrightarrow> ch_heap mem a = None"
  using mem_okD [of mem a] by (cases "ch_heap mem a") auto

lemma dom_alloc_all:
  assumes "mem_ok mem" "\<forall>c \<in> set cs. chunk_ok c"
  shows "dom (ch_heap (alloc_all mem cs)) = dom (ch_heap mem) \<union> {ch_brk mem..<ch_brk mem + length cs}"
proof -
  note new = alloc_all_old [OF assms]
  have "a \<in> dom (ch_heap (alloc_all mem cs)) \<longleftrightarrow> a \<in> dom (ch_heap mem) \<or> a \<in> {ch_brk mem..<ch_brk mem + length cs}" for a
  proof -
    consider "a < ch_brk mem" | "ch_brk mem \<le> a" "a < ch_brk mem + length cs" | "ch_brk mem + length cs \<le> a" by linarith
    then show ?thesis
    proof cases
      case 1
      with new show ?thesis by (simp add: dom_def)
    next
      case 2
      then have "ch_heap (alloc_all mem cs) a = Some (cs ! (a - ch_brk mem))" using new by (metis le_add_diff_inverse less_diff_conv2 add.commute)
      with 2 show ?thesis by auto
    next
      case 3
      with new mem_ok_None [of "alloc_all mem cs" a] mem_ok_None [OF assms(1), of a] show ?thesis by (simp add: dom_def)
    qed
  qed
  then show ?thesis by blast
qed

text \<open>
  The chunk objects that \<open>process_WHOHAS\<close> makes from a packet (\<open>as\<close>), those it makes from the has-chunk file
  (\<open>own\<close>), and those of the latter that it finds (\<open>res\<close>).
\<close>

lemma whohas_chunks:
  assumes "mem_ok mem" "files f = Some (chunk_list_text 0 hs)" "length hs \<le> 2 ^ 31" "\<forall>h \<in> set hs. length h = 20"
    and "\<forall>b \<in> set bs. length b = 20" "length bs \<le> SHA_MAX_NUM" "pkt_data pkt = hash_payload bs @ junk"
  shows "\<exists>who mem1 as hv mem2 res own. pkt2chunks mem pkt WHOHAS = Inr (who, mem1) \<and>
    which_i_have files mem1 who f = Inr (hv, mem2) \<and> repr who as \<and> repr hv res \<and> mem_ok mem2 \<and>
    valid mem2 as \<and> valid mem2 res \<and> distinct as \<and>
    distinct res = distinct (filter (\<lambda>h. h \<in> set hs) bs) \<and> set as \<inter> set res = {} \<and>
    map (key_at mem2) res = map hex_string (filter (\<lambda>h. h \<in> set hs) bs) \<and>
    map (bin_hash mem2) res = filter (\<lambda>h. h \<in> set hs) bs \<and>
    (\<forall>a c. ch_heap mem a = Some c \<longrightarrow> ch_heap mem2 a = Some c \<and> a \<notin> set as \<and> a \<notin> set res) \<and>
    dom (ch_heap mem2) = dom (ch_heap mem) \<union> set as \<union> set own \<and> set own \<inter> (dom (ch_heap mem) \<union> set as) = {} \<and>
    distinct own \<and> map (key_at mem2) own = map hex_string hs \<and>
    (\<forall>r \<in> set res. List.find (\<lambda>c. key_at mem2 c = key_at mem2 r) own = Some r)"
proof -
  let ?cs = "map hash_chunk bs" and ?as = "[ch_brk mem..<ch_brk mem + length bs]"
  let ?mem1 = "alloc_all mem ?cs" and ?ls = "map (\<lambda>i. listed_chunk i (hs ! i)) [0..<length hs]"
  let ?mem2 = "alloc_all ?mem1 ?ls"
  have h: "\<And>h. h \<in> set hs \<Longrightarrow> length h = 20" using assms(4) by blast
  have cs: "\<forall>c \<in> set ?cs. chunk_ok c" using chunk_ok_hash_chunk assms(5) by auto
  note new = alloc_all_old [OF assms(1) cs]
  have ls: "\<forall>c \<in> set ?ls. chunk_ok c"
    using chunk_ok_hash_chunk assms(4) by (auto simp: listed_chunk_def chunk_ok_def)
  obtain who where who: "pkt2chunks mem pkt WHOHAS = Inr (who, ?mem1)" "repr who ?as"
    using pkt2chunks_hash_payload [OF assms(1) _ assms(6) _ assms(7), of WHOHAS] assms(5) by (auto simp: ok_iff)
  obtain q' mem' as' where "pkt2chunks mem pkt WHOHAS = Inr (q', mem')" "mem_ok mem'" "repr q' as'" "valid mem' as'"
      "map (key_at mem') as' = map hex_string bs"
    using pkt2chunks_fresh [OF assms(1) _ assms(6) _ assms(7), of WHOHAS] assms(5) by (auto simp: ok_iff SHA1_HASH_SIZE_def)
  with who repr_unique have m1: "mem_ok ?mem1" "valid ?mem1 ?as" "map (key_at ?mem1) ?as = map hex_string bs" by auto
  let ?own = "[ch_brk ?mem1..<ch_brk ?mem1 + length hs]"
  note l = listed_chunks(1-3) [OF m1(1) h]
  define res where "res = concat (map (matches ?mem2 ?own) ?as)"
  obtain hv where w: "which_i_have files ?mem1 who f = Inr (hv, ?mem2)" "repr hv res"
      "map (key_at ?mem2) res = filter (\<lambda>k. k \<in> hex_string ` set hs) (map (key_at ?mem1) ?as)"
    using which_i_have_text [where fs = files and f = f and hs = hs, OF m1(1) who(2) m1(2) assms(2-4)] unfolding res_def by blast
  have "map (bin_hash ?mem2) res = map unhex (map (key_at ?mem2) res)" by (simp add: bin_hash_def)
  then have bins: "map (bin_hash ?mem2) res = filter (\<lambda>h. h \<in> set hs) bs" unfolding w(3) m1(3) unhex_filter .
  have keys: "map (key_at ?mem2) res = map hex_string (filter (\<lambda>h. h \<in> set hs) bs)" unfolding w(3) m1(3) by (rule map_filter_hex)
  have dist: "distinct res = distinct (filter (\<lambda>h. h \<in> set hs) bs)"
  proof -
    have "distinct (map (key_at ?mem2) res) = distinct res"
      using matches_key_inj [of ?mem2 ?own ?as] by (simp add: distinct_map res_def [symmetric])
    moreover have "\<forall>b \<in> set (filter (\<lambda>h. h \<in> set hs) bs). length b = 20" using assms(5) by simp
    ultimately show ?thesis unfolding keys by (simp add: distinct_unhex)
  qed
  have brk: "ch_brk ?mem1 = ch_brk mem + length bs" using new by simp
  have old: "dom (ch_heap mem) \<subseteq> {..<ch_brk mem}" using mem_okD [OF assms(1)] by auto
  have dom: "dom (ch_heap ?mem2) = dom (ch_heap mem) \<union> set ?as \<union> set ?own"
    using dom_alloc_all [OF assms(1) cs] dom_alloc_all [OF m1(1) ls] by simp
  have disj: "set ?own \<inter> (dom (ch_heap mem) \<union> set ?as) = {}" "dom (ch_heap mem) \<inter> set ?as = {}" using old brk by auto
  have res: "set res \<subseteq> set ?own" unfolding res_def by (auto dest: matchesD)
  have "\<forall>a c. ch_heap mem a = Some c \<longrightarrow> ch_heap ?mem2 a = Some c \<and> a \<notin> set ?as \<and> a \<notin> set res"
    using grows_lookup [OF grows_alloc_all m1(1)] grows_lookup [OF grows_alloc_all assms(1)] disj res by blast
  moreover have "\<forall>r \<in> set res. List.find (\<lambda>c. key_at ?mem2 c = key_at ?mem2 r) ?own = Some r"
    unfolding res_def by (intro ballI matches_first)
  moreover have "valid ?mem2 res" "set ?as \<inter> set res = {}" using l(2) disj(1) res by (auto simp only: valid_def)
  moreover have "distinct ?as" "distinct ?own" by simp_all
  moreover note who w(1,2) l(1,3) keys dist bins dom disj(1) grows_valid [OF grows_alloc_all m1(1,2)]
  ultimately show ?thesis by (intro exI conjI) (assumption+)
qed

lemma process_WHOHAS_step:
  assumes "mem_ok (chunk_heap st)" "fs st (has_chunk_file (config st)) = Some (chunk_list_text 0 hs)"
    and "length hs \<le> 2 ^ 31" "\<forall>h \<in> set hs. length h = 20"
    and "\<forall>b \<in> set bs. length b = 20" "length bs \<le> SHA_MAX_NUM" "pkt_data pkt = hash_payload bs @ junk"
    and "held = filter (\<lambda>h. h \<in> set hs) bs" "length held < SHA_MAX_NUM" "peer_heap (config st) b = Some pe"
  shows "if distinct held
    then \<exists>mem. process_WHOHAS st pkt (Some b) = Inr (st\<lparr>chunk_heap := mem,
        sent := sent st @ (if held = [] then [] else [(sin_addr pe, sin_port pe, wire (hash_packet IHAVE held))])\<rparr>) \<and>
      (\<forall>a c. ch_heap (chunk_heap st) a = Some c \<longrightarrow> ch_heap mem a = Some c) \<and>
      (\<exists>leaked. dom (ch_heap mem) = dom (ch_heap (chunk_heap st)) \<union> set leaked \<and> distinct leaked \<and>
         set leaked \<inter> dom (ch_heap (chunk_heap st)) = {} \<and> map (key_at mem) leaked = map hex_string (fold remove1 held hs))
    else process_WHOHAS st pkt (Some b) = Inl Double_Free"
proof -
  obtain who mem1 as hv mem2 res own where w: "pkt2chunks (chunk_heap st) pkt WHOHAS = Inr (who, mem1)"
      "which_i_have (fs st) mem1 who (has_chunk_file (config st)) = Inr (hv, mem2)" "repr who as" "repr hv res"
      "mem_ok mem2" "valid mem2 as" "valid mem2 res" "distinct as" "distinct res = distinct held" "set as \<inter> set res = {}"
      "map (key_at mem2) res = map hex_string held" "map (bin_hash mem2) res = held"
      "\<forall>a c. ch_heap (chunk_heap st) a = Some c \<longrightarrow> ch_heap mem2 a = Some c \<and> a \<notin> set as \<and> a \<notin> set res"
      "dom (ch_heap mem2) = dom (ch_heap (chunk_heap st)) \<union> set as \<union> set own" "set own \<inter> (dom (ch_heap (chunk_heap st)) \<union> set as) = {}"
      "distinct own" "map (key_at mem2) own = map hex_string hs"
      "\<forall>r \<in> set res. List.find (\<lambda>c. key_at mem2 c = key_at mem2 r) own = Some r"
    using whohas_chunks [of "chunk_heap st" "fs st" "has_chunk_file (config st)" hs bs pkt junk, OF assms(1-7)]
    unfolding assms(8) [symmetric] by (elim exE conjE) (rule that, assumption+)
  let ?m3 = "mem2\<lparr>ch_heap := ch_heap mem2 |` (- set res)\<rparr>"
  let ?m4 = "?m3\<lparr>ch_heap := ch_heap ?m3 |` (- set as)\<rparr>"
  have res_own: "set res \<subseteq> set own" using w(18) find_SomeD by fastforce
  have dist: "distinct res \<Longrightarrow> distinct (map (key_at mem2) res)"
    using w(18) by (auto simp: distinct_map intro!: inj_onI) (metis option.inject)
  have leak: "\<exists>leaked. dom (ch_heap ?m4) = dom (ch_heap (chunk_heap st)) \<union> set leaked \<and> distinct leaked \<and>
      set leaked \<inter> dom (ch_heap (chunk_heap st)) = {} \<and> map (key_at ?m4) leaked = map hex_string (fold remove1 held hs)"
    if held: "distinct held"
  proof -
    let ?leaked = "filter (\<lambda>a. a \<notin> set res) own"
    have "map (key_at ?m4) ?leaked = map (key_at mem2) ?leaked"
      using w(15) by (auto simp: key_at_def chunk_at_def restrict_map_def)
    also have "\<dots> = fold remove1 (map (key_at mem2) res) (map (key_at mem2) own)"
      using map_fold_remove1 [OF w(18) dist] held w(9) fold_remove1_distinct [OF w(16)] by simp
    also have "\<dots> = map hex_string (fold remove1 held hs)"
      unfolding w(11,17) by (rule fold_remove1_hex) (use assms(4,5,8) in auto)
    finally have "map (key_at ?m4) ?leaked = map hex_string (fold remove1 held hs)" .
    moreover have "dom (ch_heap ?m4) = dom (ch_heap (chunk_heap st)) \<union> set ?leaked"
      using w(13-15) res_own by (auto simp: restrict_map_def dom_def split: if_splits)
    ultimately show ?thesis using w(15,16) by (intro exI [of _ ?leaked]) auto
  qed
  have old: "\<forall>a c. ch_heap (chunk_heap st) a = Some c \<longrightarrow> ch_heap ?m4 a = Some c"
    using w(13) by (simp add: restrict_map_def)
  have emp: "is_empty hv = Inr (res = [])" "hv \<noteq> Null" using cq.rep_emp [OF w(4)] w(4) by (auto simp: repr_def)
  have len: "length res = length held" using w(12) by (metis length_map)
  show ?thesis
  proof (cases "res = []")
    case True
    have "free_chunk_queue mem2 who = Inr (mem2\<lparr>ch_heap := ch_heap mem2 |` (- set as)\<rparr>)"
      by (rule free_chunk_queue_spec [OF w(3,8,6)])
    moreover have "?m4 = mem2\<lparr>ch_heap := ch_heap mem2 |` (- set as)\<rparr>" using True by simp
    moreover have "held = []" using True len by simp
    ultimately show ?thesis
      using w(1,2) emp True leak old by (auto simp: process_WHOHAS_def intro!: exI [of _ ?m4])
  next
    case False
    have "length res < SHA_MAX_NUM" "0 < length res" using len assms(9) False by auto
    from one_batch [OF this(2,1)] chunks2pkts_spec [OF w(5,4,7), of IHAVE]
    obtain p where p: "chunks2pkts mem2 hv IHAVE = Inr p" "repr p [hash_packet IHAVE held]"
      by (auto simp: ok_iff w(12))
    obtain p' where p': "dequeue p = Inr (Some (hash_packet IHAVE held), p')" "repr p' []"
      using repr_dequeue_Cons [OF p(2)] by (auto simp: ok_iff)
    have "\<forall>b \<in> set held. length b = 20" "length held \<le> SHA_MAX_NUM" using assms(5,8,9) by auto
    note snd = send_PKT_ok [of st b pe, OF assms(10) wire_hash_packet [OF this, of IHAVE]]
    have ne: "held \<noteq> []" using False len by auto
    note start = w(1,2) emp False p(1) p'(1) snd free_queue_repr [OF p'(2)]
    show ?thesis
    proof (cases "distinct held")
      case True
      then have f1: "free_chunk_queue mem2 hv = Inr ?m3" using free_chunk_queue_spec [OF w(4) _ w(7)] w(9) by simp
      have "valid ?m3 as" using w(6,10) by (auto simp: valid_def restrict_map_def)
      note f2 = free_chunk_queue_spec [OF w(3,8) this]
      have "process_WHOHAS st pkt (Some b) = Inr (st\<lparr>chunk_heap := ?m4,
          sent := sent st @ (if held = [] then [] else [(sin_addr pe, sin_port pe, wire (hash_packet IHAVE held))])\<rparr>)"
        using start f1 f2 ne by (simp add: process_WHOHAS_def)
      then show ?thesis unfolding if_P [OF True] using old leak [OF True] by blast
    next
      case dup: False
      then have "free_chunk_queue mem2 hv = Inl Double_Free"
        using free_all_twice [of res "ch_heap mem2"] w(9) by (simp add: free_chunk_queue_def free_queue_repr [OF w(4)])
      with start dup show ?thesis by (simp add: process_WHOHAS_def)
    qed
  qed
qed

section \<open>Receiving an IHAVE\<close>

lemma process_IHAVE_step:
  assumes "mem_ok (chunk_heap st)" "repr (down_chunks st) xs" "valid (chunk_heap st) xs"
    and "distinct (map (key_at (chunk_heap st)) xs)"
    and "\<forall>b \<in> set bs. length b = SHA1_HASH_SIZE" "length bs \<le> SHA_MAX_NUM" "pkt_data pkt = hash_payload bs @ junk"
  shows "\<exists>mem. process_IHAVE st pkt peer = Inr (st\<lparr>chunk_heap := mem\<rparr>) \<and> mem_ok mem \<and> valid mem xs \<and>
    (\<forall>b \<in> set xs. holders_of (chunk_at mem b) = holders_of (chunk_at (chunk_heap st) b) @
         replicate (count_list (map hex_string bs) (key_at (chunk_heap st) b)) peer \<and>
       key_at mem b = key_at (chunk_heap st) b \<and> chunk_id (chunk_at mem b) = chunk_id (chunk_at (chunk_heap st) b) \<and>
       chunk_data (chunk_at mem b) = chunk_data (chunk_at (chunk_heap st) b) \<and>
       c_state (chunk_at mem b) = c_state (chunk_at (chunk_heap st) b))"
proof -
  let ?mem = "chunk_heap st"
  obtain q mem1 as where m1: "pkt2chunks ?mem pkt IHAVE = Inr (q, mem1)" "mem_ok mem1" "repr q as" "valid mem1 as"
      "map (key_at mem1) as = map hex_string bs" "\<forall>a c. ch_heap ?mem a = Some c \<longrightarrow> ch_heap mem1 a = Some c"
    using pkt2chunks_fresh [OF assms(1,5,6) _ assms(7), of IHAVE] by (auto simp: ok_iff)
  have at: "chunk_at mem1 b = chunk_at ?mem b" if "b \<in> set xs" for b
    using validD [OF assms(3) that] m1(6) by (simp add: chunk_at_def)
  have v: "valid mem1 xs" using assms(3) m1(6) by (auto simp: valid_def)
  have keys: "map (key_at mem1) xs = map (key_at ?mem) xs" using at by (simp add: key_at_def)
  obtain mem2 where m2: "add_holders mem1 (down_chunks st) as peer = Inr mem2" "mem_ok mem2" "same_chunks mem1 mem2"
      "\<forall>b \<in> set xs. holders_of (chunk_at mem2 b) =
         holders_of (chunk_at mem1 b) @ replicate (count_list (map (key_at mem1) as) (key_at mem1 b)) peer"
    using add_holders_spec [OF m1(2) assms(2) v _ m1(4), of peer] assms(4) keys by (auto simp: ok_iff)
  have "process_IHAVE st pkt peer = Inr (st\<lparr>chunk_heap := mem2\<rparr>)"
    using m1(1) m2(1) cq.rep_items [OF m1(3)] by (simp add: process_IHAVE_def)
  moreover have "chunk_data (chunk_at mem2 b) = chunk_data (chunk_at mem1 b) \<and> c_state (chunk_at mem2 b) = c_state (chunk_at mem1 b) \<and>
      chunk_id (chunk_at mem2 b) = chunk_id (chunk_at mem1 b)" for b
    using m2(3) unfolding same_chunks_def by (metis chunk_t.select_convs chunk_t.surjective chunk_t.update_convs(4))
  ultimately show ?thesis
    using m2(2,4) same_chunks_valid [OF m2(3) v] same_chunks_key [OF m2(3)] at m1(5)
    by (intro exI [of _ mem2]) (auto simp: key_at_def)
qed

section \<open>Properties\<close>

text \<open>
  C19. Which packets are looked at: \<open>correct\<close> accepts exactly the headers with the magic number, version 1,
  a known type, a sequence number other than 0 for DATA and only for DATA, and an acknowledgment number
  of 0 unless the type is ACK; every other packet leaves the peer's state as it was.
\<close>

theorem only_acceptable_packets:
  "correct pkt = Inr (acceptable (header pkt)) \<and>
   (process_PKT m st raw port = Inr st \<or> acceptable (header (convert raw HOST)))"
proof (cases "acceptable (header (convert raw HOST))")
  case False
  then show ?thesis by (simp add: correct_spec process_PKT_def not_correct_spec)
qed (simp add: correct_spec)

text \<open>
  C10. An IHAVE: for every chunk of the download queue (whose hashes differ) the sender of the packet
  becomes a holder as often as the packet lists the chunk's hash, behind the holders it had; nothing
  else about the chunks of the queue changes.
\<close>

theorem process_IHAVE_adds_holder:
  assumes "mem_ok (chunk_heap st)" "repr (down_chunks st) xs" "valid (chunk_heap st) xs"
    and "distinct (map (key_at (chunk_heap st)) xs)"
    and "\<forall>b \<in> set bs. length b = SHA1_HASH_SIZE" "length bs \<le> SHA_MAX_NUM" "pkt_data pkt = hash_payload bs @ junk"
  shows "ok (process_IHAVE st pkt peer) (\<lambda>st'. \<exists>mem. st' = st\<lparr>chunk_heap := mem\<rparr> \<and> mem_ok mem \<and>
    (\<forall>b \<in> set xs. holders_of (chunk_at mem b) = holders_of (chunk_at (chunk_heap st) b) @
         replicate (count_list (map hex_string bs) (key_at (chunk_heap st) b)) peer \<and>
       chunk_data (chunk_at mem b) = chunk_data (chunk_at (chunk_heap st) b) \<and>
       c_state (chunk_at mem b) = c_state (chunk_at (chunk_heap st) b)))"
proof -
  from process_IHAVE_step [OF assms, of peer] obtain mem where
    "process_IHAVE st pkt peer = Inr (st\<lparr>chunk_heap := mem\<rparr>)" "mem_ok mem"
    "\<forall>b \<in> set xs. holders_of (chunk_at mem b) = holders_of (chunk_at (chunk_heap st) b) @
         replicate (count_list (map hex_string bs) (key_at (chunk_heap st) b)) peer \<and>
       chunk_data (chunk_at mem b) = chunk_data (chunk_at (chunk_heap st) b) \<and>
       c_state (chunk_at mem b) = c_state (chunk_at (chunk_heap st) b)" by blast
  then show ?thesis by (simp only: ok_simps) blast
qed

text \<open>
  C9. A WHOHAS: to a request of at most 74 hashes, of which fewer than 74, all different, are listed in
  the has-chunk file, the peer answers with one IHAVE packet that lists those, in the order of the
  request, or with nothing if there are none, and of the state only the chunk heap changes besides. The
  chunks there were before are untouched, and the chunks made from the packet and those found for it are freed;
  but the chunks of the file that were not found for it stay in the heap, one for each entry of the file
  except the first with each of the answered hashes, with nothing left that refers to them.
\<close>

theorem process_WHOHAS_answers:
  assumes "mem_ok (chunk_heap st)" "fs st (has_chunk_file (config st)) = Some (chunk_list_text 0 hs)"
    and "length hs \<le> 2 ^ 31" "\<forall>h \<in> set hs. length h = 20"
    and "\<forall>b \<in> set bs. length b = 20" "length bs \<le> SHA_MAX_NUM" "pkt_data pkt = hash_payload bs @ junk"
    and "held = filter (\<lambda>h. h \<in> set hs) bs" "length held < SHA_MAX_NUM" "peer_heap (config st) b = Some pe"
    and "distinct held"
  shows "ok (process_WHOHAS st pkt (Some b)) (\<lambda>st'. \<exists>mem leaked.
    st' = st\<lparr>chunk_heap := mem,
      sent := sent st @ (if held = [] then [] else [(sin_addr pe, sin_port pe, wire (hash_packet IHAVE held))])\<rparr> \<and>
    (\<forall>a c. ch_heap (chunk_heap st) a = Some c \<longrightarrow> ch_heap mem a = Some c) \<and>
    dom (ch_heap mem) = dom (ch_heap (chunk_heap st)) \<union> set leaked \<and> distinct leaked \<and>
    set leaked \<inter> dom (ch_heap (chunk_heap st)) = {} \<and>
    map (key_at mem) leaked = map hex_string (fold remove1 held hs))"
  using process_WHOHAS_step [of st hs bs pkt junk held b pe, OF assms(1-10)] unfolding if_P [OF assms(11)]
  by (elim exE conjE, simp only: ok_simps) blast

text \<open>
  C18. A request that lists a hash twice that the peer has kills the peer: both entries find the same
  chunk object, which is freed twice behind the answer.
\<close>

theorem process_WHOHAS_duplicates:
  assumes "mem_ok (chunk_heap st)" "fs st (has_chunk_file (config st)) = Some (chunk_list_text 0 hs)"
    and "length hs \<le> 2 ^ 31" "\<forall>h \<in> set hs. length h = 20"
    and "\<forall>b \<in> set bs. length b = 20" "length bs \<le> SHA_MAX_NUM" "pkt_data pkt = hash_payload bs @ junk"
    and "held = filter (\<lambda>h. h \<in> set hs) bs" "length held < SHA_MAX_NUM" "peer_heap (config st) b = Some pe"
    and "\<not> distinct held"
  shows "process_WHOHAS st pkt (Some b) = Inl Double_Free"
  using process_WHOHAS_step [of st hs bs pkt junk held b pe] assms by simp

section \<open>Applications\<close>

definition demo_seed :: handler where
  "demo_seed = (handler_start demo_config (\<lambda>f. Some (chunk_list_text 0 [replicate 20 1, replicate 20 2])) (\<lambda>f. True))
     \<lparr>chunk_heap := alloc_all empty_mem [hash_chunk (replicate 20 5)], down_chunks := queue_of [0]\<rparr>"

definition demo_list :: "pkt_type \<Rightarrow> byte list list \<Rightarrow> packet" where
  "demo_list t bs = \<lparr>header = sized_header t 0 (4 + 20 * length bs), pkt_data = hash_payload bs @ [9, 9]\<rparr>"

lemma demo_seed_fields [simp]:
  "chunk_heap demo_seed = alloc_all empty_mem [hash_chunk (replicate 20 5)]" "down_chunks demo_seed = queue_of [0]"
  "fs demo_seed = (\<lambda>f. Some (chunk_list_text 0 [replicate 20 1, replicate 20 2]))" "config demo_seed = demo_config"
  "sent demo_seed = []" "peer_heap demo_config 7 = Some \<lparr>peer_id = 2, sin_addr = 9, sin_port = 80, peer_next = None\<rparr>"
  by (simp_all add: demo_seed_def handler_start_def demo_config_def)

lemma demo_seed_mem:
  "mem_ok (alloc_all empty_mem [hash_chunk (replicate 20 5)])" "valid (alloc_all empty_mem [hash_chunk (replicate 20 5)]) [0]"
  "chunk_at (alloc_all empty_mem [hash_chunk (replicate 20 5)]) 0 = hash_chunk (replicate 20 5)"
  "ch_heap (alloc_all empty_mem [hash_chunk (replicate 20 5)]) 0 = Some (hash_chunk (replicate 20 5))"
proof -
  have ok: "\<forall>c \<in> set [hash_chunk (replicate 20 5)]. chunk_ok c" using chunk_ok_hash_chunk by simp
  note mem = alloc_all_empty [OF ok]
  show "mem_ok (alloc_all empty_mem [hash_chunk (replicate 20 5)])" by (rule mem(1))
  show "valid (alloc_all empty_mem [hash_chunk (replicate 20 5)]) [0]" using mem(2) by simp
  show "chunk_at (alloc_all empty_mem [hash_chunk (replicate 20 5)]) 0 = hash_chunk (replicate 20 5)"
    using mem(4) [of 0] by simp
  show "ch_heap (alloc_all empty_mem [hash_chunk (replicate 20 5)]) 0 = Some (hash_chunk (replicate 20 5))"
    using mem(3) [of 0] by simp
qed

lemma demo_seed_key: "key_at (alloc_all empty_mem [hash_chunk (replicate 20 5)]) 0 = hex_string (replicate 20 5)"
  by (simp add: key_at_def demo_seed_mem(3) key_hash_chunk del: alloc_all.simps)

theorem process_IHAVE_adds_holder_witness:
  "ok (process_IHAVE demo_seed (demo_list IHAVE [replicate 20 5, replicate 20 6]) (Some 7))
    (\<lambda>st. holders_of (chunk_at (chunk_heap st) 0) = [Some 7])"
proof -
  have "holders_of (hash_chunk (replicate 20 5)) = []"
    using holders_of_repr [of "hash_chunk (replicate 20 5)" "[]"] cq.rep_new by (simp add: hash_chunk_def)
  moreover have "hex_string (replicate 20 6) \<noteq> hex_string (replicate 20 5)"
    by (simp add: hex_string_inject replicate_eq_replicate)
  ultimately show ?thesis
    by (intro ok_mono [OF process_IHAVE_adds_holder [of demo_seed "[0]" "[replicate 20 5, replicate 20 6]" _ "[9, 9]"]])
      (auto simp: demo_seed_mem demo_seed_key repr_queue_of demo_list_def SHA1_HASH_SIZE_def SHA_MAX_NUM_74
        simp del: alloc_all.simps)
qed

lemma demo_held:
  "filter (\<lambda>h. h \<in> set [replicate 20 1, replicate 20 2]) [replicate 20 2, replicate 20 3] = [replicate 20 (2 :: byte)]"
  by (simp add: replicate_eq_replicate)

theorem process_WHOHAS_answers_witness:
  "ok (process_WHOHAS demo_seed (demo_list WHOHAS [replicate 20 2, replicate 20 3]) (Some 7))
    (\<lambda>st. sent st = [(9, 80, wire (hash_packet IHAVE [replicate 20 2]))] \<and>
      (\<exists>a. a \<notin> dom (ch_heap (chunk_heap demo_seed)) \<and> key_at (chunk_heap st) a = hex_string (replicate 20 1) \<and>
         dom (ch_heap (chunk_heap st)) = insert a (dom (ch_heap (chunk_heap demo_seed)))))"
proof (rule ok_mono [OF process_WHOHAS_answers [of demo_seed "[replicate 20 1, replicate 20 2]"
        "[replicate 20 2, replicate 20 3]" _ "[9, 9]" "[replicate 20 2]" 7 "\<lparr>peer_id = 2, sin_addr = 9, sin_port = 80, peer_next = None\<rparr>"]])
  fix st
  let ?pe = "\<lparr>peer_id = 2, sin_addr = 9, sin_port = 80, peer_next = None\<rparr> :: bt_peer_t"
  let ?old = "dom (ch_heap (chunk_heap demo_seed))"
  assume "\<exists>mem leaked. st = demo_seed\<lparr>chunk_heap := mem, sent := sent demo_seed @ (if [replicate 20 (2 :: byte)] = [] then []
        else [(sin_addr ?pe, sin_port ?pe, wire (hash_packet IHAVE [replicate 20 2]))])\<rparr> \<and>
      (\<forall>a c. ch_heap (chunk_heap demo_seed) a = Some c \<longrightarrow> ch_heap mem a = Some c) \<and>
      dom (ch_heap mem) = ?old \<union> set leaked \<and> distinct leaked \<and> set leaked \<inter> ?old = {} \<and>
      map (key_at mem) leaked = map hex_string (fold remove1 [replicate 20 2] [replicate 20 1, replicate 20 2])"
  then obtain mem leaked where st: "st = demo_seed\<lparr>chunk_heap := mem, sent := sent demo_seed @ (if [replicate 20 (2 :: byte)] = [] then []
        else [(sin_addr ?pe, sin_port ?pe, wire (hash_packet IHAVE [replicate 20 2]))])\<rparr>"
      "dom (ch_heap mem) = ?old \<union> set leaked" "set leaked \<inter> ?old = {}"
      "map (key_at mem) leaked = map hex_string (fold remove1 [replicate 20 2] [replicate 20 1, replicate 20 2])"
    by blast
  have "fold remove1 [replicate 20 2] [replicate 20 1, replicate 20 2] = [replicate 20 (1 :: byte)]"
    by (simp add: replicate_eq_replicate)
  with st(4) have "map (key_at mem) leaked = [hex_string (replicate 20 1)]" by simp
  then obtain a where "leaked = [a]" "key_at mem a = hex_string (replicate 20 1)" by auto
  with st(1-3) show "sent st = [(9, 80, wire (hash_packet IHAVE [replicate 20 2]))] \<and>
      (\<exists>a. a \<notin> ?old \<and> key_at (chunk_heap st) a = hex_string (replicate 20 1) \<and> dom (ch_heap (chunk_heap st)) = insert a ?old)"
    by (intro conjI exI [of _ a]) (simp_all del: demo_seed_fields(1))
qed (auto simp: demo_seed_mem demo_list_def SHA_MAX_NUM_74 demo_held simp del: alloc_all.simps)

theorem process_WHOHAS_duplicates_witness:
  "process_WHOHAS demo_seed (demo_list WHOHAS [replicate 20 2, replicate 20 2]) (Some 7) = Inl Double_Free"
  by (rule process_WHOHAS_duplicates [of demo_seed "[replicate 20 1, replicate 20 2]"
        "[replicate 20 2, replicate 20 2]" _ "[9, 9]" "[replicate 20 2, replicate 20 2]" 7])
    (auto simp: demo_seed_mem demo_list_def SHA_MAX_NUM_74 simp del: alloc_all.simps)

end
