(* ===== verification/Session_Start.thy ===== *)
theory Session_Start
  imports Transfer_Run Handler_Answers
begin

text \<open>
  How a transfer starts: \<open>look_at\<close> asks a holder for the chosen chunk and opens the receiving side of the
  connection, \<open>process_GET\<close> opens the sending side. The two ends then are in the start state of the
  transfer system of \<open>Chunk_Transfer\<close>.
\<close>

section \<open>New connections\<close>

context worker_pool
begin

lemma add_conn:
  assumes "pool_ok peer_of (Obj pl) ar ids" "get (Obj pl) ar (Some x) = Inr None" "cur_num pl < max_num pl" "peer_of w = Some x"
  defines "ar' \<equiv> \<lparr>ar_heap = (ar_heap ar)(ar_brk ar \<mapsto> w), ar_brk = Suc (ar_brk ar)\<rparr>" and "ids' \<equiv> ids @ [ar_brk ar]"
  shows "ok (enqueue (workers pl) (ar_brk ar)) (\<lambda>q.
    pool_ok peer_of (Obj (pl\<lparr>workers := q, cur_num := cur_num pl + 1\<rparr>)) ar' ids' \<and>
    get (Obj (pl\<lparr>workers := q, cur_num := cur_num pl + 1\<rparr>)) ar' (Some x) = Inr (Some (ar_brk ar)) \<and>
    (\<forall>b \<in> set ids'. peer_of (worker_at ar' b) = Some x \<longrightarrow> b = ar_brk ar))"
proof -
  have pl: "pool_rep pl ids" "arena_ok ar ids" "distinct (map (\<lambda>a. peer_of (worker_at ar a)) ids)"
    using assms(1) by (auto simp: pool_ok_def)
  have none: "\<forall>a \<in> set ids. peer_of (worker_at ar a) \<noteq> Some x" by (rule get_None [OF pl(1,2) assms(2)])
  have old: "worker_at ar' b = worker_at ar b" if "b \<in> set ids" for b
    using arena_bound [OF pl(2) that] by (simp add: worker_at_def ar'_def)
  have new: "worker_at ar' (ar_brk ar) = w" by (simp add: worker_at_def ar'_def)
  have "map (\<lambda>a. peer_of (worker_at ar' a)) ids = map (\<lambda>a. peer_of (worker_at ar a)) ids" using old by simp
  then have "distinct (map (\<lambda>a. peer_of (worker_at ar' a)) ids)" using pl(3) by metis
  then have dist: "distinct (map (\<lambda>a. peer_of (worker_at ar' a)) ids')"
    using none old new assms(4) by (auto simp: ids'_def)
  have arena: "arena_ok ar' ids'" using pl(2) by (auto simp: arena_ok_def ar'_def ids'_def less_Suc_eq)
  have one: "\<forall>b \<in> set ids'. peer_of (worker_at ar' b) = Some x \<longrightarrow> b = ar_brk ar"
    using none old by (auto simp: ids'_def)
  obtain q where q: "enqueue (workers pl) (ar_brk ar) = Inr q" "repr q ids'"
    using cq.rep_enq [of "workers pl" ids "ar_brk ar"] pl(1) by (auto simp: pool_rep_def ok_iff ids'_def)
  let ?pl = "pl\<lparr>workers := q, cur_num := cur_num pl + 1\<rparr>"
  have "pool_rep ?pl ids'" using q(2) pl(1) assms(3) by (simp add: pool_rep_def ids'_def)
  then have ok: "pool_ok peer_of (Obj ?pl) ar' ids'" using arena dist by (simp add: pool_ok_def)
  have "get (Obj ?pl) ar' (Some x) = Inr (Some (ar_brk ar))"
    using get_conn [OF ok _ assms(4) one] by (simp add: ids'_def ar'_def)
  with q(1) ok one show ?thesis by simp
qed

end

lemma add_sender_conn:
  assumes "pool_ok p_receiver (Obj pool) ar ids" "get_sender (Obj pool) ar (Some b) = Inr None" "cur_num pool < max_num pool"
  shows "ok (add_sender pool ar (Some b) ps num) (\<lambda>(r, pool', ar'). r = Some (ar_brk ar) \<and>
    alone p_receiver (Obj pool') ar' b (ar_brk ar) (ids @ [ar_brk ar]) \<and>
    get_sender (Obj pool') ar' (Some b) = Inr (Some (ar_brk ar)) \<and>
    (\<exists>s. ar_heap ar' (ar_brk ar) = Some s \<and> p_receiver s = Some b \<and> pkts s = ps \<and> last_sent s = 0 \<and> last_acked s = 0 \<and>
       last_available s = 1 \<and> timer_id (timer s) = 0))"
  unfolding add_sender_def Let_def using assms(3)
  by (auto simp: ok_rbind_iff alone_def init_timer_def CWND_def elim!: ok_mono
      intro!: ok_mono [OF senders.add_conn [OF assms]])

lemma add_receiver_conn:
  assumes "pool_ok p_sender (Obj pool) ar ids" "get_receiver (Obj pool) ar (Some b) = Inr None" "cur_num pool < max_num pool"
  shows "ok (add_receiver pool ar (Some b) c) (\<lambda>(r, pool', ar'). r = Some (ar_brk ar) \<and>
    alone p_sender (Obj pool') ar' b (ar_brk ar) (ids @ [ar_brk ar]) \<and>
    get_receiver (Obj pool') ar' (Some b) = Inr (Some (ar_brk ar)) \<and>
    ar_heap ar' (ar_brk ar) = Some \<lparr>last_read = 0, last_rcvd = 0, next_expected = 1, r_chunk = c, p_sender = Some b\<rparr>)"
  unfolding add_receiver_def Let_def using assms(3)
  by (auto simp: ok_rbind_iff alone_def elim!: ok_mono intro!: ok_mono [OF receivers.add_conn [OF assms]])

section \<open>The sending side\<close>

text \<open>
  What \<open>process_GET\<close> finds: the pool, allocated at the first request, has room and no sender for the
  peer; the master chunk file lists \<open>hs\<close> and the data file \<open>f\<close> has the block \<open>i\<close> that the packet asks for.
\<close>

definition pool_opened :: "machine \<Rightarrow> handler \<Rightarrow> pool_t \<Rightarrow> bool" where
  "pool_opened m st pool \<longleftrightarrow> sender_pool st = Obj pool \<or>
     sender_pool st = Null \<and> init_sender_pool m (max_conn (config st)) = Inr pool"

definition serves :: "machine \<Rightarrow> handler \<Rightarrow> byte list list \<Rightarrow> byte list \<Rightarrow> nat \<Rightarrow> bool" where
  "serves m st hs f i \<longleftrightarrow> (\<exists>name. file_name_ok name \<and> fs st (chunk_file (config st)) = Some (master_text name hs) \<and>
     fs st name = Some f) \<and> (\<forall>h \<in> set hs. length h = 20) \<and> length hs \<le> 4096 \<and> distinct (map (take 10) hs) \<and>
     i < length hs \<and> 254 \<le> length (literal_tail m) \<and> (i + 1) * BT_CHUNK_SIZE \<le> length f"

definition block :: "byte list \<Rightarrow> nat \<Rightarrow> byte list" where
  "block f i = take BT_CHUNK_SIZE (drop (i * BT_CHUNK_SIZE) f)"

lemma serves_block: "serves m st hs f i \<Longrightarrow> length (block f i) = BT_CHUNK_SIZE"
  by (auto simp: serves_def block_def)

lemma pool_opened_step:
  assumes "pool_opened m st pool"
  shows "(if sender_pool st = Null
      then rbind (init_sender_pool m (max_conn (config st))) (\<lambda>p. Inr (st\<lparr>sender_pool := Obj p\<rparr>))
      else Inr st) = Inr (st\<lparr>sender_pool := Obj pool\<rparr>)"
  using assms by (auto simp: pool_opened_def)

lemma serves_chunk:
  assumes "serves m st hs f i" "pkt_data pkt = hs ! i @ junk"
  shows "\<exists>mem c. get_data_chunk m (fs st) (chunk_heap st) (chunk_file (config st)) pkt = Inr (Some (ch_brk (chunk_heap st)), mem) \<and>
    ch_heap mem (ch_brk (chunk_heap st)) = Some c \<and> chunk_data c = block f i"
proof -
  obtain name where s: "file_name_ok name" "fs st (chunk_file (config st)) = Some (master_text name hs)" "fs st name = Some f"
      "\<forall>h \<in> set hs. length h = 20" "length hs \<le> 4096" "distinct (map (take 10) hs)" "i < length hs"
      "254 \<le> length (literal_tail m)" "(i + 1) * BT_CHUNK_SIZE \<le> length f"
    using assms(1) by (auto simp: serves_def)
  from get_data_chunk_block [of name "fs st" _ hs, OF s(1-7) assms(2) s(8,9), of "chunk_heap st"]
  show ?thesis by (auto simp: ok_iff block_def)
qed

lemma process_GET_step:
  assumes "pool_opened m st pool" "pool_ok p_receiver (Obj pool) (sender_heap st) ids"
    and "get_sender (Obj pool) (sender_heap st) (Some b) = Inr None" "cur_num pool < max_num pool"
    and "serves m st hs f i" "pkt_data pkt = hs ! i @ junk"
  shows "\<exists>mem pool' ar' s. process_GET m st pkt (Some b) = Inr (st\<lparr>chunk_heap := mem, sender_pool := Obj pool', sender_heap := ar',
       new_senders := new_senders st @ [ar_brk (sender_heap st)]\<rparr>) \<and>
    alone p_receiver (Obj pool') ar' b (ar_brk (sender_heap st)) (ids @ [ar_brk (sender_heap st)]) \<and>
    get_sender (Obj pool') ar' (Some b) = Inr (Some (ar_brk (sender_heap st))) \<and>
    ar_heap ar' (ar_brk (sender_heap st)) = Some s \<and> p_receiver s = Some b \<and> pkts s = map (data_packet (block f i)) [0..<CHUNK_PKTS] \<and>
    last_sent s = 0 \<and> last_acked s = 0 \<and> last_available s = 1 \<and> timer_id (timer s) = 0"
proof -
  obtain mem c where c: "get_data_chunk m (fs st) (chunk_heap st) (chunk_file (config st)) pkt = Inr (Some (ch_brk (chunk_heap st)), mem)"
      "ch_heap mem (ch_brk (chunk_heap st)) = Some c" "chunk_data c = block f i"
    using serves_chunk [OF assms(5,6)] by blast
  have "chunk2pkts c = Inr (map (data_packet (block f i)) [0..<CHUNK_PKTS], CHUNK_PKTS)"
    using chunk2pkts_spec [of c] serves_block [OF assms(5)] c(3) by simp
  moreover obtain pool' ar' s where "add_sender pool (sender_heap st) (Some b) (map (data_packet (block f i)) [0..<CHUNK_PKTS]) CHUNK_PKTS =
        Inr (Some (ar_brk (sender_heap st)), pool', ar')"
      "alone p_receiver (Obj pool') ar' b (ar_brk (sender_heap st)) (ids @ [ar_brk (sender_heap st)])"
      "get_sender (Obj pool') ar' (Some b) = Inr (Some (ar_brk (sender_heap st)))"
      "ar_heap ar' (ar_brk (sender_heap st)) = Some s" "p_receiver s = Some b" "pkts s = map (data_packet (block f i)) [0..<CHUNK_PKTS]"
      "last_sent s = 0" "last_acked s = 0" "last_available s = 1" "timer_id (timer s) = 0"
    using add_sender_conn [OF assms(2-4), of "map (data_packet (block f i)) [0..<CHUNK_PKTS]" CHUNK_PKTS]
    by (auto elim!: ok_pairE simp: ok_iff)
  ultimately show ?thesis
    using pool_opened_step [OF assms(1)] assms(3,4) c(1,2)
    by (intro exI [of _ mem] exI [of _ pool'] exI [of _ ar'] exI [of _ s]) (simp add: process_GET_def)
qed

text \<open>The new sender is at the start of its session.\<close>

definition session_of_sender :: "handler \<Rightarrow> session \<Rightarrow> byte list \<Rightarrow> nat \<Rightarrow> bool" where
  "session_of_sender st se d b \<longleftrightarrow> se_data se = d \<and> se_to se = b \<and> se_sender se = ar_brk (sender_heap st) \<and>
     se_sent_a se = length (sent st) \<and> get_peer (config st) (se_port_b se) = Inr (Some b) \<and>
     (\<exists>pe. peer_heap (config st) b = Some pe)"

lemma process_GET_sending:
  assumes "senders_inv st" "pool_opened m st pool" "pool_ok p_receiver (Obj pool) (sender_heap st) ids"
    and "get_sender (Obj pool) (sender_heap st) (Some b) = Inr None" "cur_num pool < max_num pool"
    and "serves m st hs f i" "pkt_data pkt = hs ! i @ junk" "session_of_sender st se (block f i) b"
  shows "\<exists>st' s. process_GET m st pkt (Some b) = Inr st' \<and> sending st' se 0 \<and>
    new_senders st' = new_senders st @ [se_sender se] \<and> sent st' = sent st \<and> log_file st' = log_file st \<and>
    get_sender (sender_pool st') (sender_heap st') (Some b) = Inr (Some (se_sender se)) \<and>
    ar_heap (sender_heap st') (se_sender se) = Some s \<and> last_sent s = 0 \<and> last_acked s = 0 \<and> last_available s = 1"
proof -
  note se = assms(8) [unfolded session_of_sender_def]
  obtain mem pool' ar' s where g: "process_GET m st pkt (Some b) = Inr (st\<lparr>chunk_heap := mem, sender_pool := Obj pool', sender_heap := ar',
       new_senders := new_senders st @ [ar_brk (sender_heap st)]\<rparr>)"
      "alone p_receiver (Obj pool') ar' b (ar_brk (sender_heap st)) (ids @ [ar_brk (sender_heap st)])"
      "get_sender (Obj pool') ar' (Some b) = Inr (Some (ar_brk (sender_heap st)))"
      "ar_heap ar' (ar_brk (sender_heap st)) = Some s" "p_receiver s = Some b" "pkts s = map (data_packet (block f i)) [0..<CHUNK_PKTS]"
      "last_sent s = 0" "last_acked s = 0" "last_available s = 1" "timer_id (timer s) = 0"
    using process_GET_step [OF assms(2-7)] by blast
  let ?st = "st\<lparr>chunk_heap := mem, sender_pool := Obj pool', sender_heap := ar',
       new_senders := new_senders st @ [ar_brk (sender_heap st)]\<rparr>"
  have "ar_brk (sender_heap st) \<notin> live (sender_heap st)"
    using assms(3) by (auto simp: pool_ok_def arena_ok_def live_def)
  then have "(ar_brk (sender_heap st), t) \<notin> set (timers st)" for t
    using assms(1) by (force simp: senders_inv_def)
  moreover have "senders_inv ?st" by (rule process_GET_inv [OF assms(1) g(1)])
  moreover have "only (length (sent st)) (sent st) W" for W by (simp add: only_def)
  ultimately have "sending ?st se 0"
    using g(2,4-10) se unfolding sending_def sender_at_def by auto
  with g se show ?thesis by (intro exI [of _ ?st] exI [of _ s]) simp
qed

lemma sender_enter_sending:
  assumes "sending A se n" "se_sender se \<in> set (new_senders A)" "ar_heap (sender_heap A) (se_sender se) = Some s"
  shows "\<exists>A' s' lines. sender_enter A (se_sender se) = Inr A' \<and> sending A' se n \<and> log_file A' = Obj lines \<and>
    get_sender (sender_pool A') (sender_heap A') x = get_sender (sender_pool A) (sender_heap A) x \<and>
    ar_heap (sender_heap A') (se_sender se) = Some s' \<and> last_sent s' = last_sent s \<and> last_acked s' = last_acked s \<and>
    last_available s' = last_available s"
proof -
  let ?a = "se_sender se" and ?s' = "start_timer (s\<lparr>timer := init_timer (timer s) (last_acked s)\<rparr>)"
  let ?A0 = "if log_file A = Null then A\<lparr>log_file := Obj []\<rparr> else A"
  let ?A' = "(run_timer ?A0 ?a s)\<lparr>new_senders := remove1 ?a (new_senders A), sender_threads := sender_threads A @ [?a]\<rparr>"
  have ent: "sender_enter A ?a = Inr ?A'" using assms(3) by (simp add: sender_enter_def)
  have inv: "senders_inv A" using assms(1) by (simp add: sending_def)
  have inv': "senders_inv ?A'" by (rule sender_enter_inv [OF inv assms(2) ent])
  have at: "sender_at A se n s" using assms(1,3) by (auto simp: sending_def sender_at_def)
  have form: "sender_heap ?A' = (sender_heap A)\<lparr>ar_heap := (ar_heap (sender_heap A))(?a \<mapsto> ?s')\<rparr>"
    "sender_pool ?A' = sender_pool A" "config ?A' = config A" "sent ?A' = sent A" "timers ?A' = timers A @ [(?a, None)]"
    by (auto simp: run_timer_def set_sender_def)
  have same: "same_connection s ?s'" "last_acked ?s' = last_acked s" "timer_id (timer ?s') = last_acked s"
    "last_sent ?s' = last_sent s" "last_available ?s' = last_available s"
    by (simp_all add: same_connection_def start_timer_def init_timer_def)
  have "sending ?A' se n"
    by (rule sending_set [OF assms(1) at same(1) _ _ inv' form(1-3)])
      (use at same form assms(1) in \<open>auto simp: sender_at_def sending_def\<close>)
  moreover obtain ids where "alone p_receiver (sender_pool A) (sender_heap A) (se_to se) ?a ids"
    using assms(1) by (auto simp: sending_def)
  then have "get_sender (sender_pool ?A') (sender_heap ?A') x = get_sender (sender_pool A) (sender_heap A) x"
    unfolding form(1,2)
    by (intro senders.get_update [OF _ assms(3)]) (use same(1) in \<open>auto simp: alone_def same_connection_def\<close>)
  moreover have "log_file A \<noteq> Freed" using inv by (simp add: senders_inv_def)
  then obtain lines where "log_file ?A' = Obj lines"
    by (cases "log_file A") (auto simp: run_timer_def set_sender_def)
  moreover have "ar_heap (sender_heap ?A') ?a = Some ?s'" unfolding form(1) by simp
  ultimately show ?thesis using ent same(2,4,5)
    by (intro exI [of _ ?A'] exI [of _ ?s'] exI [of _ lines] conjI)
qed

section \<open>The request\<close>

definition get_packet :: "byte list \<Rightarrow> packet" where
  "get_packet h = \<lparr>header = sized_header GET 0 20, pkt_data = h\<rparr>"

lemma wire_get: "length h = 20 \<Longrightarrow> wire_image (get_packet h) = Inr (wire (get_packet h))"
  using wire_image_sized [of 20 h GET 0] by (simp add: wire_def get_packet_def)

lemma hex2binary_loop_odd:
  "even i \<Longrightarrow> odd len \<Longrightarrow> hex2binary_loop i hex len buf = hex2binary_loop i hex (Suc len) buf"
proof (induction i hex len buf rule: hex2binary_loop.induct)
  case (1 i hex len buf)
  have le: "i < len \<longleftrightarrow> i < Suc len" using 1(2,3) by (metis less_Suc_eq)
  show ?case
    by (subst (1 2) hex2binary_loop.simps) (use 1 le in \<open>auto simp: rbind_def bget_def bset_def split: sum.splits\<close>)
qed

lemma get_request_spec:
  assumes "chunk_ok c" "length h = 20" "key c = hex_string h"
  shows "get_request m c = (if heap_slack m < 108 then Inl Out_Of_Bounds else Inr (get_packet h))"
proof -
  let ?hex = "chunk_sha1 c @ [0]" and ?buf = "map (heap_byte m) [0..<SHA1_HASH_SIZE + heap_slack m]"
  have len: "length (chunk_sha1 c) = 255" using assms(1) by (simp add: chunk_ok_def)
  show ?thesis
  proof (cases "heap_slack m < 108")
    case True
    then have "hex2binary ?hex 255 ?buf = Inl Out_Of_Bounds"
      by (intro hex2binary_overflow) (simp add: SHA1_HASH_SIZE_def)
    with True len show ?thesis by (simp add: get_request_def)
  next
    case False
    have "hex2binary ?hex 255 ?buf = hex2binary ?hex (2 * 128) ?buf"
      using hex2binary_loop_odd [of 0 255 ?hex ?buf] by (simp add: hex2binary_def)
    also have "\<dots> = Inr (unhex (take (2 * 128) ?hex) @ drop 128 ?buf)"
      using False len by (intro hex2binary_spec) (simp_all add: SHA1_HASH_SIZE_def)
    also have "take (2 * 128) ?hex = take 40 (chunk_sha1 c) @ drop 40 ?hex" using len by simp
    also have "take 40 (chunk_sha1 c) = hex_string h" using assms(3) by (simp add: key_def SHA1_HASH_SIZE_def)
    finally obtain junk where "hex2binary ?hex 255 ?buf = Inr (h @ junk)"
      by (auto simp: unhex_append unhex_hex_string length_hex_string)
    with False len assms(2) make_PKT_Inr [of "of_nat SHA1_HASH_SIZE" "h @ junk" GET 0] show ?thesis
      by (simp add: get_request_def make_GET_def get_packet_def SHA1_HASH_SIZE_def)
  qed
qed

section \<open>The receiving side\<close>

context worker_pool
begin

lemma get_total:
  assumes "pool_ok peer_of pool ar ids"
  obtains r where "get pool ar x = Inr r"
proof -
  obtain p where p: "pool = Obj p" "pool_rep p ids" "arena_ok ar ids" using assms by (auto simp: pool_ok_def)
  show thesis
  proof (cases x)
    case None
    then show thesis using that get_nothing by blast
  next
    case (Some y)
    then show thesis using that get_find [OF p(2,3)] p(1) by blast
  qed
qed

end

lemma holder_loop_spec:
  assumes "pool_ok p_sender pool ar ids"
  shows "holder_loop pool ar p hs = Inr (case List.find (\<lambda>h. get_receiver pool ar h = Inr None) hs of
    Some h \<Rightarrow> h | None \<Rightarrow> last (p # hs))"
proof (induction hs arbitrary: p)
  case (Cons h hs)
  obtain r where "get_receiver pool ar h = Inr r" using receivers.get_total [OF assms] .
  with Cons show ?case by (cases r) (auto split: option.split)
qed simp

lemma update_state_keeps:
  assumes "mem_ok mem" "repr q xs" "valid mem xs" "ch_heap mem a = Some c"
  shows "\<exists>mem'. update_state mem q (Some a) s = Inr mem' \<and> mem_ok mem' \<and> (\<forall>as. valid mem as \<longrightarrow> valid mem' as) \<and>
    (\<forall>b. key_at mem' b = key_at mem b \<and> chunk_data (chunk_at mem' b) = chunk_data (chunk_at mem b) \<and>
       holders (chunk_at mem' b) = holders (chunk_at mem b))"
proof (cases "List.find (\<lambda>b. key_at mem b = key_at mem a) xs")
  case None
  with update_state_spec [OF assms, of s] assms(1) show ?thesis by simp
next
  case (Some b)
  let ?c = "(chunk_at mem b)\<lparr>c_state := max (c_state (chunk_at mem b)) s\<rparr>"
  let ?mem = "mem\<lparr>ch_heap := (ch_heap mem)(b \<mapsto> ?c)\<rparr>"
  have b: "ch_heap mem b = Some (chunk_at mem b)" using validD [OF assms(3)] find_SomeD [OF Some] by simp
  have "chunk_ok ?c" using mem_okD [OF assms(1) b] by (simp add: chunk_ok_def)
  note ok = mem_ok_set [OF assms(1) b this]
  have "chunk_at ?mem d = (if d = b then ?c else chunk_at mem d)" for d by (rule chunk_at_upd)
  moreover have "\<forall>as. valid mem as \<longrightarrow> valid ?mem as" by (auto simp: valid_def)
  ultimately show ?thesis
    using ok Some update_state_spec [OF assms, of s] by (intro exI [of _ ?mem]) (simp add: key_at_def key_def)
qed

lemma look_at_step:
  assumes "mem_ok (chunk_heap st)" "repr (down_chunks st) xs" "repr (done_chunks st) ds" "valid (chunk_heap st) xs"
    and "receiver_pool st = Obj pool" "pool_ok p_sender (Obj pool) (receiver_heap st) ids" "cur_num pool < max_num pool"
    and "filter (\<lambda>a. \<not> finished (chunk_heap st) a) xs = a # rest" "best = rarest (holder_count (chunk_heap st)) a rest"
    and "List.find (\<lambda>h. get_receiver (Obj pool) (receiver_heap st) h = Inr None) (holders_of (chunk_at (chunk_heap st) best)) = Some (Some b)"
    and "peer_heap (config st) b = Some pe" "key_at (chunk_heap st) best = hex_string h" "length h = 20"
  shows "if heap_slack m < 108 then look_at m st = Inl Out_Of_Bounds
    else \<exists>q dn mem pool' ar. look_at m st = Inr (st\<lparr>down_chunks := q, done_chunks := dn, receiver_pool := Obj pool',
        receiver_heap := ar, chunk_heap := mem, sent := sent st @ [(sin_addr pe, sin_port pe, wire (get_packet h))]\<rparr>) \<and>
      repr q (a # rest) \<and> repr dn (ds @ filter (finished (chunk_heap st)) xs) \<and>
      update_state (chunk_heap st) q (Some best) DOWNLOADING = Inr mem \<and>
      alone p_sender (Obj pool') ar b (ar_brk (receiver_heap st)) (ids @ [ar_brk (receiver_heap st)]) \<and>
      get_receiver (Obj pool') ar (Some b) = Inr (Some (ar_brk (receiver_heap st))) \<and>
      ar_heap ar (ar_brk (receiver_heap st)) =
        Some \<lparr>last_read = 0, last_rcvd = 0, next_expected = 1, r_chunk = Some best, p_sender = Some b\<rparr>"
proof -
  let ?mem = "chunk_heap st"
  obtain q dn where q: "scan_chunk_done ?mem (down_chunks st) (done_chunks st) = Inr (q, dn)" "repr q (a # rest)"
      "repr dn (ds @ filter (finished ?mem) xs)"
    using scan_chunk_done_spec [OF assms(2,3,4)] by (auto simp: assms(8) elim!: ok_pairE)
  have left: "set (a # rest) \<subseteq> set xs" using assms(8) by (metis filter_is_subset)
  then have v: "valid ?mem (a # rest)" using assms(4) unfolding valid_def by blast
  have choice: "choose_chunk_to_download ?mem q = Inr (Some best)"
    using choose_chunk_spec [OF assms(1) q(2) v] assms(9) by simp
  have "best \<in> set (a # rest)" using rarest_in [of "holder_count ?mem" a rest] assms(9) by simp
  from validD [OF v this] have best: "ch_heap ?mem best = Some (chunk_at ?mem best)" .
  have hs: "q_items (holders (chunk_at ?mem best)) = Inr (holders_of (chunk_at ?mem best))"
    using chunk_ok_holders [OF conjunct2 [OF mem_okD [OF assms(1) best]]] cq.rep_items by blast
  have free: "get_receiver (Obj pool) (receiver_heap st) (Some b) = Inr None" using find_SomeD [OF assms(10)] by simp
  have loop: "holder_loop (Obj pool) (receiver_heap st) None (holders_of (chunk_at ?mem best)) = Inr (Some b)"
    using holder_loop_spec [OF assms(6), of None] assms(10) by simp
  obtain pool' ar where rc: "add_receiver pool (receiver_heap st) (Some b) (Some best) = Inr (Some (ar_brk (receiver_heap st)), pool', ar)"
      "alone p_sender (Obj pool') ar b (ar_brk (receiver_heap st)) (ids @ [ar_brk (receiver_heap st)])"
      "get_receiver (Obj pool') ar (Some b) = Inr (Some (ar_brk (receiver_heap st)))"
      "ar_heap ar (ar_brk (receiver_heap st)) =
        Some \<lparr>last_read = 0, last_rcvd = 0, next_expected = 1, r_chunk = Some best, p_sender = Some b\<rparr>"
    using add_receiver_conn [OF assms(6) free assms(7), of "Some best"] by (auto elim!: ok_pairE)
  obtain mem where mem: "update_state ?mem q (Some best) DOWNLOADING = Inr mem" "mem_ok mem"
      "\<forall>as. valid ?mem as \<longrightarrow> valid mem as" "\<forall>b. key_at mem b = key_at ?mem b"
    using update_state_keeps [OF assms(1) q(2) v best, of DOWNLOADING] by blast
  have "valid ?mem [best]" using best by (simp add: valid_def)
  then have c: "ch_heap mem best = Some (chunk_at mem best)" using mem(3) validD by (metis list.set_intros(1))
  have "key (chunk_at mem best) = hex_string h" using mem(4) assms(12) by (simp add: key_at_def)
  note req = get_request_spec [OF conjunct2 [OF mem_okD [OF mem(2) c]] assms(13) this, of m]
  have emp: "is_empty q = Inr False" using cq.rep_emp [OF q(2)] by simp
  note common = q(1) assms(5,7) choice best hs loop free rc(1) mem(1) c req emp
  show ?thesis
  proof (cases "heap_slack m < 108")
    case True
    with common show ?thesis by (simp add: look_at_def request_chunk_def)
  next
    case False
    have "look_at m st = Inr (st\<lparr>down_chunks := q, done_chunks := dn, receiver_pool := Obj pool',
        receiver_heap := ar, chunk_heap := mem, sent := sent st @ [(sin_addr pe, sin_port pe, wire (get_packet h))]\<rparr>)"
      using False common assms(11) wire_get [OF assms(13)] by (simp add: look_at_def request_chunk_def send_PKT_def)
    then show ?thesis unfolding if_not_P [OF False] using q(2,3) mem(1) rc(2-4)
      by (intro exI [of _ q] exI [of _ dn] exI [of _ mem] exI [of _ pool'] exI [of _ ar] conjI)
  qed
qed

text \<open>
  \<open>wants st best b h\<close>: a round of the receiver thread asks for the chunk \<open>best\<close> with the hash \<open>h\<close>, the
  rarest one left, and asks the peer \<open>b\<close>, the first of its holders without a connection.
\<close>

definition wants :: "handler \<Rightarrow> nat \<Rightarrow> nat \<Rightarrow> byte list \<Rightarrow> bool" where
  "wants st best b h \<longleftrightarrow> (\<exists>xs ds pool ids a rest. mem_ok (chunk_heap st) \<and> repr (down_chunks st) xs \<and>
     repr (done_chunks st) ds \<and> valid (chunk_heap st) xs \<and> receiver_pool st = Obj pool \<and>
     pool_ok p_sender (Obj pool) (receiver_heap st) ids \<and> cur_num pool < max_num pool \<and>
     filter (\<lambda>a. \<not> finished (chunk_heap st) a) xs = a # rest \<and> best = rarest (holder_count (chunk_heap st)) a rest \<and>
     List.find (\<lambda>h. get_receiver (Obj pool) (receiver_heap st) h = Inr None) (holders_of (chunk_at (chunk_heap st) best)) =
       Some (Some b)) \<and> key_at (chunk_heap st) best = hex_string h \<and> length h = 20"

definition session_of_receiver :: "handler \<Rightarrow> session \<Rightarrow> byte list \<Rightarrow> nat \<Rightarrow> nat \<Rightarrow> bool" where
  "session_of_receiver st se d best b \<longleftrightarrow> se_data se = d \<and> se_from se = b \<and> se_chunk se = best \<and>
     se_receiver se = ar_brk (receiver_heap st) \<and> se_sent_b se = Suc (length (sent st)) \<and>
     get_peer (config st) (se_port_a se) = Inr (Some b)"

lemma look_at_receiving:
  assumes "wants st best b h" "session_of_receiver st se d best b" "peer_heap (config st) b = Some pe" "108 \<le> heap_slack m"
  shows "\<exists>st' xs. look_at m st = Inr st' \<and> receiver_side st' se 0 \<and> 
    sent st' = sent st @ [(sin_addr pe, sin_port pe, wire (get_packet h))] \<and>
    get_receiver (receiver_pool st') (receiver_heap st') (Some b) = Inr (Some (se_receiver se)) \<and>
    mem_ok (chunk_heap st') \<and> key_at (chunk_heap st') best = hex_string h \<and>
    repr (down_chunks st') xs \<and> valid (chunk_heap st') xs \<and> best \<in> set xs"
proof -
  note se = assms(2) [unfolded session_of_receiver_def]
  obtain xs ds pool ids a rest where w: "mem_ok (chunk_heap st)" "repr (down_chunks st) xs"
      "repr (done_chunks st) ds" "valid (chunk_heap st) xs" "receiver_pool st = Obj pool"
      "pool_ok p_sender (Obj pool) (receiver_heap st) ids" "cur_num pool < max_num pool"
      "filter (\<lambda>a. \<not> finished (chunk_heap st) a) xs = a # rest" "best = rarest (holder_count (chunk_heap st)) a rest"
      "List.find (\<lambda>h. get_receiver (Obj pool) (receiver_heap st) h = Inr None) (holders_of (chunk_at (chunk_heap st) best)) =
       Some (Some b)" and h: "key_at (chunk_heap st) best = hex_string h" "length h = 20"
    using assms(1) unfolding wants_def by blast
  obtain q dn mem pool' ar where g: "look_at m st = Inr (st\<lparr>down_chunks := q, done_chunks := dn, receiver_pool := Obj pool',
        receiver_heap := ar, chunk_heap := mem, sent := sent st @ [(sin_addr pe, sin_port pe, wire (get_packet h))]\<rparr>)"
      "repr q (a # rest)" "update_state (chunk_heap st) q (Some best) DOWNLOADING = Inr mem"
      "alone p_sender (Obj pool') ar b (ar_brk (receiver_heap st)) (ids @ [ar_brk (receiver_heap st)])"
      "get_receiver (Obj pool') ar (Some b) = Inr (Some (ar_brk (receiver_heap st)))"
      "ar_heap ar (ar_brk (receiver_heap st)) =
        Some \<lparr>last_read = 0, last_rcvd = 0, next_expected = 1, r_chunk = Some best, p_sender = Some b\<rparr>"
    using look_at_step [OF w assms(3) h, of m] assms(4) unfolding if_not_P [OF leD [OF assms(4)]] by blast
  have "set (a # rest) \<subseteq> set xs" using w(8) by (metis filter_is_subset)
  then have v: "valid (chunk_heap st) (a # rest)" using w(4) unfolding valid_def by blast
  have best: "best \<in> set (a # rest)" using rarest_in [of "holder_count (chunk_heap st)" a rest] w(9) by simp
  have mem: "mem_ok mem" "\<forall>as. valid (chunk_heap st) as \<longrightarrow> valid mem as" "\<forall>b. key_at mem b = key_at (chunk_heap st) b"
    using update_state_keeps [OF w(1) g(2) v validD [OF v best], of DOWNLOADING] g(3) by auto
  then have "valid mem (a # rest)" using v by blast
  note c = validD [OF this best]
  have "got d 0 (chunk_data (chunk_at mem best))"
    using mem_okD [OF mem(1) c] by (intro got_0) (simp add: chunk_ok_def)
  then have "receiver_side (st\<lparr>down_chunks := q, done_chunks := dn, receiver_pool := Obj pool',
        receiver_heap := ar, chunk_heap := mem, sent := sent st @ [(sin_addr pe, sin_port pe, wire (get_packet h))]\<rparr>) se 0"
    using g(4,6) c se assms(3) unfolding receiver_side_def receiving_def by (auto simp: only_def CHUNK_PKTS_def)
  with g(1,2,5) mem(1,3) \<open>valid mem (a # rest)\<close> best h(1) se show ?thesis
    by (intro exI [of _ "st\<lparr>down_chunks := q, done_chunks := dn, receiver_pool := Obj pool',
        receiver_heap := ar, chunk_heap := mem, sent := sent st @ [(sin_addr pe, sin_port pe, wire (get_packet h))]\<rparr>"]
        exI [of _ "a # rest"]) simp
qed

section \<open>The request arrives\<close>

lemma get_acceptable: "acceptable (header (arrived (get_packet h) junk))"
  by (simp add: acceptable_code [of _ GET] arrived_def get_packet_def sized_header_def INIT_ACK_def INIT_SEQ_def del: pkt_code.simps)

lemma process_PKT_get:
  assumes "packet_of_mem (wire (get_packet h) @ junk) = Inr q" "length h = 20" "get_peer (config st) port = Inr peer"
  shows "process_PKT m st q port = process_GET m st (arrived (get_packet h) junk) peer"
proof -
  have "convert q HOST = arrived (get_packet h) junk"
    using wire_arrives [OF assms(1), of GET 0 h] assms(2) by (simp add: get_packet_def)
  then show ?thesis
    using get_acceptable assms(3) pkt_parse_type_code [of GET]
    by (simp add: process_PKT_def not_correct_spec del: pkt_code.simps)
      (simp add: arrived_def get_packet_def sized_header_def del: pkt_code.simps)
qed

lemma get_readable: "length h = 20 \<Longrightarrow> \<exists>q. packet_of_mem (wire (get_packet h) @ junk) = Inr q"
  using packet_of_wire [of 20 h GET 0 "wire (get_packet h)" junk] wire_get [of h]
  by (auto simp: get_packet_def rbind_Inr_iff)

section \<open>From the request to the checked chunk\<close>

lemma download_run:
  assumes "wants B best (se_from se) (hs ! i)" "session_of_receiver B se (block f i) best (se_from se)"
    and "peer_heap (config B) (se_from se) = Some pe" "108 \<le> heap_slack m" "21 \<le> frame_slack m"
    and "senders_inv A" "pool_opened m A pool" "pool_ok p_receiver (Obj pool) (sender_heap A) ids"
    and "get_sender (Obj pool) (sender_heap A) (Some (se_to se)) = Inr None" "cur_num pool < max_num pool"
    and "serves m A hs f i" "session_of_sender A se (block f i) (se_to se)" "sha1_spec (block f i) = hs ! i"
  shows "\<exists>B1 q A1 A2 A' B' c b xs. look_at m B = Inr B1 \<and>
    sent B1 = sent B @ [(sin_addr pe, sin_port pe, wire (get_packet (hs ! i)))] \<and>
    packet_of_mem (wire (get_packet (hs ! i)) @ junk) = Inr q \<and> process_PKT m A q (se_port_b se) = Inr A1 \<and>
    sender_enter A1 (se_sender se) = Inr A2 \<and> (transfer_step m se)\<^sup>*\<^sup>* (A2, B1) (A', B') \<and>
    ch_heap (chunk_heap B') (se_chunk se) = Some c \<and> chunk_data c = block f i \<and>
    repr (down_chunks B') xs \<and> b \<in> set xs \<and> finished (chunk_heap B') b \<and> key_at (chunk_heap B') b = hex_string (hs ! i)"
proof -
  have h: "length (hs ! i) = 20" using assms(1) by (simp add: wants_def)
  have data: "se_data se = block f i" and peer: "get_peer (config A) (se_port_b se) = Inr (Some (se_to se))"
    using assms(12) by (simp_all add: session_of_sender_def)
  have chunk: "se_chunk se = best" using assms(2) by (simp add: session_of_receiver_def)
  obtain B1 xs where B1: "look_at m B = Inr B1" "receiver_side B1 se 0"
      "sent B1 = sent B @ [(sin_addr pe, sin_port pe, wire (get_packet (hs ! i)))]"
      "get_receiver (receiver_pool B1) (receiver_heap B1) (Some (se_from se)) = Inr (Some (se_receiver se))"
      "mem_ok (chunk_heap B1)" "key_at (chunk_heap B1) best = hex_string (hs ! i)"
      "repr (down_chunks B1) xs" "valid (chunk_heap B1) xs" "best \<in> set xs"
    using look_at_receiving [OF assms(1-4)] by blast
  obtain q where q: "packet_of_mem (wire (get_packet (hs ! i)) @ junk) = Inr q" using get_readable [OF h] by blast
  have "pkt_data (arrived (get_packet (hs ! i)) junk) = hs ! i @ junk" by (simp add: arrived_def get_packet_def)
  from process_GET_sending [OF assms(6-11) this assms(12)] process_PKT_get [OF q h peer, of m]
  obtain A1 s where A1: "process_PKT m A q (se_port_b se) = Inr A1" "sending A1 se 0" "new_senders A1 = new_senders A @ [se_sender se]"
      "get_sender (sender_pool A1) (sender_heap A1) (Some (se_to se)) = Inr (Some (se_sender se))"
      "ar_heap (sender_heap A1) (se_sender se) = Some s" "last_sent s = 0" "last_acked s = 0" "last_available s = 1"
    by auto
  have "se_sender se \<in> set (new_senders A1)" using A1(3) by simp
  from sender_enter_sending [OF A1(2) this A1(5), of "Some (se_to se)"]
  obtain A2 s' lines where A2: "sender_enter A1 (se_sender se) = Inr A2" "sending A2 se 0" "log_file A2 = Obj lines"
      "get_sender (sender_pool A2) (sender_heap A2) (Some (se_to se)) = Inr (Some (se_sender se))"
      "ar_heap (sender_heap A2) (se_sender se) = Some s'" "last_sent s' = 0" "last_acked s' = 0" "last_available s' = 1"
    using A1(4,6-8) by auto
  have "ready A2 B1 se 0"
    unfolding ready_def data chunk using A2 B1(2,4-9) assms(13) by auto
  from lockstep_completes [OF this _ assms(5)] serves_block [OF assms(11)] data
  obtain A' B' c b ys where "(transfer_step m se)\<^sup>*\<^sup>* (A2, B1) (A', B')" "ch_heap (chunk_heap B') (se_chunk se) = Some c"
      "chunk_data c = block f i" "repr (down_chunks B') ys" "b \<in> set ys" "finished (chunk_heap B') b"
      "key_at (chunk_heap B') b = hex_string (sha1_spec (block f i))"
    by auto
  with B1(1,3) q A1(1) A2(1) show ?thesis unfolding assms(13) by blast
qed

section \<open>Properties\<close>

text \<open>
  C12. Answering a GET: if the pool (made at the first request) has room and no sender for the peer, the
  requested block of the data file becomes the 375 packets of a new sender with the window open for the
  first packet and a new sender thread; nothing is sent yet, and the new sender is the start of a transfer.
\<close>

theorem process_GET_serves:
  assumes "senders_inv st" "pool_opened m st pool" "pool_ok p_receiver (Obj pool) (sender_heap st) ids"
    and "get_sender (Obj pool) (sender_heap st) (Some b) = Inr None" "cur_num pool < max_num pool"
    and "serves m st hs f i" "pkt_data pkt = hs ! i @ junk" "session_of_sender st se (block f i) b"
  shows "ok (process_GET m st pkt (Some b)) (\<lambda>st'. \<exists>s. sending st' se 0 \<and>
    new_senders st' = new_senders st @ [se_sender se] \<and> sent st' = sent st \<and>
    get_sender (sender_pool st') (sender_heap st') (Some b) = Inr (Some (se_sender se)) \<and>
    ar_heap (sender_heap st') (se_sender se) = Some s \<and> pkts s = map (data_packet (block f i)) [0..<CHUNK_PKTS] \<and>
    last_sent s = 0 \<and> last_available s = 1)"
proof -
  obtain st' s where g: "process_GET m st pkt (Some b) = Inr st'" "sending st' se 0"
      "new_senders st' = new_senders st @ [se_sender se]" "sent st' = sent st"
      "get_sender (sender_pool st') (sender_heap st') (Some b) = Inr (Some (se_sender se))"
      "ar_heap (sender_heap st') (se_sender se) = Some s" "last_sent s = 0" "last_available s = 1"
    using process_GET_sending [OF assms] by blast
  moreover have "pkts s = map (data_packet (block f i)) [0..<CHUNK_PKTS]"
    using g(2,6) assms(8) by (auto simp: sending_def sender_at_def session_of_sender_def)
  ultimately show ?thesis by simp
qed

text \<open>
  C13. Refusing a GET: a peer whose transfer is still running gets no answer and nothing changes but the
  pool that is made at the first request; if all connections are taken the answer is DENIED.
\<close>

theorem process_GET_refuses:
  assumes "pool_opened m st pool" "get_sender (Obj pool) (sender_heap st) (Some b) = Inr r" "peer_heap (config st) b = Some pe"
    and "if r = None then max_num pool \<le> cur_num pool
         else \<exists>s. ar_heap (sender_heap st) (the r) = Some s \<and> last_sent s \<noteq> pkt_num s"
  shows "process_GET m st pkt (Some b) = Inr (st\<lparr>sender_pool := Obj pool,
    sent := sent st @ (if r = None then [(sin_addr pe, sin_port pe, wire \<lparr>header = sized_header DENIED 0 0, pkt_data = []\<rparr>)] else [])\<rparr>)"
proof (cases r)
  case None
  have "make_PKT DENIED 0 0 [] = Inr \<lparr>header = sized_header DENIED 0 0, pkt_data = []\<rparr>"
    using make_PKT_Inr [of 0 "[]" DENIED 0] by simp
  moreover have "wire_image \<lparr>header = sized_header DENIED 0 0, pkt_data = []\<rparr> =
      Inr (wire \<lparr>header = sized_header DENIED 0 0, pkt_data = []\<rparr>)"
    using wire_image_sized [of 0 "[]" DENIED 0] by (simp add: wire_def)
  ultimately show ?thesis
    using None assms pool_opened_step [OF assms(1)] by (simp add: process_GET_def send_PKT_def)
next
  case (Some a)
  then show ?thesis
    using assms pool_opened_step [OF assms(1)] by (auto simp: process_GET_def)
qed

text \<open>
  C14. Asking for a chunk: the receiver thread asks the first free holder of the rarest chunk that is
  left, with a GET for its hash, and opens a connection that expects the first packet; but the conversion
  of the hash writes 128 bytes into a block of 20, so all this needs 108 unused bytes behind the block.
\<close>

theorem look_at_asks:
  assumes "wants st best b h" "session_of_receiver st se d best b" "peer_heap (config st) b = Some pe"
  shows "if heap_slack m < 108 then look_at m st = Inl Out_Of_Bounds
    else ok (look_at m st) (\<lambda>st'. sent st' = sent st @ [(sin_addr pe, sin_port pe, wire (get_packet h))] \<and>
      receiver_side st' se 0 \<and>
      get_receiver (receiver_pool st') (receiver_heap st') (Some b) = Inr (Some (se_receiver se)))"
proof (cases "heap_slack m < 108")
  case True
  from assms(1) have "look_at m st = Inl Out_Of_Bounds"
    unfolding wants_def by (elim exE conjE) (drule look_at_step [where m = m, unfolded if_P [OF True]], (assumption | rule assms(3))+)
  with True show ?thesis by simp
next
  case False
  with look_at_receiving [OF assms, of m] show ?thesis by auto
qed

text \<open>
  C2. A chunk is downloaded: the receiver thread of one peer asks for a chunk, the request reaches the
  peer that has it, its new sender thread starts, and the two can exchange the whole chunk, which ends
  up checked and marked in the download queue of the first, if the master chunk file has the hash right.
\<close>

theorem chunk_downloaded:
  assumes "wants B best (se_from se) (hs ! i)" "session_of_receiver B se (block f i) best (se_from se)"
    and "peer_heap (config B) (se_from se) = Some pe" "108 \<le> heap_slack m" "21 \<le> frame_slack m"
    and "senders_inv A" "pool_opened m A pool" "pool_ok p_receiver (Obj pool) (sender_heap A) ids"
    and "get_sender (Obj pool) (sender_heap A) (Some (se_to se)) = Inr None" "cur_num pool < max_num pool"
    and "serves m A hs f i" "session_of_sender A se (block f i) (se_to se)" "sha1_spec (block f i) = hs ! i"
  shows "\<exists>B1 q A1 A2 A' B' c b xs. look_at m B = Inr B1 \<and>
    sent B1 = sent B @ [(sin_addr pe, sin_port pe, wire (get_packet (hs ! i)))] \<and>
    packet_of_mem (wire (get_packet (hs ! i)) @ junk) = Inr q \<and> process_PKT m A q (se_port_b se) = Inr A1 \<and>
    sender_enter A1 (se_sender se) = Inr A2 \<and> (transfer_step m se)\<^sup>*\<^sup>* (A2, B1) (A', B') \<and>
    ch_heap (chunk_heap B') (se_chunk se) = Some c \<and> chunk_data c = block f i \<and>
    repr (down_chunks B') xs \<and> b \<in> set xs \<and> finished (chunk_heap B') b \<and> key_at (chunk_heap B') b = hex_string (hs ! i)"
  using assms by (rule download_run)

section \<open>Applications\<close>

text \<open>
  Two peers with a file of one chunk: \<open>demo_owner\<close> has it and has not served anybody yet, \<open>demo_asker\<close> knows
  that the peer 7 has it.
\<close>

definition demo_machine :: machine where
  "demo_machine = \<lparr>stack_byte = (\<lambda>i. 0), heap_byte = (\<lambda>i. 0), literal_tail = replicate 254 0, frame_slack = 21, heap_slack = 108\<rparr>"

definition demo_hash :: "byte list" where
  "demo_hash = sha1_spec demo_data"

definition demo_owner :: handler where
  "demo_owner = handler_start demo_config (\<lambda>n. if n = [97] then Some demo_data else Some (master_text [97] [demo_hash])) (\<lambda>f. True)"

definition demo_wanted :: chunk_t where
  "demo_wanted = zero_chunk\<lparr>chunk_sha1 := hex_string demo_hash @ replicate 215 0, holders := queue_of [Some 7]\<rparr>"

definition demo_asker :: handler where
  "demo_asker = (handler_start demo_config Map.empty (\<lambda>f. True))
     \<lparr>receiver_pool := Obj \<lparr>max_num = 1, cur_num = 0, workers = init_queue\<rparr>,
      chunk_heap := alloc_all empty_mem [demo_wanted], down_chunks := queue_of [0], done_chunks := init_queue\<rparr>"

definition demo_start :: session where
  "demo_start = demo_session\<lparr>se_sent_b := 1\<rparr>"

lemma demo_machine_fields [simp]:
  "literal_tail demo_machine = replicate 254 0" "frame_slack demo_machine = 21" "heap_slack demo_machine = 108"
  by (simp_all add: demo_machine_def)

lemma demo_block: "block demo_data 0 = demo_data"
  by (simp add: block_def demo_data_def)

lemma length_demo_hash: "length demo_hash = 20"
  by (simp add: demo_hash_def length_sha1_spec)

lemma demo_peer: "peer_heap demo_config 7 = Some \<lparr>peer_id = 2, sin_addr = 9, sin_port = 80, peer_next = None\<rparr>"
  by (simp add: demo_config_def)

lemma demo_owner_fields:
  "config demo_owner = demo_config" "sender_pool demo_owner = Null" "sender_heap demo_owner = \<lparr>ar_heap = Map.empty, ar_brk = 0\<rparr>"
  "sent demo_owner = []" "fs demo_owner [97] = Some demo_data" "fs demo_owner [] = Some (master_text [97] [demo_hash])"
  by (simp_all add: demo_owner_def handler_start_def)

lemma demo_pool:
  "pool_rep \<lparr>max_num = 1, cur_num = 0, workers = init_queue\<rparr> []" "arena_ok \<lparr>ar_heap = Map.empty, ar_brk = 0\<rparr> []"
  using cq.rep_new by (simp_all add: pool_rep_def arena_ok_def)

lemma demo_opened: "pool_opened demo_machine demo_owner \<lparr>max_num = 1, cur_num = 0, workers = init_queue\<rparr>"
  by (simp add: pool_opened_def demo_owner_fields init_sender_pool_def workers_block_def demo_config_def)

lemma demo_owner_pool:
  "pool_ok p_receiver (Obj \<lparr>max_num = 1, cur_num = 0, workers = init_queue\<rparr>) (sender_heap demo_owner) []"
  "get_sender (Obj \<lparr>max_num = 1, cur_num = 0, workers = init_queue\<rparr>) (sender_heap demo_owner) (Some 7) = Inr None"
  using demo_pool senders.get_find [OF demo_pool, of 7] by (simp_all add: pool_ok_def demo_owner_fields)

lemma demo_serves: "serves demo_machine demo_owner [demo_hash] demo_data 0"
proof -
  have "length demo_data = BT_CHUNK_SIZE" "chunk_file demo_config = []" "file_name_ok [97]"
    by (simp_all add: demo_data_def demo_config_def bt_init_def file_name_ok_def isspace_def)
  then show ?thesis
    by (simp add: serves_def demo_owner_fields length_demo_hash) (intro exI [of _ "[97]"], simp add: demo_owner_fields)
qed

lemma demo_session_of_sender: "session_of_sender demo_owner demo_start (block demo_data 0) 7"
  by (simp add: session_of_sender_def demo_start_def demo_session_def demo_block demo_owner_fields demo_get_peer demo_peer)

theorem process_GET_serves_witness:
  "ok (process_GET demo_machine demo_owner (arrived (get_packet demo_hash) [9, 9]) (Some 7))
    (\<lambda>st. \<exists>s. ar_heap (sender_heap st) 0 = Some s \<and> pkts s = map (data_packet demo_data) [0..<CHUNK_PKTS])"
  by (rule ok_mono [OF process_GET_serves [OF _ demo_opened demo_owner_pool _ demo_serves _ demo_session_of_sender, of _ "[9, 9]"]])
    (auto simp: demo_block demo_start_def demo_session_def arrived_def get_packet_def demo_owner_def handler_start_inv)

theorem process_GET_refuses_witness:
  "process_GET demo_machine (demo_handler (demo_sender 7)) (get_packet demo_hash) (Some 7) = Inr (demo_handler (demo_sender 7))"
proof -
  let ?p = "\<lparr>max_num = 1, cur_num = 1, workers = queue_of [0]\<rparr>" and ?st = "demo_handler (demo_sender 7)"
  have st: "sender_pool ?st = Obj ?p" "ar_heap (sender_heap ?st) 0 = Some (demo_sender 7)" "config ?st = demo_config"
    by (simp_all add: demo_handler_def handler_start_def)
  have "get_sender (Obj ?p) (sender_heap ?st) (Some 7) = Inr (Some 0)"
    using demo_handler_sender [of "demo_sender 7" 7] st(1) by (simp add: demo_sender_def)
  from process_GET_refuses [OF _ this, of demo_machine] st demo_peer show ?thesis
    by (simp add: pool_opened_def demo_sender_def)
qed

lemma demo_asker_mem:
  "mem_ok (alloc_all empty_mem [demo_wanted])" "valid (alloc_all empty_mem [demo_wanted]) [0]"
  "chunk_at (alloc_all empty_mem [demo_wanted]) 0 = demo_wanted"
proof -
  have "chunk_ok demo_wanted"
    using repr_queue_of length_demo_hash by (auto simp: demo_wanted_def chunk_ok_def)
  then have ok: "\<forall>c \<in> set [demo_wanted]. chunk_ok c" by simp
  note mem = alloc_all_empty [OF ok]
  show "mem_ok (alloc_all empty_mem [demo_wanted])" by (rule mem(1))
  show "valid (alloc_all empty_mem [demo_wanted]) [0]" using mem(2) by simp
  show "chunk_at (alloc_all empty_mem [demo_wanted]) 0 = demo_wanted" using mem(4) [of 0] by simp
qed

lemma demo_wants: "wants demo_asker 0 7 demo_hash"
proof -
  let ?p = "\<lparr>max_num = 1, cur_num = 0, workers = init_queue\<rparr>" and ?mem = "alloc_all empty_mem [demo_wanted]"
  have st: "chunk_heap demo_asker = ?mem" "down_chunks demo_asker = queue_of [0]" "done_chunks demo_asker = init_queue"
    "receiver_pool demo_asker = Obj ?p" "receiver_heap demo_asker = \<lparr>ar_heap = Map.empty, ar_brk = 0\<rparr>"
    by (simp_all add: demo_asker_def handler_start_def)
  have hs: "holders_of demo_wanted = [Some 7]"
    by (rule holders_of_repr) (simp add: demo_wanted_def repr_queue_of)
  have ready: "\<not> finished ?mem 0" by (simp add: finished_def demo_asker_mem(3) del: alloc_all.simps) (simp add: demo_wanted_def zero_chunk_def)
  have key: "key_at ?mem 0 = hex_string demo_hash"
    by (simp add: key_at_def demo_asker_mem(3) del: alloc_all.simps)
      (simp add: key_def demo_wanted_def length_demo_hash SHA1_HASH_SIZE_def)
  have "get_receiver (Obj ?p) \<lparr>ar_heap = Map.empty, ar_brk = 0\<rparr> (Some 7) = Inr None"
    using receivers.get_find [OF demo_pool, of 7] by simp
  moreover have "pool_ok p_sender (Obj ?p) \<lparr>ar_heap = Map.empty, ar_brk = 0\<rparr> []"
    using demo_pool by (simp add: pool_ok_def)
  ultimately show ?thesis
    unfolding wants_def st using demo_asker_mem hs ready key repr_queue_of [of "[0 :: nat]"] cq.rep_new length_demo_hash
    by (intro conjI exI [of _ "[0]"] exI [of _ "[]"] exI [of _ ?p] exI [of _ 0])
      (simp_all add: demo_asker_mem(3) del: alloc_all.simps)
qed

lemma demo_session_of_receiver: "session_of_receiver demo_asker demo_start demo_data 0 7"
  by (simp add: session_of_receiver_def demo_start_def demo_session_def demo_asker_def handler_start_def demo_get_peer)

lemma demo_asker_peer: "peer_heap (config demo_asker) 7 = Some \<lparr>peer_id = 2, sin_addr = 9, sin_port = 80, peer_next = None\<rparr>"
  using demo_peer by (simp add: demo_asker_def handler_start_def)

theorem look_at_asks_witness:
  "look_at (demo_machine\<lparr>heap_slack := 0\<rparr>) demo_asker = Inl Out_Of_Bounds \<and>
   ok (look_at demo_machine demo_asker) (\<lambda>st. sent st = [(9, 80, wire (get_packet demo_hash))])"
  using look_at_asks [OF demo_wants demo_session_of_receiver demo_asker_peer, of demo_machine]
    look_at_asks [OF demo_wants demo_session_of_receiver demo_asker_peer, of "demo_machine\<lparr>heap_slack := 0\<rparr>"]
  by (auto simp: demo_asker_def handler_start_def elim!: ok_mono)

theorem chunk_downloaded_witness:
  "\<exists>B1 q A1 A2 A' B' c. look_at demo_machine demo_asker = Inr B1 \<and>
    packet_of_mem (wire (get_packet demo_hash)) = Inr q \<and> process_PKT demo_machine demo_owner q 80 = Inr A1 \<and>
    sender_enter A1 0 = Inr A2 \<and> (transfer_step demo_machine demo_start)\<^sup>*\<^sup>* (A2, B1) (A', B') \<and>
    ch_heap (chunk_heap B') 0 = Some c \<and> chunk_data c = demo_data"
proof -
  have se: "se_from demo_start = 7" "se_to demo_start = 7" "se_port_b demo_start = 80" "se_sender demo_start = 0" "se_chunk demo_start = 0"
    by (simp_all add: demo_start_def demo_session_def)
  have "senders_inv demo_owner" by (simp add: demo_owner_def handler_start_inv)
  then show ?thesis
    using chunk_downloaded [of demo_asker 0 demo_start "[demo_hash]" 0 demo_data _ demo_machine demo_owner, unfolded se nth_Cons_0 demo_block,
        OF demo_wants demo_session_of_receiver demo_asker_peer _ _ _ demo_opened demo_owner_pool _ demo_serves
          demo_session_of_sender [unfolded demo_block], of "[]"]
    by (auto simp: demo_hash_def) blast
qed

end
