(* ===== verification/Announcing.thy ===== *)
theory Announcing
  imports Handler_Answers
begin

text \<open>
  The start of a download: \<open>process_download\<close> lists the chunks to fetch and asks every other peer which of
  them it has.
\<close>

section \<open>One packet to every peer\<close>

definition peer_of_config :: "bt_config_t \<Rightarrow> nat \<Rightarrow> bt_peer_t" where
  "peer_of_config c a = the (peer_heap c a)"

text \<open>The datagrams that carry \<open>w\<close> to the peers \<open>ps\<close>, the peer itself left out.\<close>

definition to_others :: "bt_config_t \<Rightarrow> nat list \<Rightarrow> byte list \<Rightarrow> (u32 \<times> u16 \<times> byte list) list" where
  "to_others c ps w = map (\<lambda>a. (sin_addr (peer_of_config c a), sin_port (peer_of_config c a), w))
     (filter (\<lambda>a. peer_id (peer_of_config c a) \<noteq> identity c) ps)"

lemma send_to_peers_spec:
  "peer_path (peer_heap (config st)) p ps \<Longrightarrow> length ps \<le> fuel \<Longrightarrow> wire_image pkt = Inr w \<Longrightarrow>
   send_to_peers fuel st p pkt = Inr (st\<lparr>sent := sent st @ to_others (config st) ps w\<rparr>)"
proof (induction ps arbitrary: fuel st p)
  case Nil
  then show ?case by (simp add: to_others_def)
next
  case (Cons a ps)
  from Cons.prems(1) obtain pe where a: "p = Some a" "peer_heap (config st) a = Some pe"
      "peer_path (peer_heap (config st)) (peer_next pe) ps" by auto
  obtain k where k: "fuel = Suc k" "length ps \<le> k" using Cons.prems(2) by (cases fuel) auto
  let ?st = "if peer_id pe \<noteq> identity (config st) then st\<lparr>sent := sent st @ [(sin_addr pe, sin_port pe, w)]\<rparr> else st"
  have "send_to_peers k ?st (peer_next pe) pkt = Inr (?st\<lparr>sent := sent ?st @ to_others (config ?st) ps w\<rparr>)"
    by (rule Cons.IH [OF _ k(2) Cons.prems(3)]) (simp add: a(3))
  moreover have "(if peer_id pe \<noteq> identity (config st) then send_PKT st (Some a) (Some pkt) else Inr st) = Inr ?st"
    using send_PKT_ok [OF a(2) Cons.prems(3)] by simp
  ultimately show ?case
    using a k(1) by (simp add: to_others_def peer_of_config_def)
qed

lemma whohas_loop_spec:
  assumes "peers_ok (config st) ps"
  shows "repr q items \<Longrightarrow> length items \<le> fuel \<Longrightarrow> \<forall>p \<in> set items. wire_image p = Inr (wire p) \<Longrightarrow>
   whohas_loop fuel st q = Inr (st\<lparr>sent := sent st @ concat (map (\<lambda>p. to_others (config st) ps (wire p)) items)\<rparr>)"
  using assms
proof (induction items arbitrary: fuel st q)
  case Nil
  then show ?case using repr_dequeue_Nil [OF Nil.prems(1)] by (simp add: whohas_loop.simps)
next
  case (Cons p items)
  obtain q' where q': "dequeue q = Inr (Some p, q')" "repr q' items"
    using repr_dequeue_Cons [OF Cons.prems(1)] by (auto simp: ok_iff)
  obtain k where k: "fuel = Suc k" "length items \<le> k" using Cons.prems(2) by (cases fuel) auto
  let ?st = "st\<lparr>sent := sent st @ to_others (config st) ps (wire p)\<rparr>"
  have "send_to_peers (peer_brk (config st)) st (peers (config st)) p = Inr ?st"
    using Cons.prems(3,4) peers_ok_length [OF Cons.prems(4)] by (intro send_to_peers_spec) (simp_all add: peers_ok_def)
  moreover have "whohas_loop k ?st q' = Inr (?st\<lparr>sent := sent ?st @ concat (map (\<lambda>p. to_others (config ?st) ps (wire p)) items)\<rparr>)"
    by (rule Cons.IH [OF q'(2) k(2)]) (use Cons.prems(3,4) in simp_all)
  ultimately show ?case using q'(1) k(1) by (subst whohas_loop.simps) simp
qed

lemma batches_map: "batches n k (map f xs) = map (map f) (batches n k xs)"
  by (induction n k xs rule: batches.induct) (simp_all add: take_map drop_map)

section \<open>Starting a download\<close>

text \<open>
  The chunks of the list, allocated in its order, and the state that \<open>process_download\<close> leaves.
\<close>

definition listed_mem :: "chunk_mem \<Rightarrow> byte list list \<Rightarrow> chunk_mem" where
  "listed_mem mem hs = alloc_all mem (map (\<lambda>i. listed_chunk i (hs ! i)) [0..<length hs])"

definition listed_addrs :: "chunk_mem \<Rightarrow> byte list list \<Rightarrow> nat list" where
  "listed_addrs mem hs = [ch_brk mem..<ch_brk mem + length hs]"

lemma process_download_step:
  assumes "mem_ok (chunk_heap st)" "fs st (chunk_file (config st)) = Some (chunk_list_text 0 hs)"
    and "length hs \<le> 2 ^ 31" "\<forall>h \<in> set hs. length h = 20" "peers_ok (config st) ps"
    and "0 \<le> max_conn (config st)" "24 \<le> max_conn (config st) * 32 + int (heap_slack m)"
  shows "\<exists>q. process_download m st = Inr (st\<lparr>receiver_pool := Obj \<lparr>max_num = max_conn (config st), cur_num = 0, workers = init_queue\<rparr>,
      down_chunks := q, done_chunks := init_queue, chunk_heap := listed_mem (chunk_heap st) hs,
      sent := sent st @ concat (map (\<lambda>bs. to_others (config st) ps (wire (hash_packet WHOHAS bs)))
        (batches (length hs) (batch_count (length hs)) hs)), receiver_threads := receiver_threads st + 1\<rparr>) \<and>
    repr q (listed_addrs (chunk_heap st) hs)"
proof -
  let ?mem = "alloc_all (chunk_heap st) (map (\<lambda>i. listed_chunk i (hs ! i)) [0..<length hs])"
  let ?own = "[ch_brk (chunk_heap st)..<ch_brk (chunk_heap st) + length hs]"
  let ?bb = "batches (length hs) (batch_count (length hs)) hs"
  have hs: "\<And>h. h \<in> set hs \<Longrightarrow> length h = 20" using assms(4) by blast
  note listed = listed_chunks(1-3) [of "chunk_heap st" hs, OF assms(1) hs]
  obtain q where q: "list_chunks (fs st) (chunk_heap st) (chunk_file (config st)) = Inr (q, ?mem)" "repr q ?own"
    using list_chunks_text [OF assms(1), of hs "fs st"] hs assms(2,3) by (auto elim!: ok_pairE)
  have "map unhex (map (key_at ?mem) ?own) = map unhex (map hex_string hs)" by (rule arg_cong [OF listed(3)])
  then have bins: "map (bin_hash ?mem) ?own = hs" by (simp add: bin_hash_def [abs_def] comp_def unhex_hex_string)
  obtain p where p: "chunks2pkts ?mem q WHOHAS = Inr p" "repr p (map (hash_packet WHOHAS) ?bb)"
    using chunks2pkts_spec [OF listed(1) q(2) listed(2), of WHOHAS] batches_map [of "length hs" _ "bin_hash ?mem" ?own]
    by (auto simp: ok_iff bins comp_def)
  have "wire_image x = Inr (wire x)" if "x \<in> set (map (hash_packet WHOHAS) ?bb)" for x
  proof -
    from that obtain b where b: "b \<in> set ?bb" "x = hash_packet WHOHAS b" by auto
    have "set b \<subseteq> set hs" using set_concat_batches [where xs = hs and n = "length hs" and k = "batch_count (length hs)"] b(1) by auto
    with b length_batches [OF b(1)] hs show ?thesis by (auto intro!: wire_hash_packet)
  qed
  then have w: "\<forall>x \<in> set (map (hash_packet WHOHAS) ?bb). wire_image x = Inr (wire x)" by blast
  have size: "queue_size p = length (map (hash_packet WHOHAS) ?bb)"
    using repr_length [OF p(2)] by (auto simp: queue_size_def)
  let ?pool = "\<lparr>max_num = max_conn (config st), cur_num = 0, workers = init_queue\<rparr>"
  have pool: "init_receiver_pool m (max_conn (config st)) = Inr ?pool"
    using assms(6,7) by (simp add: init_receiver_pool_def workers_block_def)
  let ?st1 = "st\<lparr>receiver_pool := Obj ?pool, down_chunks := q, done_chunks := init_queue, chunk_heap := ?mem\<rparr>"
  have "whohas_loop (queue_size p) ?st1 p = Inr (?st1\<lparr>sent := sent ?st1 @
      concat (map (\<lambda>p. to_others (config ?st1) ps (wire p)) (map (hash_packet WHOHAS) ?bb))\<rparr>)"
    by (rule whohas_loop_spec [OF _ p(2) _ w]) (use assms(5) size in simp_all)
  with pool q(1) p(1) have "process_download m st = Inr (?st1\<lparr>sent := sent st @
      concat (map (\<lambda>bs. to_others (config st) ps (wire (hash_packet WHOHAS bs))) ?bb), receiver_threads := receiver_threads st + 1\<rparr>)"
    by (simp add: process_download_def comp_def)
  then show ?thesis using q(2) by (intro exI [of _ q]) (simp add: listed_mem_def listed_addrs_def)
qed

section \<open>Properties\<close>

text \<open>
  C15. Starting a download: all chunks of the list are queued, and every peer of the configuration but
  the peer itself is sent, in the order of the peer list, each of the packets \<open>bbs\<close>. Put together, and in
  packets of at most 74 hashes, these ask for all chunks of the list if their number is not a multiple of 74;
  if it is, no peer is asked for the last 74 of them, which stay in the queue. The queue of finished chunks is
  empty and the receiver thread is started.
\<close>

theorem process_download_announces:
  assumes "mem_ok (chunk_heap st)" "fs st (chunk_file (config st)) = Some (chunk_list_text 0 hs)"
    and "length hs \<le> 2 ^ 31" "\<forall>h \<in> set hs. length h = 20" "peers_ok (config st) ps"
    and "0 \<le> max_conn (config st)" "24 \<le> max_conn (config st) * 32 + int (heap_slack m)"
    and "bbs = batches (length hs) (batch_count (length hs)) hs"
  shows "concat bbs = (if length hs mod SHA_MAX_NUM = 0 then take (length hs - SHA_MAX_NUM) hs else hs) \<and>
    (\<forall>bs \<in> set bbs. length bs \<le> SHA_MAX_NUM) \<and>
    ok (process_download m st) (\<lambda>st'.
    sent st' = sent st @ concat (map (\<lambda>bs. to_others (config st) ps (wire (hash_packet WHOHAS bs))) bbs) \<and>
    (\<exists>as. repr (down_chunks st') as \<and> valid (chunk_heap st') as \<and> map (key_at (chunk_heap st')) as = map hex_string hs) \<and>
    repr (done_chunks st') [] \<and> receiver_threads st' = receiver_threads st + 1)"
proof -
  have hs: "\<And>h. h \<in> set hs \<Longrightarrow> length h = 20" using assms(4) by blast
  note listed = listed_chunks(2,3) [of "chunk_heap st" hs, OF assms(1) hs, folded listed_mem_def listed_addrs_def]
  obtain q where "process_download m st = Inr (st\<lparr>receiver_pool := Obj \<lparr>max_num = max_conn (config st), cur_num = 0, workers = init_queue\<rparr>,
      down_chunks := q, done_chunks := init_queue, chunk_heap := listed_mem (chunk_heap st) hs,
      sent := sent st @ concat (map (\<lambda>bs. to_others (config st) ps (wire (hash_packet WHOHAS bs)))
        (batches (length hs) (batch_count (length hs)) hs)), receiver_threads := receiver_threads st + 1\<rparr>)"
    "repr q (listed_addrs (chunk_heap st) hs)"
    using process_download_step [OF assms(1-7)] by blast
  moreover have "concat bbs = (if length hs mod SHA_MAX_NUM = 0 then take (length hs - SHA_MAX_NUM) hs else hs)"
    unfolding assms(8) by (rule concat_announced)
  moreover have "\<forall>bs \<in> set bbs. length bs \<le> SHA_MAX_NUM" using length_batches unfolding assms(8) by blast
  ultimately show ?thesis using listed cq.rep_new unfolding assms(8) by (auto simp del: concat_eq_Nil_conv)
qed

definition demo_downloader :: "nat \<Rightarrow> handler" where
  "demo_downloader n = handler_start demo_config (\<lambda>f. Some (chunk_list_text 0 (replicate n (replicate 20 5)))) (\<lambda>f. True)"

text \<open>One chunk is asked for; of 74 chunks, none is.\<close>

theorem process_download_announces_witness:
  "ok (process_download \<lparr>stack_byte = (\<lambda>i. 0), heap_byte = (\<lambda>i. 0), literal_tail = [], frame_slack = 0, heap_slack = 0\<rparr> (demo_downloader 1))
    (\<lambda>st. sent st = [(9, 80, wire (hash_packet WHOHAS [replicate 20 5]))]) \<and>
   ok (process_download \<lparr>stack_byte = (\<lambda>i. 0), heap_byte = (\<lambda>i. 0), literal_tail = [], frame_slack = 0, heap_slack = 0\<rparr> (demo_downloader 74))
    (\<lambda>st. sent st = [(9, 80, wire (hash_packet WHOHAS []))])"
proof -
  let ?m = "\<lparr>stack_byte = (\<lambda>i. 0), heap_byte = (\<lambda>i. 0), literal_tail = [], frame_slack = 0, heap_slack = 0\<rparr> :: machine"
  have "peers_ok demo_config [7]" by (simp add: peers_ok_def demo_config_def)
  moreover have "0 \<le> max_conn demo_config" "24 \<le> max_conn demo_config * 32 + int (heap_slack ?m)" by (simp_all add: demo_config_def bt_init_def)
  moreover have others: "to_others demo_config [7] w = [(9, 80, w)]" for w
    by (simp add: to_others_def peer_of_config_def demo_config_def bt_init_def)
  ultimately have run: "ok (process_download ?m (demo_downloader n)) (\<lambda>st. sent st = concat (map (\<lambda>bs. [(9, 80, wire (hash_packet WHOHAS bs))])
      (batches n (batch_count n) (replicate n (replicate 20 5)))))" if "n \<le> 2 ^ 31" for n
    using process_download_announces [of "demo_downloader n" "replicate n (replicate 20 5)" "[7]" ?m, OF _ _ _ _ _ _ _ refl] that
    by (auto simp: demo_downloader_def handler_start_def mem_ok_empty [unfolded empty_mem_def] elim!: ok_mono)
  have "batches 1 (batch_count 1) (replicate 1 (replicate 20 (5 :: byte))) = [[replicate 20 5]]"
    "batches 74 (batch_count 74) (replicate 74 (replicate 20 (5 :: byte))) = [[]]"
    by (simp_all add: batch_count_def SHA_MAX_NUM_74)
  with run [of 1] run [of 74] show ?thesis by simp
qed

end
