(* ===== verification/Discovery.thy ===== *)
theory Discovery
  imports Session_Start Announcing
begin

text \<open>
  Two peers find each other: the WHOHAS that \<open>process_download\<close> sends reaches a peer that has some of the
  chunks, and its IHAVE comes back, after which the first peer knows who has what. The steps of \<open>Announcing\<close>
  and \<open>Handler_Answers\<close> are composed over the packets as they lie in the datagrams.
\<close>

section \<open>Lists of hashes arrive\<close>

lemma length_hash_payload: "\<forall>b \<in> set bs. length b = 20 \<Longrightarrow> length (hash_payload bs) = 4 + 20 * length bs"
  using length_concat_const [of bs 20] by (simp add: hash_payload_def)

lemma hash_packet_arrives:
  assumes "packet_of_mem (wire (hash_packet t bs) @ junk) = Inr q" "\<forall>b \<in> set bs. length b = 20" "length bs \<le> SHA_MAX_NUM"
  shows "convert q HOST = arrived (hash_packet t bs) junk"
  using wire_arrives [OF assms(1), of t 0 "hash_payload bs"] length_hash_payload [OF assms(2)] assms(3)
  by (simp add: hash_packet_def SHA_MAX_NUM_74)

lemma hash_packet_readable:
  assumes "\<forall>b \<in> set bs. length b = 20" "length bs \<le> SHA_MAX_NUM"
  shows "\<exists>q. packet_of_mem (wire (hash_packet t bs) @ junk) = Inr q"
  using packet_of_wire [of "4 + 20 * length bs" "hash_payload bs" t 0 "wire (hash_packet t bs)" junk]
    wire_hash_packet [OF assms, of t] length_hash_payload [OF assms(1)] assms(2)
  by (auto simp: hash_packet_def SHA_MAX_NUM_74 rbind_Inr_iff)

lemma hash_packet_acceptable:
  "t \<noteq> DATA \<Longrightarrow> t \<noteq> ACK \<Longrightarrow> acceptable (header (arrived (hash_packet t bs) junk))"
  by (simp add: acceptable_code [of _ t] arrived_def hash_packet_def sized_header_def INIT_ACK_def INIT_SEQ_def del: pkt_code.simps)

lemma process_PKT_hashes:
  assumes "packet_of_mem (wire (hash_packet t bs) @ junk) = Inr q" "\<forall>b \<in> set bs. length b = 20" "length bs \<le> SHA_MAX_NUM"
    and "get_peer (config st) port = Inr peer" "t = WHOHAS \<or> t = IHAVE"
  shows "process_PKT m st q port =
    (if t = WHOHAS then process_WHOHAS else process_IHAVE) st (arrived (hash_packet t bs) junk) peer"
proof -
  have type: "packet_type (header (arrived (hash_packet t bs) junk)) = pkt_code t"
    by (simp add: arrived_def hash_packet_def sized_header_def del: pkt_code.simps)
  have "acceptable (header (arrived (hash_packet t bs) junk))"
    using assms(5) by (intro hash_packet_acceptable) auto
  then show ?thesis
    using hash_packet_arrives [OF assms(1-3)] assms(4,5) type pkt_parse_type_code [of t]
    by (auto simp: process_PKT_def not_correct_spec simp del: pkt_code.simps)
qed

section \<open>The two peers\<close>

text \<open>
  \<open>about_to_ask st ps hs\<close>: the list to download has the hashes \<open>hs\<close>, fewer than 74 and all different, the
  configuration has the peers \<open>ps\<close> and allows a connection. \<open>keeps st own\<close>: the has-chunk file lists \<open>own\<close>.
\<close>

definition about_to_ask :: "handler \<Rightarrow> nat list \<Rightarrow> byte list list \<Rightarrow> bool" where
  "about_to_ask st ps hs \<longleftrightarrow> mem_ok (chunk_heap st) \<and> fs st (chunk_file (config st)) = Some (chunk_list_text 0 hs) \<and>
     hs \<noteq> [] \<and> length hs < SHA_MAX_NUM \<and> distinct hs \<and> (\<forall>h \<in> set hs. length h = 20) \<and>
     peers_ok (config st) ps \<and> 0 < max_conn (config st) \<and> arena_ok (receiver_heap st) []"

definition keeps :: "handler \<Rightarrow> byte list list \<Rightarrow> bool" where
  "keeps st own \<longleftrightarrow> mem_ok (chunk_heap st) \<and> fs st (has_chunk_file (config st)) = Some (chunk_list_text 0 own) \<and>
     length own \<le> 2 ^ 31 \<and> (\<forall>h \<in> set own. length h = 20)"

text \<open>The peer \<open>a\<close> is known under the port \<open>port\<close>.\<close>

definition knows :: "handler \<Rightarrow> u16 \<Rightarrow> nat \<Rightarrow> bt_peer_t \<Rightarrow> bool" where
  "knows st port a pe \<longleftrightarrow> get_peer (config st) port = Inr (Some a) \<and> peer_heap (config st) a = Some pe"

text \<open>The state behind \<open>process_download\<close>.\<close>

definition asked :: "handler \<Rightarrow> nat list \<Rightarrow> byte list list \<Rightarrow> nat qptr \<Rightarrow> handler" where
  "asked st ps hs q = st\<lparr>receiver_pool := Obj \<lparr>max_num = max_conn (config st), cur_num = 0, workers = init_queue\<rparr>,
     down_chunks := q, done_chunks := init_queue, chunk_heap := listed_mem (chunk_heap st) hs,
     sent := sent st @ to_others (config st) ps (wire (hash_packet WHOHAS hs)),
     receiver_threads := receiver_threads st + 1\<rparr>"

lemma download_asks:
  assumes "about_to_ask st ps hs"
  shows "\<exists>q. process_download m st = Inr (asked st ps hs q) \<and> repr q (listed_addrs (chunk_heap st) hs)"
proof -
  have a: "mem_ok (chunk_heap st)" "fs st (chunk_file (config st)) = Some (chunk_list_text 0 hs)" "hs \<noteq> []"
      "length hs < SHA_MAX_NUM" "\<forall>h \<in> set hs. length h = 20" "peers_ok (config st) ps" "0 < max_conn (config st)"
    using assms by (simp_all add: about_to_ask_def)
  have "length hs \<le> 2 ^ 31" using a(4) by (simp add: SHA_MAX_NUM_74)
  moreover have "24 \<le> max_conn (config st) * 32 + int (heap_slack m)" using a(7) by linarith
  moreover have "batches (length hs) (batch_count (length hs)) hs = [hs]" using one_batch a(3,4) by simp
  ultimately show ?thesis
    using process_download_step [of st hs ps m] a by (simp add: asked_def)
qed

lemma listed_chunk_at:
  assumes "mem_ok mem" "\<forall>h \<in> set hs. length h = 20" "i < length hs"
  shows "chunk_at (listed_mem mem hs) (ch_brk mem + i) = listed_chunk i (hs ! i)"
proof -
  have "\<forall>c \<in> set (map (\<lambda>i. listed_chunk i (hs ! i)) [0..<length hs]). chunk_ok c"
    using chunk_ok_hash_chunk assms(2) by (auto simp: listed_chunk_def chunk_ok_def)
  from alloc_all_old [OF assms(1) this] show ?thesis
    using assms(3) by (simp add: listed_mem_def chunk_at_def)
qed

lemma listed_chunk_fresh: "holders_of (listed_chunk i h) = []" "c_state (listed_chunk i h) = READY"
proof -
  show "holders_of (listed_chunk i h) = []"
    using cq.rep_new by (intro holders_of_repr) (simp add: listed_chunk_def hash_chunk_def)
  show "c_state (listed_chunk i h) = READY"
    by (simp add: listed_chunk_def hash_chunk_def zero_chunk_def)
qed

section \<open>The answer\<close>

lemma owner_answers:
  assumes "keeps A own" "distinct hs" "\<forall>h \<in> set hs. length h = 20" "length hs < SHA_MAX_NUM" "knows A port b pb"
    and "packet_of_mem (wire (hash_packet WHOHAS hs) @ junk) = Inr q" "mine = filter (\<lambda>h. h \<in> set own) hs"
  shows "\<exists>mem. process_PKT m A q port = Inr (A\<lparr>chunk_heap := mem,
    sent := sent A @ (if mine = [] then [] else [(sin_addr pb, sin_port pb, wire (hash_packet IHAVE mine))])\<rparr>)"
proof -
  have k: "mem_ok (chunk_heap A)" "fs A (has_chunk_file (config A)) = Some (chunk_list_text 0 own)"
      "length own \<le> 2 ^ 31" "\<forall>h \<in> set own. length h = 20"
    using assms(1) by (simp_all add: keeps_def)
  have p: "get_peer (config A) port = Inr (Some b)" "peer_heap (config A) b = Some pb"
    using assms(5) by (simp_all add: knows_def)
  have mine: "length mine < SHA_MAX_NUM" "distinct mine"
    using assms(2,4,7) le_less_trans [OF length_filter_le] by auto
  have data: "pkt_data (arrived (hash_packet WHOHAS hs) junk) = hash_payload hs @ junk"
    by (simp add: arrived_def hash_packet_def)
  have "process_PKT m A q port = process_WHOHAS A (arrived (hash_packet WHOHAS hs) junk) (Some b)"
    using process_PKT_hashes [OF assms(6,3) _ p(1), of m] assms(4) by simp
  with process_WHOHAS_step [OF k assms(3) less_imp_le [OF assms(4)] data assms(7) mine(1) p(2), unfolded if_P [OF mine(2)]]
  show ?thesis by auto
qed

lemma count_list_distinct: "distinct xs \<Longrightarrow> count_list xs x = (if x \<in> set xs then 1 else 0)"
  by (induction xs) auto

lemma count_held:
  assumes "distinct hs" "\<forall>h \<in> set hs. length h = 20" "h \<in> set hs"
  shows "count_list (map hex_string (filter (\<lambda>h. h \<in> set own) hs)) (hex_string h) = (if h \<in> set own then 1 else 0)"
proof -
  have "inj_on hex_string (set hs)"
    using assms(2) by (intro inj_onI) (simp add: hex_string_inject)
  then have "distinct (map hex_string (filter (\<lambda>h. h \<in> set own) hs))"
    using assms(1) by (simp add: distinct_map inj_on_subset [of _ "set hs"])
  moreover have "hex_string h \<in> set (map hex_string (filter (\<lambda>h. h \<in> set own) hs)) \<longleftrightarrow> h \<in> set own"
    using assms(2,3) by (auto simp: hex_string_inject)
  ultimately show ?thesis by (simp only: count_list_distinct)
qed

text \<open>The asker writes down who has what.\<close>

definition noted :: "chunk_mem \<Rightarrow> nat list \<Rightarrow> byte list list \<Rightarrow> (byte list \<Rightarrow> nat option list) \<Rightarrow> bool" where
  "noted mem as hs who \<longleftrightarrow> mem_ok mem \<and> valid mem as \<and> map (key_at mem) as = map hex_string hs \<and>
     map (\<lambda>a. holders_of (chunk_at mem a)) as = map who hs \<and> (\<forall>a \<in> set as. c_state (chunk_at mem a) = READY) \<and>
     map (\<lambda>a. chunk_id (chunk_at mem a)) as = map int [0..<length hs]"

lemma asker_notes:
  assumes "about_to_ask B ps hs" "repr dq (listed_addrs (chunk_heap B) hs)" "get_peer (config B) port = Inr (Some a)"
    and "packet_of_mem (wire (hash_packet IHAVE (filter (\<lambda>h. h \<in> set own) hs)) @ junk) = Inr q"
  shows "\<exists>mem. process_PKT m (asked B ps hs dq) q port = Inr ((asked B ps hs dq)\<lparr>chunk_heap := mem\<rparr>) \<and>
    noted mem (listed_addrs (chunk_heap B) hs) hs (\<lambda>h. if h \<in> set own then [Some a] else [])"
proof -
  let ?B = "asked B ps hs dq" and ?as = "listed_addrs (chunk_heap B) hs" and ?held = "filter (\<lambda>h. h \<in> set own) hs"
  have b: "mem_ok (chunk_heap B)" "length hs < SHA_MAX_NUM" "distinct hs" "\<forall>h \<in> set hs. length h = 20"
    using assms(1) by (simp_all add: about_to_ask_def)
  have hs: "\<And>h. h \<in> set hs \<Longrightarrow> length h = 20" using b(4) by blast
  note listed = listed_chunks(1-3) [of "chunk_heap B" hs, OF b(1) hs, folded listed_mem_def listed_addrs_def]
  have mem: "chunk_heap ?B = listed_mem (chunk_heap B) hs" "down_chunks ?B = dq" "config ?B = config B"
    by (simp_all add: asked_def)
  have held: "\<forall>b \<in> set ?held. length b = 20" "length ?held \<le> SHA_MAX_NUM"
    using b(2,4) le_trans [OF length_filter_le less_imp_le] by auto
  have data: "pkt_data (arrived (hash_packet IHAVE ?held) junk) = hash_payload ?held @ junk"
    by (simp add: arrived_def hash_packet_def)
  have dist: "distinct (map (key_at (chunk_heap ?B)) ?as)"
    by (simp only: mem(1) listed(3) distinct_unhex [OF b(4)] b(3))
  have "process_PKT m ?B q port = process_IHAVE ?B (arrived (hash_packet IHAVE ?held) junk) (Some a)"
    using process_PKT_hashes [OF assms(4) held, of ?B port "Some a" m] assms(3) mem(3) by simp
  moreover obtain mem2 where m2: "process_IHAVE ?B (arrived (hash_packet IHAVE ?held) junk) (Some a) = Inr (?B\<lparr>chunk_heap := mem2\<rparr>)"
      "mem_ok mem2" "valid mem2 ?as" "\<forall>c \<in> set ?as. holders_of (chunk_at mem2 c) = holders_of (chunk_at (chunk_heap ?B) c) @
         replicate (count_list (map hex_string ?held) (key_at (chunk_heap ?B) c)) (Some a) \<and>
       key_at mem2 c = key_at (chunk_heap ?B) c \<and> chunk_id (chunk_at mem2 c) = chunk_id (chunk_at (chunk_heap ?B) c) \<and>
       c_state (chunk_at mem2 c) = c_state (chunk_at (chunk_heap ?B) c)"
    using process_IHAVE_step [of ?B ?as ?held _ junk "Some a", OF _ _ _ dist _ held(2) data]
      listed(1,2) held(1) assms(2) unfolding mem SHA1_HASH_SIZE_def by blast
  moreover have "noted mem2 ?as hs (\<lambda>h. if h \<in> set own then [Some a] else [])"
  proof -
    have at: "chunk_at (chunk_heap ?B) (ch_brk (chunk_heap B) + i) = listed_chunk i (hs ! i)"
        "key_at (chunk_heap ?B) (ch_brk (chunk_heap B) + i) = hex_string (hs ! i)"
        "ch_brk (chunk_heap B) + i \<in> set ?as" if "i < length hs" for i
      using listed_chunk_at [OF b(1,4) that] arg_cong [OF listed(3), of "\<lambda>xs. xs ! i"] that
      by (simp_all add: mem(1) listed_addrs_def)
    have "map (key_at mem2) ?as = map hex_string hs" "map (\<lambda>c. holders_of (chunk_at mem2 c)) ?as =
        map (\<lambda>h. if h \<in> set own then [Some a] else []) hs"
        "map (\<lambda>c. chunk_id (chunk_at mem2 c)) ?as = map int [0..<length hs]"
      using m2(4) at count_held [OF b(3,4)] listed_chunk_fresh
      by (auto intro!: nth_equalityI simp: listed_addrs_def listed_chunk_def)
    moreover have "\<forall>c \<in> set ?as. c_state (chunk_at mem2 c) = READY"
    proof
      fix c assume c: "c \<in> set ?as"
      then have "c = ch_brk (chunk_heap B) + (c - ch_brk (chunk_heap B))" "c - ch_brk (chunk_heap B) < length hs"
        by (auto simp: listed_addrs_def)
      then show "c_state (chunk_at mem2 c) = READY"
        using m2(4) c at(1) [of "c - ch_brk (chunk_heap B)"] listed_chunk_fresh(2) by metis
    qed
    ultimately show ?thesis using m2(2,3) by (simp add: noted_def)
  qed
  ultimately show ?thesis by auto
qed

section \<open>The rarest chunk\<close>

lemma rarest_one: "f b = 1 \<Longrightarrow> rarest f b xs = b"
  by (induction xs) (auto simp: less_Suc_eq_0_disj)

lemma asked_peer:
  assumes "knows B port a pa" "a \<in> set ps" "peer_id pa \<noteq> identity (config B)"
  shows "(sin_addr pa, sin_port pa, wire (hash_packet WHOHAS hs)) \<in> set (sent (asked B ps hs q))"
  using assms by (force simp: asked_def to_others_def knows_def peer_of_config_def)

section \<open>Properties\<close>

text \<open>
  C11. Finding the owners of chunks. A download command sends the list of hashes to another peer of the
  configuration; whatever lies behind the datagram in the receive buffer, that peer answers with the
  hashes its has-chunk file lists, or not at all; and when the answer arrives, exactly the chunks it
  lists have that peer as their only holder, the others none.
\<close>

theorem discovery_notes_holders:
  assumes "about_to_ask B ps hs" "a \<in> set ps" "knows B port_a a pa" "peer_id pa \<noteq> identity (config B)"
    and "keeps A own" "knows A port_b b pb" "mine = filter (\<lambda>h. h \<in> set own) hs"
  shows "\<exists>B1 q A1. process_download m B = Inr B1 \<and> (sin_addr pa, sin_port pa, wire (hash_packet WHOHAS hs)) \<in> set (sent B1) \<and>
    packet_of_mem (wire (hash_packet WHOHAS hs) @ junk) = Inr q \<and> process_PKT m A q port_b = Inr A1 \<and>
    (if mine = [] then sent A1 = sent A
     else sent A1 = sent A @ [(sin_addr pb, sin_port pb, wire (hash_packet IHAVE mine))] \<and>
       (\<exists>q' B2 as. packet_of_mem (wire (hash_packet IHAVE mine) @ junk') = Inr q' \<and> process_PKT m B1 q' port_a = Inr B2 \<and>
          repr (down_chunks B2) as \<and> map (key_at (chunk_heap B2)) as = map hex_string hs \<and>
          map (\<lambda>c. holders_of (chunk_at (chunk_heap B2) c)) as = map (\<lambda>h. if h \<in> set own then [Some a] else []) hs))"
proof -
  have b: "length hs < SHA_MAX_NUM" "distinct hs" "\<forall>h \<in> set hs. length h = 20"
    using assms(1) by (simp_all add: about_to_ask_def)
  have mine: "\<forall>h \<in> set mine. length h = 20" "length mine \<le> SHA_MAX_NUM"
    using b assms(7) le_trans [OF length_filter_le less_imp_le] by auto
  obtain dq where dq: "process_download m B = Inr (asked B ps hs dq)" "repr dq (listed_addrs (chunk_heap B) hs)"
    using download_asks [OF assms(1)] by blast
  obtain q where q: "packet_of_mem (wire (hash_packet WHOHAS hs) @ junk) = Inr q"
    using hash_packet_readable [OF b(3) less_imp_le [OF b(1)]] by blast
  obtain q' where q': "packet_of_mem (wire (hash_packet IHAVE mine) @ junk') = Inr q'"
    using hash_packet_readable [OF mine] by blast
  obtain mem where mem: "process_PKT m (asked B ps hs dq) q' port_a = Inr ((asked B ps hs dq)\<lparr>chunk_heap := mem\<rparr>)"
      "noted mem (listed_addrs (chunk_heap B) hs) hs (\<lambda>h. if h \<in> set own then [Some a] else [])"
    using asker_notes [OF assms(1) dq(2) _ q' [unfolded assms(7)], of port_a a m] assms(3) by (auto simp: knows_def)
  let ?B2 = "(asked B ps hs dq)\<lparr>chunk_heap := mem\<rparr>"
  have "repr (down_chunks ?B2) (listed_addrs (chunk_heap B) hs)" using dq(2) by (simp add: asked_def)
  moreover obtain A1 where "process_PKT m A q port_b = Inr A1"
      "sent A1 = sent A @ (if mine = [] then [] else [(sin_addr pb, sin_port pb, wire (hash_packet IHAVE mine))])"
    using owner_answers [OF assms(5) b(2,3,1) assms(6) q assms(7)] by fastforce
  moreover note asked_peer [OF assms(3,2,4), of hs dq]
  ultimately show ?thesis
    using dq(1) q q' mem
    by (intro exI [of _ "asked B ps hs dq"] exI [of _ q] exI [of _ A1]) (auto simp: noted_def)
qed

section \<open>Applications\<close>

definition demo_reader :: "byte list list \<Rightarrow> handler" where
  "demo_reader hs = handler_start demo_config (\<lambda>f. Some (chunk_list_text 0 hs)) (\<lambda>f. True)"

lemma demo_about_to_ask:
  assumes "hs \<noteq> []" "length hs < SHA_MAX_NUM" "distinct hs" "\<forall>h \<in> set hs. length h = 20"
  shows "about_to_ask (demo_reader hs) [7] hs"
proof -
  have "peers_ok demo_config [7]" by (simp add: peers_ok_def demo_config_def)
  moreover have "0 < max_conn demo_config" by (simp add: demo_config_def)
  ultimately show ?thesis
    using assms mem_ok_empty by (simp add: about_to_ask_def demo_reader_def handler_start_def arena_ok_def empty_mem_def)
qed

lemma demo_reader_knows:
  "knows (demo_reader hs) 80 7 \<lparr>peer_id = 2, sin_addr = 9, sin_port = 80, peer_next = None\<rparr>"
  "config (demo_reader hs) = demo_config" "sent (demo_reader hs) = []" "identity demo_config = 0"
  by (simp_all add: knows_def demo_reader_def handler_start_def demo_get_peer demo_peer)
    (simp add: demo_config_def bt_init_def)

lemma demo_seed_keeps: "keeps demo_seed [replicate 20 1, replicate 20 2]"
  using demo_seed_mem(1) by (simp add: keeps_def del: alloc_all.simps)

theorem discovery_notes_holders_witness:
  "\<exists>B1 q A1 q' B2 as. process_download demo_machine (demo_reader [replicate 20 3, replicate 20 2]) = Inr B1 \<and>
    packet_of_mem (wire (hash_packet WHOHAS [replicate 20 3, replicate 20 2])) = Inr q \<and>
    process_PKT demo_machine demo_seed q 80 = Inr A1 \<and>
    sent A1 = [(9, 80, wire (hash_packet IHAVE [replicate 20 2]))] \<and>
    packet_of_mem (wire (hash_packet IHAVE [replicate 20 2])) = Inr q' \<and> process_PKT demo_machine B1 q' 80 = Inr B2 \<and>
    repr (down_chunks B2) as \<and> map (\<lambda>c. holders_of (chunk_at (chunk_heap B2) c)) as = [[], [Some 7]]"
proof -
  let ?hs = "[replicate 20 3, replicate 20 2] :: byte list list"
  let ?own = "[replicate 20 1, replicate 20 2] :: byte list list"
  have ask: "about_to_ask (demo_reader ?hs) [7] ?hs"
    by (rule demo_about_to_ask) (simp_all add: SHA_MAX_NUM_74 replicate_eq_replicate)
  have mine: "[replicate 20 2] = filter (\<lambda>h. h \<in> set ?own) ?hs" by (simp add: replicate_eq_replicate)
  have owner: "knows demo_seed 80 7 \<lparr>peer_id = 2, sin_addr = 9, sin_port = 80, peer_next = None\<rparr>"
    by (simp add: knows_def demo_get_peer)
  have known: "(7 :: nat) \<in> set [7]"
      "peer_id \<lparr>peer_id = 2, sin_addr = 9, sin_port = 80, peer_next = None\<rparr> \<noteq> identity (config (demo_reader ?hs))"
    by (simp_all add: demo_reader_knows)
  have who: "map (\<lambda>h. if h \<in> set ?own then [Some 7] else []) ?hs = [[], [Some (7 :: nat)]]"
    by (simp add: replicate_eq_replicate)
  have ne: "([replicate 20 2] :: byte list list) \<noteq> []" by simp
  from discovery_notes_holders [of "demo_reader ?hs" "[7]" ?hs 7 80 _ demo_seed _ 80 7 _ _ demo_machine "[]" "[]",
      OF ask known(1) demo_reader_knows(1) known(2) demo_seed_keeps owner mine, unfolded if_not_P [OF ne] who append_Nil2]
  show ?thesis unfolding demo_seed_fields append_Nil bt_peer_t.simps
    by (elim exE conjE, intro exI conjI) (assumption+)
qed

text \<open>A peer with a file of one chunk, listed in its master chunk file and its has-chunk file.\<close>

definition demo_keeper :: handler where
  "demo_keeper = handler_start (demo_config\<lparr>has_chunk_file := [98]\<rparr>)
     (\<lambda>n. if n = [97] then Some demo_data else if n = [98] then Some (chunk_list_text 0 [demo_hash])
       else Some (master_text [97] [demo_hash])) (\<lambda>f. True)"

lemma demo_keeper_fields:
  "config demo_keeper = demo_config\<lparr>has_chunk_file := [98]\<rparr>" "sender_pool demo_keeper = Null"
  "sender_heap demo_keeper = \<lparr>ar_heap = Map.empty, ar_brk = 0\<rparr>" "sent demo_keeper = []" "chunk_heap demo_keeper = empty_mem"
  "fs demo_keeper [97] = Some demo_data" "fs demo_keeper [98] = Some (chunk_list_text 0 [demo_hash])"
  "fs demo_keeper [] = Some (master_text [97] [demo_hash])" "chunk_file demo_config = []" "max_conn demo_config = 1"
  by (simp_all add: demo_keeper_def handler_start_def empty_mem_def demo_config_def bt_init_def)

lemma demo_keeper_ready:
  "keeps demo_keeper [demo_hash]"
  "knows demo_keeper 80 7 \<lparr>peer_id = 2, sin_addr = 9, sin_port = 80, peer_next = None\<rparr>"
  "senders_inv demo_keeper"
  "pool_opened demo_machine demo_keeper \<lparr>max_num = 1, cur_num = 0, workers = init_queue\<rparr>"
  "pool_ok p_receiver (Obj \<lparr>max_num = 1, cur_num = 0, workers = init_queue\<rparr>) (sender_heap demo_keeper) []"
  "get_sender (Obj \<lparr>max_num = 1, cur_num = 0, workers = init_queue\<rparr>) (sender_heap demo_keeper) (Some 7) = Inr None"
  "serves demo_machine demo_keeper [demo_hash] demo_data 0"
proof -
  show "keeps demo_keeper [demo_hash]"
    using mem_ok_empty by (simp add: keeps_def demo_keeper_fields length_demo_hash)
  have "get_peer (demo_config\<lparr>has_chunk_file := [98]\<rparr>) 80 = get_peer demo_config 80" by (simp add: get_peer_def)
  then show "knows demo_keeper 80 7 \<lparr>peer_id = 2, sin_addr = 9, sin_port = 80, peer_next = None\<rparr>"
    by (simp add: knows_def demo_keeper_fields demo_get_peer demo_peer)
  show "senders_inv demo_keeper" by (simp add: demo_keeper_def handler_start_inv)
  show "pool_opened demo_machine demo_keeper \<lparr>max_num = 1, cur_num = 0, workers = init_queue\<rparr>"
    by (simp add: pool_opened_def demo_keeper_fields init_sender_pool_def workers_block_def)
  show "pool_ok p_receiver (Obj \<lparr>max_num = 1, cur_num = 0, workers = init_queue\<rparr>) (sender_heap demo_keeper) []"
    "get_sender (Obj \<lparr>max_num = 1, cur_num = 0, workers = init_queue\<rparr>) (sender_heap demo_keeper) (Some 7) = Inr None"
    using demo_pool senders.get_find [OF demo_pool, of 7] by (simp_all add: pool_ok_def demo_keeper_fields)
  have "length demo_data = BT_CHUNK_SIZE" "file_name_ok [97]"
    by (simp_all add: demo_data_def file_name_ok_def isspace_def)
  then show "serves demo_machine demo_keeper [demo_hash] demo_data 0"
    by (simp add: serves_def demo_keeper_fields length_demo_hash) (intro exI [of _ "[97]"], simp add: demo_keeper_fields)
qed

end
