(* ===== verification/File_Output.thy ===== *)
theory File_Output
  imports Handler_Answers
begin

text \<open>
  The end of a download: \<open>chunks2file\<close> writes the finished chunks to the output file, frees them, their
  holders, the pool of receivers and the two queues.
\<close>

section \<open>Blocks of the output file\<close>

definition file_block :: "byte list \<Rightarrow> nat \<Rightarrow> byte list" where
  "file_block f i = take BT_CHUNK_SIZE (drop (i * BT_CHUNK_SIZE) f)"

lemma length_write_at: "length (write_at out p d) = max (length out) (p + length d)"
  by (auto simp: write_at_def max_def)

lemma nth_write_at:
  assumes "j < max (length out) (p + length d)"
  shows "write_at out p d ! j = (if p \<le> j \<and> j < p + length d then d ! (j - p) else if j < length out then out ! j else 0)"
  using assms by (auto simp: write_at_def nth_append min_def)

lemma block_index: "(j :: nat) div BT_CHUNK_SIZE = i \<longleftrightarrow> i * BT_CHUNK_SIZE \<le> j \<and> j < i * BT_CHUNK_SIZE + BT_CHUNK_SIZE"
  by (simp add: BT_CHUNK_SIZE_def) linarith

text \<open>\<open>wrote f I out\<close>: the output so far has the blocks \<open>I\<close> of the file \<open>f\<close>.\<close>

definition wrote :: "byte list \<Rightarrow> nat set \<Rightarrow> byte list \<Rightarrow> bool" where
  "wrote f I out \<longleftrightarrow> length out \<le> length f \<and>
     (\<forall>j < length f. j div BT_CHUNK_SIZE \<in> I \<longrightarrow> j < length out \<and> out ! j = f ! j)"

lemma wrote_step:
  assumes "wrote f I out" "(i + 1) * BT_CHUNK_SIZE \<le> length f"
  shows "wrote f (insert i I) (write_at out (i * BT_CHUNK_SIZE) (file_block f i))"
proof -
  have len: "length (file_block f i) = BT_CHUNK_SIZE" using assms(2) by (simp add: file_block_def)
  have "write_at out (i * BT_CHUNK_SIZE) (file_block f i) ! j = f ! j"
    if "j < length f" "j div BT_CHUNK_SIZE = i \<or> j div BT_CHUNK_SIZE \<in> I" for j
  proof (cases "j div BT_CHUNK_SIZE = i")
    case True
    then have "i * BT_CHUNK_SIZE \<le> j" "j < i * BT_CHUNK_SIZE + BT_CHUNK_SIZE" by (simp_all add: block_index)
    then show ?thesis using that(1) len by (subst nth_write_at) (auto simp: file_block_def)
  next
    case False
    with that assms(1) have "j < length out" "out ! j = f ! j" by (auto simp: wrote_def)
    with False len show ?thesis by (subst nth_write_at) (auto simp: block_index)
  qed
  moreover have "j < max (length out) (i * BT_CHUNK_SIZE + BT_CHUNK_SIZE)"
    if "j < length f" "j div BT_CHUNK_SIZE = i \<or> j div BT_CHUNK_SIZE \<in> I" for j
    using that assms(1) by (auto simp: wrote_def block_index less_max_iff_disj)
  ultimately show ?thesis
    using assms by (simp add: wrote_def length_write_at len)
qed

lemma wrote_all:
  assumes "wrote f I out" "\<forall>j < length f. j div BT_CHUNK_SIZE \<in> I"
  shows "out = f"
proof (rule nth_equalityI)
  show "length out = length f"
  proof (rule ccontr)
    assume "length out \<noteq> length f"
    with assms(1) have "length out < length f" by (simp add: wrote_def)
    with assms show False by (auto simp: wrote_def)
  qed
  show "out ! j = f ! j" if "j < length out" for j using assms that by (auto simp: wrote_def)
qed

section \<open>Writing the chunks\<close>

text \<open>A finished chunk of the file \<open>f\<close>: its number, its data, a matching hash, and its holders.\<close>

definition file_chunk :: "chunk_mem \<Rightarrow> byte list \<Rightarrow> (nat \<Rightarrow> nat list) \<Rightarrow> (nat \<Rightarrow> nat) \<Rightarrow> nat \<Rightarrow> bool" where
  "file_chunk mem f hol num a \<longleftrightarrow> (\<exists>c. ch_heap mem a = Some c \<and> holders_of c = map Some (hol a) \<and> chunk_id c = int (num a) \<and>
     chunk_data c = file_block f (num a) \<and> key c = hex_string (sha1_spec (file_block f (num a))) \<and>
     num a < 4096 \<and> (num a + 1) * BT_CHUNK_SIZE \<le> length f)"

lemma free_chunk_spec:
  assumes "ch_heap mem a = Some c" "repr (holders c) (map Some ps)"
  shows "free_chunk mem ph (Some a) =
    (if distinct ps \<and> (\<forall>p \<in> set ps. \<exists>x. ph p = Some x)
     then Inr (mem\<lparr>ch_heap := (ch_heap mem)(a := None)\<rparr>, ph |` (- set ps)) else Inl Double_Free)"
proof -
  have "map (\<lambda>p. Option.bind p (\<lambda>x. x)) (map Some (map Some ps)) = map Some ps" by simp
  moreover have "free_all ph (map Some ps) =
      (if distinct ps \<and> (\<forall>p \<in> set ps. \<exists>x. ph p = Some x) then Inr (ph |` (- set ps)) else Inl Double_Free)"
    using free_all_distinct [of ps ph] free_all_twice [of ps ph] by auto
  ultimately show ?thesis
    using assms(1) by (simp add: free_chunk_def free_queue_repr [OF assms(2)] comp_def)
qed

lemma write_loop_spec:
  assumes "mem_ok mem" "repr q as" "distinct as" "21 \<le> frame_slack m" "\<forall>a \<in> set as. file_chunk mem f hol num a" "wrote f I out"
  shows "if distinct (concat (map hol as)) \<and> (\<forall>p \<in> set (concat (map hol as)). \<exists>x. ph p = Some x)
    then \<exists>q' out'. write_loop m (length as) mem ph q out pos =
        Inr (mem\<lparr>ch_heap := ch_heap mem |` (- set as)\<rparr>, ph |` (- set (concat (map hol as))), q', out') \<and>
      repr q' [] \<and> wrote f (num ` set as \<union> I) out'
    else write_loop m (length as) mem ph q out pos = Inl Double_Free"
  using assms
proof (induction as arbitrary: mem ph q out pos I)
  case Nil
  obtain x where "q = Obj x" "q_n x = 0" using repr_length [OF Nil.prems(2)] by auto
  then have "write_loop m 0 mem ph q out pos = Inr (mem, ph, q, out)" by (simp add: write_loop.simps)
  moreover have "mem\<lparr>ch_heap := ch_heap mem |` (- set [])\<rparr> = mem" "ph |` (- set []) = ph" by (simp_all add: restrict_map_def)
  ultimately show ?case using Nil.prems(2,6) by auto
next
  case (Cons a as)
  obtain c where c: "ch_heap mem a = Some c" "holders_of c = map Some (hol a)" "chunk_id c = int (num a)"
      "chunk_data c = file_block f (num a)" "key c = hex_string (sha1_spec (file_block f (num a)))"
      "num a < 4096" "(num a + 1) * BT_CHUNK_SIZE \<le> length f"
    using Cons.prems(5) by (auto simp: file_chunk_def)
  have cok: "chunk_ok c" using mem_okD [OF Cons.prems(1) c(1)] by simp
  then have hol: "repr (holders c) (map Some (hol a))" using chunk_ok_holders [OF cok] c(2) by auto
  obtain x where x: "q = Obj x" "q_n x = int (Suc (length as))" using repr_length [OF Cons.prems(2)] by auto
  obtain q1 where q1: "dequeue q = Inr (Some a, q1)" "repr q1 as"
    using repr_dequeue_Cons [OF Cons.prems(2)] by (auto simp: ok_iff)
  have "check_chunk m c (chunk_sha1 c) = Inr (hex_string (sha1_spec (chunk_data c)) = take 40 (chunk_sha1 c))"
    by (rule check_chunk_spec) (use cok Cons.prems(4) in \<open>auto simp: chunk_ok_def\<close>)
  then have good: "check_chunk m c (chunk_sha1 c) = Inr True" using c(4,5) by (simp add: key_def SHA1_HASH_SIZE_def)
  have mult: "int_mult (chunk_id c) (int BT_CHUNK_SIZE) = Inr (int (num a * BT_CHUNK_SIZE))"
    using c(3,6) by (simp add: int_mult_def BT_CHUNK_SIZE_def)
  have pos_of: "\<not> int (num a) * int BT_CHUNK_SIZE < 0" "nat (int (num a) * int BT_CHUNK_SIZE) = num a * BT_CHUNK_SIZE"
    by (simp_all add: not_less flip: of_nat_mult)
  have step: "write_loop m (length (a # as)) mem ph q out pos =
      rbind (free_chunk mem ph (Some a)) (\<lambda>(mem', ph').
        write_loop m (length as) mem' ph' q1 (write_at out (num a * BT_CHUNK_SIZE) (file_block f (num a)))
          (num a * BT_CHUNK_SIZE + BT_CHUNK_SIZE))"
    using x q1(1) c(1,4) good mult pos_of by (subst write_loop.simps) (simp add: Let_def)
  show ?case
  proof (cases "distinct (hol a) \<and> (\<forall>p \<in> set (hol a). \<exists>x. ph p = Some x)")
    case False
    then have bad: "\<not> (distinct (concat (map hol (a # as))) \<and> (\<forall>p \<in> set (concat (map hol (a # as))). \<exists>x. ph p = Some x))" by auto
    show ?thesis unfolding if_not_P [OF bad] step free_chunk_spec [OF c(1) hol] if_not_P [OF False] by simp
  next
    case True
    let ?mem = "mem\<lparr>ch_heap := (ch_heap mem)(a := None)\<rparr>" and ?ph = "ph |` (- set (hol a))"
    have "mem_ok ?mem" using Cons.prems(1) by (auto simp: mem_ok_def)
    have "\<forall>b \<in> set as. file_chunk ?mem f hol num b" using Cons.prems(3,5) by (auto simp: file_chunk_def)
    note IH = Cons.IH [of ?mem q1 "insert (num a) I" "write_at out (num a * BT_CHUNK_SIZE) (file_block f (num a))"
        ?ph "num a * BT_CHUNK_SIZE + BT_CHUNK_SIZE", OF _ q1(2) _ Cons.prems(4) _ wrote_step [OF Cons.prems(6) c(7)]]
    have same: "distinct (concat (map hol (a # as))) \<and> (\<forall>p \<in> set (concat (map hol (a # as))). \<exists>x. ph p = Some x) \<longleftrightarrow>
        distinct (concat (map hol as)) \<and> (\<forall>p \<in> set (concat (map hol as)). \<exists>x. ?ph p = Some x)"
      using True by (auto simp: restrict_map_def)
    have maps: "?mem\<lparr>ch_heap := ch_heap ?mem |` (- set as)\<rparr> = mem\<lparr>ch_heap := ch_heap mem |` (- set (a # as))\<rparr>"
        "?ph |` (- set (concat (map hol as))) = ph |` (- set (concat (map hol (a # as))))"
        "num ` set as \<union> insert (num a) I = num ` set (a # as) \<union> I"
      by (auto simp: restrict_map_def fun_eq_iff)
    show ?thesis
      unfolding step free_chunk_spec [OF c(1) hol] if_P [OF True] rbind_simps prod.case same
      using IH \<open>mem_ok ?mem\<close> \<open>\<forall>b \<in> set as. file_chunk ?mem f hol num b\<close> Cons.prems(3) unfolding maps by simp
  qed
qed

lemma chunks2file_step:
  assumes "mem_ok (chunk_heap st)" "repr (down_chunks st) []" "repr (done_chunks st) as" "as \<noteq> []" "distinct as"
    and "writable st (output_file (config st))" "21 \<le> frame_slack m" "receiver_pool st = Obj pool"
    and "\<forall>a \<in> set as. file_chunk (chunk_heap st) f hol num a" "\<forall>j < length f. j div BT_CHUNK_SIZE \<in> num ` set as"
  shows "chunks2file m st =
    (if distinct (concat (map hol as)) \<and> (\<forall>p \<in> set (concat (map hol as)). \<exists>x. peer_heap (config st) p = Some x)
     then Inr (st\<lparr>fs := (fs st)(output_file (config st) \<mapsto> f), receiver_pool := Freed,
       chunk_heap := (chunk_heap st)\<lparr>ch_heap := ch_heap (chunk_heap st) |` (- set as)\<rparr>,
       config := (config st)\<lparr>peer_heap := peer_heap (config st) |` (- set (concat (map hol as)))\<rparr>,
       down_chunks := Freed, done_chunks := Freed\<rparr>)
     else Inl Double_Free)"
proof -
  have size: "queue_size (done_chunks st) = length as" using repr_length [OF assms(3)] by (auto simp: queue_size_def)
  have start: "is_empty (down_chunks st) = Inr True" "is_empty (done_chunks st) = Inr False"
    using cq.rep_emp [OF assms(2)] cq.rep_emp [OF assms(3)] assms(4) by simp_all
  have "wrote f {} []" by (simp add: wrote_def)
  note loop = write_loop_spec [OF assms(1,3,5,7,9) this, where ph = "peer_heap (config st)" and pos = 0]
  have none: "free_chunk_queue mem q = Inr mem" if "repr q []" for mem q
    using free_chunk_queue_spec [OF that, of mem] by (simp add: restrict_map_def)
  show ?thesis
  proof (cases "distinct (concat (map hol as)) \<and> (\<forall>p \<in> set (concat (map hol as)). \<exists>x. peer_heap (config st) p = Some x)")
    case True
    with loop obtain q' out' where l: "write_loop m (length as) (chunk_heap st) (peer_heap (config st)) (done_chunks st) [] 0 =
        Inr ((chunk_heap st)\<lparr>ch_heap := ch_heap (chunk_heap st) |` (- set as)\<rparr>,
          peer_heap (config st) |` (- set (concat (map hol as))), q', out')" "repr q' []" "wrote f (num ` set as) out'"
      unfolding if_P [OF True] Un_empty_right by blast
    from wrote_all [OF l(3) assms(10)] have "out' = f" .
    with l none [OF l(2)] none [OF assms(2)] start size assms(6,8) show ?thesis
      unfolding if_P [OF True] by (simp add: chunks2file_def free_ptr_def)
  next
    case False
    then have "write_loop m (length as) (chunk_heap st) (peer_heap (config st)) (done_chunks st) [] 0 = Inl Double_Free"
      using loop unfolding if_not_P [OF False] by blast
    with start size assms(6,8) show ?thesis unfolding if_not_P [OF False] by (simp add: chunks2file_def)
  qed
qed

section \<open>Properties\<close>

text \<open>
  C16. The file is complete: when the finished chunks are the blocks of a file, in any order, with
  matching hashes, and no peer is a holder twice, \<open>chunks2file\<close> writes exactly that file; the peers that
  held its chunks are freed although the list of peers of the configuration still leads to them.
\<close>

theorem chunks2file_writes:
  assumes "mem_ok (chunk_heap st)" "repr (down_chunks st) []" "repr (done_chunks st) as" "as \<noteq> []" "distinct as"
    and "writable st (output_file (config st))" "21 \<le> frame_slack m" "receiver_pool st = Obj pool"
    and "\<forall>a \<in> set as. file_chunk (chunk_heap st) f hol num a" "\<forall>j < length f. j div BT_CHUNK_SIZE \<in> num ` set as"
    and "distinct (concat (map hol as))" "\<forall>p \<in> set (concat (map hol as)). \<exists>x. peer_heap (config st) p = Some x"
  shows "ok (chunks2file m st) (\<lambda>st'. fs st' = (fs st)(output_file (config st) \<mapsto> f) \<and>
    peers (config st') = peers (config st) \<and> (\<forall>p \<in> set (concat (map hol as)). peer_heap (config st') p = None))"
  using chunks2file_step [OF assms(1-10)] assms(11,12) by (auto simp: restrict_map_def)

text \<open>
  C17. If a peer is a holder of two finished chunks, or twice of one, \<open>chunks2file\<close> frees it twice.
\<close>

theorem chunks2file_shared_holder:
  assumes "mem_ok (chunk_heap st)" "repr (down_chunks st) []" "repr (done_chunks st) as" "as \<noteq> []" "distinct as"
    and "writable st (output_file (config st))" "21 \<le> frame_slack m" "receiver_pool st = Obj pool"
    and "\<forall>a \<in> set as. file_chunk (chunk_heap st) f hol num a" "\<forall>j < length f. j div BT_CHUNK_SIZE \<in> num ` set as"
    and "\<not> distinct (concat (map hol as))"
  shows "chunks2file m st = Inl Double_Free"
  using chunks2file_step [OF assms(1-10)] assms(11) by auto

section \<open>Applications\<close>

definition demo_file :: "byte list" where
  "demo_file = replicate BT_CHUNK_SIZE 0"

definition demo_done :: "nat list \<Rightarrow> chunk_t" where
  "demo_done ps = zero_chunk\<lparr>chunk_sha1 := hex_string (sha1_spec demo_file) @ replicate 215 0, c_state := FINISHED,
     holders := queue_of (map Some ps)\<rparr>"

definition demo_finish :: "nat list \<Rightarrow> handler" where
  "demo_finish ps = (handler_start demo_config Map.empty (\<lambda>f. True))
     \<lparr>receiver_pool := Obj \<lparr>max_num = 1, cur_num = 0, workers = init_queue\<rparr>,
      chunk_heap := alloc_all empty_mem [demo_done ps], down_chunks := init_queue, done_chunks := queue_of [0]\<rparr>"

lemma demo_finish_chunk:
  "mem_ok (chunk_heap (demo_finish ps))" "file_chunk (chunk_heap (demo_finish ps)) demo_file (\<lambda>a. ps) (\<lambda>a. 0) 0"
proof -
  have "chunk_ok (demo_done ps)"
    using repr_queue_of by (auto simp: demo_done_def chunk_ok_def length_sha1_spec)
  then have ok: "\<forall>c \<in> set [demo_done ps]. chunk_ok c" by simp
  note mem = alloc_all_empty [OF ok]
  have st: "chunk_heap (demo_finish ps) = alloc_all empty_mem [demo_done ps]" by (simp add: demo_finish_def)
  show "mem_ok (chunk_heap (demo_finish ps))" unfolding st by (rule mem(1))
  have "ch_heap (alloc_all empty_mem [demo_done ps]) 0 = Some (demo_done ps)" using mem(3) [of 0] by simp
  moreover have "holders_of (demo_done ps) = map Some ps"
    by (rule holders_of_repr) (simp add: demo_done_def repr_queue_of)
  moreover have "file_block demo_file 0 = demo_file" "length demo_file = BT_CHUNK_SIZE"
    by (simp_all add: file_block_def demo_file_def)
  moreover have "chunk_id (demo_done ps) = 0" "chunk_data (demo_done ps) = demo_file" "key (demo_done ps) = hex_string (sha1_spec demo_file)"
    by (simp_all add: demo_done_def zero_chunk_def key_def SHA1_HASH_SIZE_def length_sha1_spec demo_file_def)
  ultimately show "file_chunk (chunk_heap (demo_finish ps)) demo_file (\<lambda>a. ps) (\<lambda>a. 0) 0"
    unfolding st file_chunk_def by simp
qed

lemma demo_finish_fields:
  "repr (down_chunks (demo_finish ps)) []" "repr (done_chunks (demo_finish ps)) [0]"
  "receiver_pool (demo_finish ps) = Obj \<lparr>max_num = 1, cur_num = 0, workers = init_queue\<rparr>"
  "writable (demo_finish ps) (output_file (config (demo_finish ps)))" "config (demo_finish ps) = demo_config"
  using repr_queue_of [of "[0 :: nat]"] cq.rep_new by (simp_all add: demo_finish_def handler_start_def)

lemma demo_blocks: "\<forall>j < length demo_file. j div BT_CHUNK_SIZE \<in> (\<lambda>a. 0) ` set [0 :: nat]"
  by (simp add: demo_file_def)

theorem chunks2file_writes_witness:
  "ok (chunks2file \<lparr>stack_byte = (\<lambda>i. 0), heap_byte = (\<lambda>i. 0), literal_tail = [], frame_slack = 21, heap_slack = 0\<rparr> (demo_finish [7]))
    (\<lambda>st. fs st (output_file demo_config) = Some demo_file \<and> peer_heap (config st) 7 = None)"
  by (rule ok_mono [OF chunks2file_writes [OF demo_finish_chunk(1) demo_finish_fields(1,2) _ _ demo_finish_fields(4) _
        demo_finish_fields(3) _ demo_blocks, where hol = "\<lambda>a. [7]"]])
    (simp_all add: demo_finish_chunk demo_finish_fields demo_config_def)

theorem chunks2file_shared_holder_witness:
  "chunks2file \<lparr>stack_byte = (\<lambda>i. 0), heap_byte = (\<lambda>i. 0), literal_tail = [], frame_slack = 21, heap_slack = 0\<rparr> (demo_finish [7, 7]) =
    Inl Double_Free"
  by (rule chunks2file_shared_holder [OF demo_finish_chunk(1) demo_finish_fields(1,2) _ _ demo_finish_fields(4) _
        demo_finish_fields(3) _ demo_blocks, where hol = "\<lambda>a. [7, 7]"])
    (simp_all add: demo_finish_chunk)

end
