(* ===== verification/Whole_File.thy ===== *)
theory Whole_File
  imports Discovery File_Output
begin

text \<open>
  The download of a whole file from one peer: two peers on a network that may lose, repeat and reorder
  datagrams, the receiver thread of the one and the sender threads of the other. The steps of
  \<open>Chunk_Transfer\<close> are shown to leave everything but the chunk in transfer alone, so that the rounds of
  the receiver thread can be put together, one per chunk, up to the writing of the file.
\<close>

section \<open>What a transfer leaves alone\<close>

text \<open>The datagrams sent since \<open>A0\<close> are addressed to the peer \<open>pe\<close>.\<close>

definition new_to :: "bt_peer_t \<Rightarrow> handler \<Rightarrow> handler \<Rightarrow> bool" where
  "new_to pe A0 A \<longleftrightarrow> (\<exists>xs. sent A = sent A0 @ xs \<and> (\<forall>(ad, po, w) \<in> set xs. ad = sin_addr pe \<and> po = sin_port pe))"

lemma new_to_refl [simp]: "new_to pe A A"
  by (simp add: new_to_def)

lemma new_to_same: "new_to pe A0 A \<Longrightarrow> sent A' = sent A \<Longrightarrow> new_to pe A0 A'"
  by (simp add: new_to_def)

lemma new_to_snoc: "new_to pe A0 A \<Longrightarrow> sent A' = sent A @ [(sin_addr pe, sin_port pe, w)] \<Longrightarrow> new_to pe A0 A'"
  by (auto simp: new_to_def)

text \<open>The pool has room for \<open>mx\<close> workers and no other worker than perhaps \<open>a\<close>.\<close>

definition pool_only :: "('w \<Rightarrow> nat option) \<Rightarrow> pool_t cptr \<Rightarrow> 'w arena \<Rightarrow> nat \<Rightarrow> int \<Rightarrow> bool" where
  "pool_only peer_of pool ar a mx \<longleftrightarrow>
     (\<exists>p ids. pool = Obj p \<and> max_num p = mx \<and> pool_ok peer_of pool ar ids \<and> set ids \<subseteq> {a})"

lemma pool_only_update:
  assumes "pool_only peer_of pool ar a mx" "ar_heap ar c = Some w" "peer_of w' = peer_of w"
  shows "pool_only peer_of pool (ar\<lparr>ar_heap := (ar_heap ar)(c \<mapsto> w')\<rparr>) a mx"
proof -
  obtain p ids where "pool = Obj p" "max_num p = mx" "pool_ok peer_of pool ar ids" "set ids \<subseteq> {a}"
    using assms(1) by (auto simp: pool_only_def)
  with pool_ok_update(1) [OF this(3) assms(2,3)] show ?thesis by (auto simp: pool_only_def)
qed

lemma remove_sender_max:
  "remove_sender (Obj p) ar (Some a) = Inr (pool, ar') \<Longrightarrow> \<exists>p'. pool = Obj p' \<and> max_num p' = max_num p"
  by (auto simp: remove_sender_def rbind_Inr_iff split: if_splits)

lemma remove_receiver_max:
  "remove_receiver (Obj p) ar (Some a) = Inr pool \<Longrightarrow> \<exists>p'. pool = Obj p' \<and> max_num p' = max_num p"
  by (auto simp: remove_receiver_def rbind_Inr_iff split: if_splits)

lemma pool_only_remove_sender:
  assumes "pool_only p_receiver pool ar c mx" "remove_sender pool ar (Some a) = Inr (pool', ar')" "a = c"
    and "pool_ok p_receiver pool ar ids" "a \<in> set ids"
  shows "pool_only p_receiver pool' ar' c mx"
proof -
  obtain p ids0 where p: "pool = Obj p" "max_num p = mx" "pool_ok p_receiver pool ar ids0" "set ids0 \<subseteq> {c}"
    using assms(1) by (auto simp: pool_only_def)
  obtain p' where p': "pool' = Obj p'" "max_num p' = mx"
    using remove_sender_max [of p ar a pool' ar'] assms(2) p(1,2) by auto
  have "repr (workers p) ids" "repr (workers p) ids0"
    using assms(4) p(1,3) by (auto simp: pool_ok_def pool_rep_def)
  then have "ids = ids0" using cq.rep_items by (metis Inr_inject)
  then obtain ids' where "pool_ok p_receiver pool' ar' ids'" "set ids' = set ids0 - {a}"
    using remove_sender_ok [OF assms(4,5)] assms(2) by auto
  with p' p(4) show ?thesis unfolding pool_only_def by auto
qed

section \<open>The serving side\<close>

text \<open>
  One object of the arena changes, its connection stays; the datagrams that are added go to the
  peer of that object.
\<close>

definition sender_change :: "handler \<Rightarrow> nat \<Rightarrow> handler \<Rightarrow> bool" where
  "sender_change A a A' \<longleftrightarrow> config A' = config A \<and> fs A' = fs A \<and> sender_pool A' = sender_pool A \<and>
     (\<exists>s s'. ar_heap (sender_heap A) a = Some s \<and> p_receiver s' = p_receiver s \<and>
        sender_heap A' = (sender_heap A)\<lparr>ar_heap := (ar_heap (sender_heap A))(a \<mapsto> s')\<rparr> \<and>
        (sent A' = sent A \<or> (\<exists>b pe w. p_receiver s = Some b \<and> peer_heap (config A) b = Some pe \<and>
           sent A' = sent A @ [(sin_addr pe, sin_port pe, w)])))"

lemma sender_change_refl: "ar_heap (sender_heap A) a = Some s \<Longrightarrow> sender_change A a A"
  by (auto simp: sender_change_def fun_upd_idem intro!: exI [of _ s])

lemma send_PKT_form:
  assumes "send_PKT st (Some b) (Some p) = Inr st'"
  shows "\<exists>pe w. peer_heap (config st) b = Some pe \<and> st' = st\<lparr>sent := sent st @ [(sin_addr pe, sin_port pe, w)]\<rparr>"
  using assms by (auto simp: send_PKT_def rbind_Inr_iff deref_Inr_iff)

lemma sender_send_change:
  assumes "sender_send A a = Inr A'"
  shows "sender_change A a A' \<and> sender_threads A' = sender_threads A"
proof -
  obtain s where s: "ar_heap (sender_heap A) a = Some s"
    using assms by (auto simp: sender_send_def rbind_Inr_iff deref_Inr_iff)
  show ?thesis
  proof (cases "last_sent s < last_available s \<and> last_sent s < pkt_num s")
    case False
    with assms s have "A' = A" by (simp add: sender_send_def)
    with sender_change_refl [OF s] show ?thesis by simp
  next
    case True
    let ?s1 = "if last_sent s = last_acked s then start_timer (s\<lparr>timer := init_timer (timer s) (last_acked s)\<rparr>) else s"
    let ?A1 = "if last_sent s = last_acked s then run_timer A a s else A"
    have A1: "ar_heap (sender_heap ?A1) a = Some ?s1" "config ?A1 = config A" "fs ?A1 = fs A" "sender_pool ?A1 = sender_pool A"
        "sent ?A1 = sent A" "sender_threads ?A1 = sender_threads A" "sender_heap ?A1 = (sender_heap A)\<lparr>ar_heap := (ar_heap (sender_heap A))(a \<mapsto> ?s1)\<rparr>"
      using s by (simp_all add: run_timer_def set_sender_def fun_upd_idem)
    have p: "p_receiver ?s1 = p_receiver s" by (simp add: start_timer_def)
    obtain pkt where snd: "send_PKT (set_sender ?A1 a (?s1\<lparr>last_sent := last_sent ?s1 + 1\<rparr>)) (p_receiver ?s1) (Some pkt) = Inr A'"
      using assms True s A1(1) by (auto simp: sender_send_def Let_def rbind_Inr_iff)
    let ?A2 = "set_sender ?A1 a (?s1\<lparr>last_sent := last_sent ?s1 + 1\<rparr>)"
    have A2: "config ?A2 = config A" "fs ?A2 = fs A" "sender_pool ?A2 = sender_pool A" "sent ?A2 = sent A" "sender_threads ?A2 = sender_threads A"
        "sender_heap ?A2 = (sender_heap A)\<lparr>ar_heap := (ar_heap (sender_heap A))(a \<mapsto> ?s1\<lparr>last_sent := last_sent ?s1 + 1\<rparr>)\<rparr>"
      using A1 by (simp_all add: set_sender_def)
    have "sender_threads A' = sender_threads A \<and> config A' = config A \<and> fs A' = fs A \<and> sender_pool A' = sender_pool A \<and>
        sender_heap A' = sender_heap ?A2 \<and> (sent A' = sent A \<or> (\<exists>b pe w. p_receiver s = Some b \<and> peer_heap (config A) b = Some pe \<and>
           sent A' = sent A @ [(sin_addr pe, sin_port pe, w)]))"
    proof (cases "p_receiver s")
      case None
      with snd p have "A' = ?A2" by (simp add: send_PKT_def)
      with A2 show ?thesis by simp
    next
      case (Some b)
      with snd p have "send_PKT ?A2 (Some b) (Some pkt) = Inr A'" by simp
      from send_PKT_form [OF this] obtain pe w where "peer_heap (config A) b = Some pe"
          "A' = ?A2\<lparr>sent := sent ?A2 @ [(sin_addr pe, sin_port pe, w)]\<rparr>" unfolding A2(1) by blast
      with A2 Some show ?thesis by simp
    qed
    with s p A2(6) show ?thesis unfolding sender_change_def by (auto intro!: exI [of _ "?s1\<lparr>last_sent := last_sent ?s1 + 1\<rparr>"])
  qed
qed

lemma sender_round_change: "sender_round A a = Inr (True, A') \<Longrightarrow> sender_change A a A' \<and> sender_threads A' = sender_threads A"
  using sender_send_change by (auto simp: sender_round_def rbind_Inr_iff split: if_splits)

lemma retransmit_peer: "retransmit s k = Inr s' \<Longrightarrow> p_receiver s' = p_receiver s"
  by (auto simp: retransmit_def rbind_Inr_iff)

lemma timer_end_change:
  assumes "timer_end A i = Inr A'" "i < length (timers A)" "fst (timers A ! i) = a"
  shows "(A' = A \<or> sender_change A a A') \<and> sender_threads A' = sender_threads A"
proof -
  obtain t where t: "timers A ! i = (a, t)" using assms(3) by (cases "timers A ! i") auto
  show ?thesis
  proof (cases t)
    case None
    with assms t show ?thesis by (simp add: timer_end_def bget_def)
  next
    case (Some tid)
    then obtain s s' where s: "ar_heap (sender_heap A) a = Some s" "t_start_end s tid = Inr s'"
        "A' = (set_sender A a s')\<lparr>timers := take i (timers A) @ drop (Suc i) (timers A)\<rparr>"
      using assms(1,2) t by (auto simp: timer_end_def bget_def rbind_Inr_iff deref_Inr_iff)
    then have "p_receiver s' = p_receiver s" using retransmit_peer by (auto simp: t_start_end_def split: if_splits)
    with s show ?thesis by (auto simp: sender_change_def set_sender_def)
  qed
qed

lemma timer_begin_change:
  assumes "timer_begin A i = Inr A'" "i < length (timers A)" "fst (timers A ! i) = a"
  shows "sender_change A a A' \<and> sender_threads A' = sender_threads A"
proof -
  obtain t where t: "timers A ! i = (a, t)" using assms(3) by (cases "timers A ! i") auto
  obtain s where s: "ar_heap (sender_heap A) a = Some s"
    using assms(1,2) t by (auto simp: timer_begin_def bget_def rbind_Inr_iff deref_Inr_iff)
  have "\<exists>ts. A' = A\<lparr>timers := ts\<rparr>"
    using assms(1,2) t s by (auto simp: timer_begin_def bget_def split: option.splits)
  with sender_change_refl [OF s] show ?thesis by (auto simp: sender_change_def)
qed

lemma ack_window_peer: "ack_window s k = Inr (s', l) \<Longrightarrow> p_receiver s' = p_receiver s"
  by (auto simp: ack_window_def Let_def rbind_Inr_iff split: if_splits dest!: retransmit_peer)

lemma process_ACK_change:
  assumes "process_ACK A pkt (Some b) = Inr A'" "get_sender (sender_pool A) (sender_heap A) (Some b) = Inr r"
  shows "config A' = config A \<and> fs A' = fs A \<and> sent A' = sent A \<and> sender_threads A' = sender_threads A \<and>
    (A' = A \<or> (\<exists>a. r = Some a \<and> (sender_change A a A' \<or>
       (\<exists>s A1. ar_heap (sender_heap A) a = Some s \<and> A1 = set_sender A a (stop_timer s) \<and>
          remove_sender (sender_pool A1) (sender_heap A1) (Some a) = Inr (sender_pool A', sender_heap A')))))"
proof (cases r)
  case None
  with assms show ?thesis by (simp add: process_ACK_def)
next
  case (Some a)
  let ?ack = "ack_num (header pkt)"
  obtain s where s: "ar_heap (sender_heap A) a = Some s"
    using assms Some by (auto simp: process_ACK_def Let_def rbind_Inr_iff deref_Inr_iff)
  note main = assms(1) [unfolded process_ACK_def assms(2) Some rbind_simps option.case Let_def
      deref_simps(2) [of "ar_heap (sender_heap A)", OF s]]
  show ?thesis
  proof (cases "?ack \<ge> pkt_num s")
    case True
    let ?A1 = "set_sender A a (stop_timer s)"
    show ?thesis
    proof (cases "last_sent s < pkt_num s")
      case True
      with main \<open>?ack \<ge> pkt_num s\<close> show ?thesis by simp
    next
      case False
      with main True obtain pool ar where "remove_sender (sender_pool ?A1) (sender_heap ?A1) (Some a) = Inr (pool, ar)"
          "A' = ?A1\<lparr>sender_pool := pool, sender_heap := ar\<rparr>"
        by (auto simp: rbind_Inr_iff simp del: set_sender_fields)
      with s Some show ?thesis by (auto simp: set_sender_def)
    qed
  next
    case False
    with main obtain s' logged A1 where s': "ack_window s ?ack = Inr (s', logged)"
        and A1: "(if logged then cwnd2log (set_sender A a s') (p_receiver s') (cwnd s') else Inr (set_sender A a s')) = Inr A1"
        and A': "A' = set_sender A1 a (stop_timer s')"
      by (auto simp: rbind_Inr_iff)
    have "sender_heap A1 = (sender_heap A)\<lparr>ar_heap := (ar_heap (sender_heap A))(a \<mapsto> s')\<rparr> \<and> sender_pool A1 = sender_pool A \<and>
        config A1 = config A \<and> fs A1 = fs A \<and> sent A1 = sent A \<and> sender_threads A1 = sender_threads A"
      using A1 by (auto simp: cwnd2log_def rbind_Inr_iff set_sender_def split: if_splits)
    moreover from this have "sender_change A a A'"
      using s ack_window_peer [OF s'] by (auto simp: sender_change_def A' set_sender_def stop_timer_def intro!: exI [of _ "stop_timer s'"])
    ultimately show ?thesis using Some by (simp add: A' set_sender_def)
  qed
qed

lemma sender_enter_change:
  assumes "sender_enter A a = Inr A'"
  shows "sender_change A a A' \<and> sender_threads A' = sender_threads A @ [a] \<and> sent A' = sent A"
proof -
  obtain s where s: "ar_heap (sender_heap A) a = Some s" using assms by (auto simp: sender_enter_def rbind_Inr_iff deref_Inr_iff)
  let ?s' = "start_timer (s\<lparr>timer := init_timer (timer s) (last_acked s)\<rparr>)"
  have "A' = (run_timer (if log_file A = Null then A\<lparr>log_file := Obj []\<rparr> else A) a s)
       \<lparr>new_senders := remove1 a (new_senders A), sender_threads := sender_threads A @ [a]\<rparr>"
    using assms s by (simp add: sender_enter_def)
  moreover have "p_receiver ?s' = p_receiver s" by (simp add: start_timer_def)
  ultimately show ?thesis using s by (auto simp: sender_change_def run_timer_def set_sender_def)
qed

text \<open>The serving peer since the start of a session.\<close>

definition server_from :: "session \<Rightarrow> bt_peer_t \<Rightarrow> int \<Rightarrow> handler \<Rightarrow> handler \<Rightarrow> bool" where
  "server_from se pb mx A0 A \<longleftrightarrow> config A = config A0 \<and> fs A = fs A0 \<and> sender_threads A = sender_threads A0 \<and>
     new_to pb A0 A \<and> pool_only p_receiver (sender_pool A) (sender_heap A) (se_sender se) mx"

lemma server_from_change:
  assumes "server_from se pb mx A0 A" "sender_change A (se_sender se) A'" "sender_threads A' = sender_threads A"
    and "sending A se n" "peer_heap (config A) (se_to se) = Some pb"
  shows "server_from se pb mx A0 A'"
proof -
  obtain s s' where s: "ar_heap (sender_heap A) (se_sender se) = Some s" "p_receiver s' = p_receiver s"
      "sender_heap A' = (sender_heap A)\<lparr>ar_heap := (ar_heap (sender_heap A))(se_sender se \<mapsto> s')\<rparr>"
      "sent A' = sent A \<or> (\<exists>b pe w. p_receiver s = Some b \<and> peer_heap (config A) b = Some pe \<and>
           sent A' = sent A @ [(sin_addr pe, sin_port pe, w)])"
    using assms(2) by (auto simp: sender_change_def)
  have "p_receiver s = Some (se_to se)" using assms(4) s(1) by (auto simp: sending_def sender_at_def)
  then have "new_to pb A0 A'" using s(4) assms(1,5) new_to_same [of pb A0 A A'] new_to_snoc [of pb A0 A A']
    by (auto simp: server_from_def)
  with assms(1-3) s pool_only_update [OF _ s(1,2)] show ?thesis by (simp add: server_from_def sender_change_def)
qed

lemma server_from_ack:
  assumes "server_from se pb mx A0 A" "process_ACK A pkt (Some (se_to se)) = Inr A'"
    and "sending A se n" "peer_heap (config A) (se_to se) = Some pb"
  shows "server_from se pb mx A0 A'"
proof -
  obtain ids where ids: "alone p_receiver (sender_pool A) (sender_heap A) (se_to se) (se_sender se) ids"
      "get_sender (sender_pool A) (sender_heap A) (Some (se_to se)) = Inr (if se_sender se \<in> set ids then Some (se_sender se) else None)"
    by (rule get_sender_alone [OF assms(3)])
  let ?r = "if se_sender se \<in> set ids then Some (se_sender se) else None"
  note ch = process_ACK_change [OF assms(2) ids(2)]
  consider "A' = A" | "sender_change A (se_sender se) A'" | s A1 where "se_sender se \<in> set ids" "ar_heap (sender_heap A) (se_sender se) = Some s"
      "A1 = set_sender A (se_sender se) (stop_timer s)" "remove_sender (sender_pool A1) (sender_heap A1) (Some (se_sender se)) = Inr (sender_pool A', sender_heap A')"
    using ch by (auto split: if_splits)
  then show ?thesis
  proof cases
    case 1
    with assms(1) show ?thesis by simp
  next
    case 2
    from server_from_change [OF assms(1) 2 _ assms(3,4)] ch show ?thesis by simp
  next
    case 3
    have "p_receiver (stop_timer s) = p_receiver s" by (simp add: stop_timer_def)
    note upd = pool_only_update [OF _ 3(2) this] alone_update [OF ids(1) 3(2) this]
    have A1: "sender_pool A1 = sender_pool A" "sender_heap A1 = (sender_heap A)\<lparr>ar_heap := (ar_heap (sender_heap A))(se_sender se \<mapsto> stop_timer s)\<rparr>"
      by (simp_all add: 3(3) set_sender_def)
    have "pool_only p_receiver (sender_pool A) (sender_heap A) (se_sender se) mx" using assms(1) by (simp add: server_from_def)
    then have "pool_only p_receiver (sender_pool A1) (sender_heap A1) (se_sender se) mx" unfolding A1 by (rule upd(1))
    from pool_only_remove_sender [OF this 3(4) refl _ 3(1)] upd(2) have
      "pool_only p_receiver (sender_pool A') (sender_heap A') (se_sender se) mx" by (simp add: A1 alone_def)
    with ch assms(1) new_to_same [of pb A0 A A'] show ?thesis by (simp add: server_from_def)
  qed
qed

section \<open>The asking side\<close>

text \<open>Of the chunks, only the data of \<open>ca\<close> and the state of the chunks with its hash change.\<close>

definition chunk_frame :: "nat \<Rightarrow> chunk_mem \<Rightarrow> chunk_mem \<Rightarrow> bool" where
  "chunk_frame ca mem mem' \<longleftrightarrow> (\<forall>b. (ch_heap mem' b = None) = (ch_heap mem b = None) \<and>
     holders (chunk_at mem' b) = holders (chunk_at mem b) \<and> chunk_id (chunk_at mem' b) = chunk_id (chunk_at mem b) \<and>
     key_at mem' b = key_at mem b \<and> (b \<noteq> ca \<longrightarrow> chunk_data (chunk_at mem' b) = chunk_data (chunk_at mem b)) \<and>
     (key_at mem b \<noteq> key_at mem ca \<longrightarrow> c_state (chunk_at mem' b) = c_state (chunk_at mem b)))"

lemma chunk_frame_refl [simp]: "chunk_frame ca mem mem"
  by (simp add: chunk_frame_def)

lemma chunk_frame_trans: "chunk_frame ca m1 m2 \<Longrightarrow> chunk_frame ca m2 m3 \<Longrightarrow> chunk_frame ca m1 m3"
  by (simp add: chunk_frame_def)

lemma chunk_frame_valid: "chunk_frame ca mem mem' \<Longrightarrow> valid mem as \<Longrightarrow> valid mem' as"
  by (simp add: chunk_frame_def valid_def) (metis not_Some_eq)

lemma data_step_frame:
  assumes "data_step B a ca rh ch"
  shows "chunk_frame ca (chunk_heap B) ch"
  using assms by (auto simp: data_step_def chunk_frame_def chunk_at_def key_at_def key_def split: if_splits)

lemma update_state_frame:
  assumes "mem_ok mem" "repr q xs" "valid mem xs" "ch_heap mem a = Some c"
  shows "\<exists>mem'. update_state mem q (Some a) st = Inr mem' \<and> mem_ok mem' \<and> chunk_frame a mem mem'"
proof (cases "List.find (\<lambda>b. key_at mem b = key_at mem a) xs")
  case None
  with update_state_spec [OF assms, of st] assms(1) show ?thesis by simp
next
  case (Some b)
  have b: "ch_heap mem b = Some (chunk_at mem b)" "key_at mem b = key_at mem a"
    using validD [OF assms(3)] find_SomeD [OF Some] by auto
  let ?mem = "mem\<lparr>ch_heap := (ch_heap mem)(b \<mapsto> (chunk_at mem b)\<lparr>c_state := max (c_state (chunk_at mem b)) st\<rparr>)\<rparr>"
  have "chunk_frame a mem ?mem"
    using b by (auto simp: chunk_frame_def chunk_at_upd key_at_def key_def)
  moreover have "mem_ok ?mem"
    using mem_ok_set [OF assms(1) b(1)] mem_okD [OF assms(1) b(1)] by (simp add: chunk_ok_def)
  ultimately show ?thesis using update_state_spec [OF assms, of st] Some by simp
qed

definition asker_from :: "session \<Rightarrow> bt_peer_t \<Rightarrow> int \<Rightarrow> nat list \<Rightarrow> handler \<Rightarrow> handler \<Rightarrow> bool" where
  "asker_from se pa mx xs B0 B \<longleftrightarrow> config B = config B0 \<and> fs B = fs B0 \<and> writable B = writable B0 \<and>
     down_chunks B = down_chunks B0 \<and> done_chunks B = done_chunks B0 \<and> receiver_threads B = receiver_threads B0 \<and>
     new_to pa B0 B \<and> mem_ok (chunk_heap B) \<and> repr (down_chunks B0) xs \<and> valid (chunk_heap B) xs \<and>
     chunk_frame (se_chunk se) (chunk_heap B0) (chunk_heap B) \<and>
     pool_only p_sender (receiver_pool B) (receiver_heap B) (se_receiver se) mx"

lemma pool_only_remove_receiver:
  assumes "pool_only p_sender pool ar c mx" "remove_receiver pool ar (Some a) = Inr pool'" "pool_ok p_sender pool ar ids" "a \<in> set ids"
  shows "pool_only p_sender pool' ar c mx"
proof -
  obtain p ids0 where p: "pool = Obj p" "max_num p = mx" "pool_ok p_sender pool ar ids0" "set ids0 \<subseteq> {c}"
    using assms(1) by (auto simp: pool_only_def)
  obtain p' where p': "pool' = Obj p'" "max_num p' = mx"
    using remove_receiver_max [of p ar a pool'] assms(2) p(1,2) by auto
  have "repr (workers p) ids" "repr (workers p) ids0"
    using assms(3) p(1,3) by (auto simp: pool_ok_def pool_rep_def)
  then have "ids = ids0" using cq.rep_items by (metis Inr_inject)
  then obtain ids' where "pool_ok p_sender pool' ar ids'" "set ids' = set ids0 - {a}"
    using remove_receiver_ok [OF assms(3,4)] assms(2) by auto
  with p' p(4) show ?thesis unfolding pool_only_def by auto
qed

lemma asker_data:
  assumes "receiver_side B se n" "process_DATA m B (arrived (data_packet (se_data se) i) junk) (Some (se_from se)) = Inr B'"
    and "i < CHUNK_PKTS" "length (se_data se) = BT_CHUNK_SIZE" "asker_from se pa mx xs B0 B" "peer_heap (config B) (se_from se) = Some pa"
  shows "asker_from se pa mx xs B0 B'"
proof -
  let ?a = "se_receiver se" and ?ca = "se_chunk se" and ?d = "se_data se"
  note fr = assms(5) [unfolded asker_from_def]
  obtain r ids where r: "ar_heap (receiver_heap B) ?a = Some r" "p_sender r = Some (se_from se)"
      and ids: "alone p_sender (receiver_pool B) (receiver_heap B) (se_from se) ?a ids" "n = CHUNK_PKTS \<longrightarrow> ?a \<notin> set ids"
      and rcv: "receiving B ?a ?ca ?d n" "n \<le> CHUNK_PKTS"
    using assms(1) by (auto simp: receiver_side_def)
  have get: "get_receiver (receiver_pool B) (receiver_heap B) (Some (se_from se)) = Inr (if ?a \<in> set ids then Some ?a else None)"
    by (rule receivers.get_conn [OF _ r]) (use ids in \<open>auto simp: alone_def\<close>)
  show ?thesis
  proof (cases "?a \<in> set ids")
    case False
    with get assms(2,5) show ?thesis by (auto simp: process_DATA_def)
  next
    case True
    with ids(2) rcv(2) have n: "n < CHUNK_PKTS" by (auto simp: le_less)
    define n' where "n' = (if i = n then Suc n else n)"
    obtain rh ch B1 where B1: "B1 = B\<lparr>receiver_heap := rh, chunk_heap := ch,
          sent := sent B @ [(sin_addr pa, sin_port pa, wire (ack_packet n'))]\<rparr>"
        "receiving B1 ?a ?ca ?d n'" "data_step B ?a ?ca rh ch"
        "process_DATA m B (arrived (data_packet ?d i) junk) (Some (se_from se)) =
          (if n' < CHUNK_PKTS then Inr B1 else finish_chunk m B1 ?a (the (ar_heap rh ?a)))"
      using process_DATA_step [OF _ rcv(1) assms(4) n assms(3,6), of m junk] get True unfolding n'_def by auto
    obtain r' where r': "p_sender r' = p_sender r" "rh = (receiver_heap B)\<lparr>ar_heap := (ar_heap (receiver_heap B))(?a \<mapsto> r')\<rparr>"
      using B1(3) r(1) by (auto simp: data_step_def)
    have pool: "pool_only p_sender (receiver_pool B) rh ?a mx"
      unfolding r'(2) using fr by (intro pool_only_update [OF _ r(1) r'(1)]) simp
    have al: "alone p_sender (receiver_pool B) rh (se_from se) ?a ids"
      unfolding r'(2) by (rule alone_update [OF ids(1) r(1) r'(1)])
    note mem = data_step_mem [OF B1(3)] data_step_frame [OF B1(3)]
    have B1f: "asker_from se pa mx xs B0 B1"
      using fr mem(1) [of xs] mem(2) pool chunk_frame_trans [of ?ca "chunk_heap B0" "chunk_heap B" ch] new_to_snoc [of pa B0 B B1]
      by (auto simp: asker_from_def B1(1))
    show ?thesis
    proof (cases "n' < CHUNK_PKTS")
      case True
      with B1(4) assms(2) B1f show ?thesis by simp
    next
      case False
      obtain r1 c1 where r1: "ar_heap rh ?a = Some r1" "r_chunk r1 = Some ?ca" and c1: "ch_heap ch ?ca = Some c1"
        using B1(2) by (auto simp: receiving_def B1(1))
      have "finish_chunk m B1 ?a (the (ar_heap rh ?a)) = Inr B'" using False B1(4) assms(2) by simp
      then obtain good mm pl where f: "update_state ch (down_chunks B) (Some ?ca) (if good then FINISHED else READY) = Inr mm"
          "remove_receiver (receiver_pool B) rh (Some ?a) = Inr pl" "B' = B1\<lparr>chunk_heap := mm, receiver_pool := pl\<rparr>"
        using r1 by (auto simp: finish_chunk_def rbind_Inr_iff B1(1))
      have B1m: "mem_ok ch" "repr (down_chunks B) xs" "valid ch xs" using B1f by (auto simp: asker_from_def B1(1))
      from update_state_frame [OF this c1, of "if good then FINISHED else READY"] f(1)
      have mm: "mem_ok mm" "chunk_frame ?ca ch mm" by auto
      have "pool_ok p_sender (receiver_pool B) rh ids" using al by (simp add: alone_def)
      note pl = pool_only_remove_receiver [OF pool f(2) this \<open>?a \<in> set ids\<close>]
      show ?thesis
        using B1f mm pl chunk_frame_valid [OF mm(2) B1m(3)] chunk_frame_trans [of ?ca "chunk_heap B0" ch mm] new_to_same [of pa B0 B1 B']
        by (simp add: asker_from_def f(3) B1(1))
    qed
  qed
qed

section \<open>The network\<close>

text \<open>
  Two peers with their addresses: the receiver thread of \<open>B\<close>, the new and the running sender threads and
  the timers of \<open>A\<close>, and the network, which delivers a datagram to the host it is addressed to as often
  and as late as it likes, with whatever lies behind it in the receive buffer.
\<close>

inductive two_peers :: "machine \<Rightarrow> bt_peer_t \<Rightarrow> bt_peer_t \<Rightarrow> handler \<times> handler \<Rightarrow> handler \<times> handler \<Rightarrow> bool" for m pa pb where
  receives: "0 < receiver_threads B \<Longrightarrow> receiver_round m B = Inr (go, B') \<Longrightarrow> two_peers m pa pb (A, B) (A, B')"
| enters: "a \<in> set (new_senders A) \<Longrightarrow> sender_enter A a = Inr A' \<Longrightarrow> two_peers m pa pb (A, B) (A', B)"
| sends: "a \<in> set (sender_threads A) \<Longrightarrow> sender_round A a = Inr (go, A') \<Longrightarrow> two_peers m pa pb (A, B) (A', B)"
| timer_begins: "i < length (timers A) \<Longrightarrow> timer_begin A i = Inr A' \<Longrightarrow> two_peers m pa pb (A, B) (A', B)"
| timer_ends: "i < length (timers A) \<Longrightarrow> timer_end A i = Inr A' \<Longrightarrow> two_peers m pa pb (A, B) (A', B)"
| to_asker: "(sin_addr pb, sin_port pb, w) \<in> set (sent A) \<Longrightarrow> packet_of_mem (w @ junk) = Inr q \<Longrightarrow>
    process_PKT m B q (sin_port pa) = Inr B' \<Longrightarrow> two_peers m pa pb (A, B) (A, B')"
| to_server: "(sin_addr pa, sin_port pa, w) \<in> set (sent B) \<Longrightarrow> packet_of_mem (w @ junk) = Inr q \<Longrightarrow>
    process_PKT m A q (sin_port pb) = Inr A' \<Longrightarrow> two_peers m pa pb (A, B) (A', B)"

text \<open>A session between the two, framed by the states \<open>A0\<close> and \<open>B0\<close> in which it starts.\<close>

definition framed :: "session \<Rightarrow> bt_peer_t \<Rightarrow> bt_peer_t \<Rightarrow> int \<Rightarrow> int \<Rightarrow> nat list \<Rightarrow> handler \<times> handler \<Rightarrow> handler \<times> handler \<Rightarrow> bool" where
  "framed se pa pb mxa mxb xs S0 S \<longleftrightarrow> transfer_inv se S \<and> server_from se pb mxa (fst S0) (fst S) \<and>
     asker_from se pa mxb xs (snd S0) (snd S)"

definition session_hosts :: "session \<Rightarrow> bt_peer_t \<Rightarrow> bt_peer_t \<Rightarrow> handler \<times> handler \<Rightarrow> bool" where
  "session_hosts se pa pb S0 \<longleftrightarrow> peer_heap (config (fst S0)) (se_to se) = Some pb \<and>
     peer_heap (config (snd S0)) (se_from se) = Some pa \<and> se_port_a se = sin_port pa \<and> se_port_b se = sin_port pb \<and>
     se_sent_a se = length (sent (fst S0)) \<and> se_sent_b se = length (sent (snd S0)) \<and>
     se_sender se \<in> set (sender_threads (fst S0))"

lemma new_to_in:
  assumes "new_to pe A0 A" "(ad, po, w) \<in> set (drop (length (sent A0)) (sent A))"
  shows "(sin_addr pe, sin_port pe, w) \<in> set (sent A)"
proof -
  have "ad = sin_addr pe \<and> po = sin_port pe" using assms by (auto simp: new_to_def)
  with in_set_dropD [OF assms(2)] show ?thesis by simp
qed

lemma framed_step:
  assumes "transfer_step m se S S'" "framed se pa pb mxa mxb xs S0 S" "session_hosts se pa pb S0"
  shows "framed se pa pb mxa mxb xs S0 S' \<and> two_peers m pa pb S S'"
  using assms(1,2)
proof (induction rule: transfer_step.induct)
  case (send A go A' B)
  then obtain n where n: "sending A se n" and fr: "server_from se pb mxa (fst S0) A"
    by (auto simp: framed_def transfer_inv_def)
  obtain s where s: "ar_heap (sender_heap A) (se_sender se) = Some s" by (rule sendingE [OF n])
  have go: "go" using sender_round_inv [OF _ s send(1)] n by (simp add: sending_def)
  then have "sender_change A (se_sender se) A'" "sender_threads A' = sender_threads A"
    using sender_round_change send(1) by auto
  from server_from_change [OF fr this n] assms(3) fr have "server_from se pb mxa (fst S0) A'"
    by (simp add: session_hosts_def server_from_def)
  moreover have "two_peers m pa pb (A, B) (A', B)"
    by (rule sends [OF _ send(1)]) (use assms(3) fr in \<open>simp add: session_hosts_def server_from_def\<close>)
  moreover have "transfer_inv se (A', B)"
    by (rule transfer_step_inv [OF transfer_step.send [OF send(1)]]) (use send(2) in \<open>simp add: framed_def\<close>)
  ultimately show ?case using send(2) by (simp add: framed_def)
next
  case (timer_starts i A A' B)
  then obtain n where n: "sending A se n" and fr: "server_from se pb mxa (fst S0) A"
    by (auto simp: framed_def transfer_inv_def)
  from timer_begin_change [OF timer_starts(3,1,2)] server_from_change [OF fr _ _ n] assms(3) fr
  have "server_from se pb mxa (fst S0) A'" by (simp add: session_hosts_def server_from_def)
  moreover have "transfer_inv se (A', B)"
    by (rule transfer_step_inv [OF transfer_step.timer_starts [OF timer_starts(1-3)]]) (use timer_starts(4) in \<open>simp add: framed_def\<close>)
  ultimately show ?case using timer_starts timer_begins [OF timer_starts(1,3)] by (simp add: framed_def)
next
  case (timer_fires i A A' B)
  then obtain n where n: "sending A se n" and fr: "server_from se pb mxa (fst S0) A"
    by (auto simp: framed_def transfer_inv_def)
  have hosts: "peer_heap (config A) (se_to se) = Some pb" using fr assms(3) by (simp add: session_hosts_def server_from_def)
  have "server_from se pb mxa (fst S0) A'"
    using timer_end_change [OF timer_fires(3,1,2)] server_from_change [OF fr _ _ n hosts] fr by auto
  moreover have "transfer_inv se (A', B)"
    by (rule transfer_step_inv [OF transfer_step.timer_fires [OF timer_fires(1-3)]]) (use timer_fires(4) in \<open>simp add: framed_def\<close>)
  ultimately show ?case using timer_fires timer_ends [OF timer_fires(1,3)] by (simp add: framed_def)
next
  case (data_arrives ad po w A junk p B B')
  then obtain n where n: "sending A se n" "receiver_side B se n" "length (se_data se) = BT_CHUNK_SIZE"
      and fr: "server_from se pb mxa (fst S0) A" "asker_from se pa mxb xs (snd S0) B"
    by (auto simp: framed_def transfer_inv_def)
  have "only (se_sent_a se) (sent A) {wire (data_packet (se_data se) i) | i. i < CHUNK_PKTS}"
    using n(1) by (simp add: sending_def)
  from only_in [OF this data_arrives(1)] obtain i where i: "w = wire (data_packet (se_data se) i)" "i < CHUNK_PKTS" by blast
  have port: "get_peer (config B) (se_port_a se) = Inr (Some (se_from se))" using n(2) by (simp add: receiver_side_def)
  from process_PKT_data [OF data_arrives(2) [unfolded i(1)] i(2) port] data_arrives(3)
  have "process_DATA m B (arrived (data_packet (se_data se) i) junk) (Some (se_from se)) = Inr B'" by simp
  from asker_data [OF n(2) this i(2) n(3) fr(2)] fr(2) assms(3)
  have "asker_from se pa mxb xs (snd S0) B'" by (simp add: session_hosts_def asker_from_def)
  moreover have "transfer_inv se (A, B')"
    by (rule transfer_step_inv [OF transfer_step.data_arrives [OF data_arrives(1-3)]]) (use data_arrives(4) in \<open>simp add: framed_def\<close>)
  moreover have "(sin_addr pb, sin_port pb, w) \<in> set (sent A)"
    using new_to_in [of pb "fst S0" A ad po w] fr(1) data_arrives(1) assms(3) by (simp add: server_from_def session_hosts_def)
  then have "two_peers m pa pb (A, B) (A, B')"
    by (rule to_asker [OF _ data_arrives(2)]) (use data_arrives(3) assms(3) in \<open>simp add: session_hosts_def\<close>)
  ultimately show ?case using fr(1) by (simp add: framed_def)
next
  case (ack_arrives ad po w B junk p A A')
  then obtain n where n: "sending A se n" "receiver_side B se n"
      and fr: "server_from se pb mxa (fst S0) A" "asker_from se pa mxb xs (snd S0) B"
    by (auto simp: framed_def transfer_inv_def)
  have "only (se_sent_b se) (sent B) {wire (ack_packet k) | k. k \<le> n}" using n(2) by (simp add: receiver_side_def)
  from only_in [OF this ack_arrives(1)] obtain k where k: "w = wire (ack_packet k)" by blast
  have port: "get_peer (config A) (se_port_b se) = Inr (Some (se_to se))" using n(1) by (simp add: sending_def)
  from process_PKT_ack [OF ack_arrives(2) [unfolded k] port] ack_arrives(3)
  have "process_ACK A (arrived (ack_packet k) junk) (Some (se_to se)) = Inr A'" by simp
  from server_from_ack [OF fr(1) this n(1)] fr(1) assms(3)
  have "server_from se pb mxa (fst S0) A'" by (simp add: session_hosts_def server_from_def)
  moreover have "transfer_inv se (A', B)"
    by (rule transfer_step_inv [OF transfer_step.ack_arrives [OF ack_arrives(1-3)]]) (use ack_arrives(4) in \<open>simp add: framed_def\<close>)
  moreover have "(sin_addr pa, sin_port pa, w) \<in> set (sent B)"
    using new_to_in [of pa "snd S0" B ad po w] fr(2) ack_arrives(1) assms(3) by (simp add: asker_from_def session_hosts_def)
  then have "two_peers m pa pb (A, B) (A', B)"
    by (rule to_server [OF _ ack_arrives(2)]) (use ack_arrives(3) assms(3) in \<open>simp add: session_hosts_def\<close>)
  ultimately show ?case using fr(2) by (simp add: framed_def)
qed

lemma framed_steps:
  assumes "(transfer_step m se)\<^sup>*\<^sup>* S S'" "framed se pa pb mxa mxb xs S0 S" "session_hosts se pa pb S0"
  shows "framed se pa pb mxa mxb xs S0 S' \<and> (two_peers m pa pb)\<^sup>*\<^sup>* S S'"
  using assms(1,2)
proof (induction rule: rtranclp_induct)
  case (step T U)
  with framed_step [OF step(2) _ assms(3)] show ?case by (meson rtranclp.rtrancl_into_rtrancl)
qed simp

section \<open>One chunk after the other\<close>

text \<open>
  \<open>asker_at k\<close>: the list has the hashes \<open>hs\<close>, its chunk objects lie from the address \<open>p\<close> on; the first \<open>k\<close>
  chunks of the file \<open>f\<close> are there, the others have not been asked for, and there is no connection. All
  chunks have the one holder \<open>a\<close>.
\<close>

definition chunks_at :: "byte list list \<Rightarrow> byte list \<Rightarrow> nat \<Rightarrow> nat \<Rightarrow> nat \<Rightarrow> chunk_mem \<Rightarrow> bool" where
  "chunks_at hs f a p k mem \<longleftrightarrow> (\<forall>i < length hs. key_at mem (p + i) = hex_string (hs ! i) \<and>
     holders_of (chunk_at mem (p + i)) = [Some a] \<and> chunk_id (chunk_at mem (p + i)) = int i \<and>
     (finished mem (p + i) \<longleftrightarrow> i < k) \<and> (i < k \<longrightarrow> chunk_data (chunk_at mem (p + i)) = block f i))"

definition asker_at :: "handler \<Rightarrow> byte list list \<Rightarrow> byte list \<Rightarrow> nat \<Rightarrow> nat \<Rightarrow> nat \<Rightarrow> handler \<Rightarrow> bool" where
  "asker_at B0 hs f a p k B \<longleftrightarrow> config B = config B0 \<and> fs B = fs B0 \<and> writable B = writable B0 \<and> 0 < receiver_threads B \<and>
     mem_ok (chunk_heap B) \<and> valid (chunk_heap B) [p..<p + length hs] \<and>
     (\<exists>j. j \<le> k \<and> j < length hs \<and> repr (down_chunks B) [p + j..<p + length hs] \<and> repr (done_chunks B) [p..<p + j]) \<and>
     chunks_at hs f a p k (chunk_heap B) \<and>
     (\<exists>pool. receiver_pool B = Obj pool \<and> 0 < max_num pool \<and> pool_ok p_sender (Obj pool) (receiver_heap B) [])"

definition server_at :: "machine \<Rightarrow> handler \<Rightarrow> handler \<Rightarrow> bool" where
  "server_at m A0 A \<longleftrightarrow> config A = config A0 \<and> fs A = fs A0 \<and> senders_inv A \<and>
     (\<exists>pool. pool_opened m A pool \<and> 0 < max_num pool \<and> pool_ok p_receiver (Obj pool) (sender_heap A) [])"

text \<open>What does not change: the two know each other, and the server has the file.\<close>

definition file_setting :: "machine \<Rightarrow> handler \<Rightarrow> handler \<Rightarrow> nat \<Rightarrow> bt_peer_t \<Rightarrow> nat \<Rightarrow> bt_peer_t \<Rightarrow> byte list list \<Rightarrow> byte list \<Rightarrow> bool" where
  "file_setting m A0 B0 a pa b pb hs f \<longleftrightarrow> knows B0 (sin_port pa) a pa \<and> knows A0 (sin_port pb) b pb \<and>
     108 \<le> heap_slack m \<and> 21 \<le> frame_slack m \<and> distinct hs \<and> (\<forall>h \<in> set hs. length h = 20) \<and>
     (\<forall>i < length hs. serves m A0 hs f i \<and> sha1_spec (block f i) = hs ! i)"

lemma pool_ok_empty:
  assumes "pool_ok peer_of (Obj pool) ar []"
  shows "cur_num pool = 0" "pool_rep pool []" "arena_ok ar []"
  using assms by (auto simp: pool_ok_def pool_rep_def)

lemma finished_split:
  assumes "chunks_at hs f a p k mem" "j \<le> k" "k \<le> length hs"
  shows "filter (\<lambda>c. \<not> finished mem c) [p + j..<p + length hs] = [p + k..<p + length hs]"
    "filter (finished mem) [p + j..<p + length hs] = [p + j..<p + k]"
proof -
  have fin: "finished mem c \<longleftrightarrow> c < p + k" if "p \<le> c" "c < p + length hs" for c
  proof -
    have "c - p < length hs" "p + (c - p) = c" using that by auto
    with assms(1) show ?thesis unfolding chunks_at_def by (metis add_less_cancel_left)
  qed
  have "[p + j..<p + length hs] = [p + j..<p + k] @ [p + k..<p + length hs]"
    using assms(2,3) upt_add_eq_append [of "p + j" "p + k" "length hs - k"] by simp
  moreover have "filter (\<lambda>c. \<not> finished mem c) [p + j..<p + k] = []" "filter (finished mem) [p + j..<p + k] = [p + j..<p + k]"
    "filter (\<lambda>c. \<not> finished mem c) [p + k..<p + length hs] = [p + k..<p + length hs]" "filter (finished mem) [p + k..<p + length hs] = []"
    using fin assms(2,3) by (auto simp: filter_empty_conv intro!: filter_True)
  ultimately show "filter (\<lambda>c. \<not> finished mem c) [p + j..<p + length hs] = [p + k..<p + length hs]"
    "filter (finished mem) [p + j..<p + length hs] = [p + j..<p + k]" by simp_all
qed

lemma asker_at_wants:
  assumes "asker_at B0 hs f a p k B" "k < length hs" "\<forall>h \<in> set hs. length h = 20"
  shows "wants B (p + k) a (hs ! k)"
proof -
  obtain j pool where j: "j \<le> k" "j < length hs" "repr (down_chunks B) [p + j..<p + length hs]" "repr (done_chunks B) [p..<p + j]"
      and pool: "receiver_pool B = Obj pool" "0 < max_num pool" "pool_ok p_sender (Obj pool) (receiver_heap B) []"
      and B: "mem_ok (chunk_heap B)" "valid (chunk_heap B) [p..<p + length hs]" "chunks_at hs f a p k (chunk_heap B)"
    using assms(1) by (auto simp: asker_at_def)
  have c: "holders_of (chunk_at (chunk_heap B) (p + k)) = [Some a]" "key_at (chunk_heap B) (p + k) = hex_string (hs ! k)"
    using B(3) assms(2) by (simp_all add: chunks_at_def)
  have "valid (chunk_heap B) [p + j..<p + length hs]" using B(2) by (simp add: valid_def)
  moreover have "filter (\<lambda>c. \<not> finished (chunk_heap B) c) [p + j..<p + length hs] = (p + k) # [Suc (p + k)..<p + length hs]"
    using finished_split(1) [OF B(3) j(1)] assms(2) by (simp add: upt_conv_Cons)
  moreover have "rarest (holder_count (chunk_heap B)) (p + k) xs = p + k" for xs
    using c(1) by (intro rarest_one) (simp add: holder_count_def)
  moreover have "get_receiver (Obj pool) (receiver_heap B) (Some a) = Inr None"
    using receivers.get_find [OF pool_ok_empty(2,3) [OF pool(3)]] by simp
  moreover have "length (hs ! k) = 20" using assms(2,3) by simp
  ultimately show ?thesis
    unfolding wants_def using j(3,4) B(1) pool pool_ok_empty(1) [OF pool(3)] c
    by (intro conjI exI [of _ "[p + j..<p + length hs]"] exI [of _ "[p..<p + j]"] exI [of _ pool] exI [of _ "[]"]
        exI [of _ "p + k"] exI [of _ "[Suc (p + k)..<p + length hs]"]) simp_all
qed

text \<open>The session for the chunk \<open>k\<close>.\<close>

definition chunk_session :: "handler \<Rightarrow> handler \<Rightarrow> nat \<Rightarrow> bt_peer_t \<Rightarrow> nat \<Rightarrow> bt_peer_t \<Rightarrow> byte list \<Rightarrow> nat \<Rightarrow> nat \<Rightarrow> session" where
  "chunk_session A B a pa b pb f p k = \<lparr>se_data = block f k, se_sender = ar_brk (sender_heap A), se_to = b,
     se_receiver = ar_brk (receiver_heap B), se_from = a, se_chunk = p + k, se_port_a = sin_port pa, se_port_b = sin_port pb,
     se_sent_a = length (sent A), se_sent_b = Suc (length (sent B))\<rparr>"

lemma alone_pool_only: "alone peer_of (Obj p) ar x a ids \<Longrightarrow> set ids \<subseteq> {c} \<Longrightarrow> pool_only peer_of (Obj p) ar c (max_num p)"
  by (auto simp: alone_def pool_only_def)

lemma add_receiver_max: "add_receiver pool ar x c = Inr (r, pool', ar') \<Longrightarrow> max_num pool' = max_num pool"
  by (auto simp: add_receiver_def Let_def rbind_Inr_iff split: if_splits)

lemma add_sender_max: "add_sender pool ar x ps k = Inr (r, pool', ar') \<Longrightarrow> max_num pool' = max_num pool"
  by (auto simp: add_sender_def Let_def rbind_Inr_iff split: if_splits)

lemma look_at_pool:
  assumes "look_at m st = Inr st'" "receiver_pool st = Obj pool"
  shows "\<exists>pool'. receiver_pool st' = Obj pool' \<and> max_num pool' = max_num pool"
proof -
  have snd: "receiver_pool st2 = receiver_pool st1" if "send_PKT st1 x y = Inr st2" for st1 st2 x y
    using that by (auto simp: send_PKT_def rbind_Inr_iff split: if_splits option.splits)
  have req: "\<exists>pool'. receiver_pool st2 = Obj pool' \<and> max_num pool' = max_num pool" if "request_chunk m st1 pool x y = Inr st2" for st1 st2 x y
    using that by (auto simp: request_chunk_def rbind_Inr_iff dest!: snd add_receiver_max)
  show ?thesis
    using assms by (auto simp: look_at_def Let_def rbind_Inr_iff dest!: req split: if_splits option.splits)
qed

lemma asker_asks:
  assumes "asker_at B0 hs f a p k B" "k < length hs" "file_setting m A0 B0 a pa b pb hs f"
    and se_def: "se = chunk_session A B a pa b pb f p k"
  shows "\<exists>B1 mx. receiver_round m B = Inr (True, B1) \<and> receiver_side B1 se 0 \<and>
    sent B1 = sent B @ [(sin_addr pa, sin_port pa, wire (get_packet (hs ! k)))] \<and>
    get_receiver (receiver_pool B1) (receiver_heap B1) (Some a) = Inr (Some (se_receiver se)) \<and> 0 < mx \<and>
    asker_from se pa mx [p + k..<p + length hs] B1 B1 \<and> repr (done_chunks B1) [p..<p + k] \<and>
    config B1 = config B0 \<and> fs B1 = fs B0 \<and> writable B1 = writable B0 \<and> 0 < receiver_threads B1 \<and>
    chunk_frame (p + k) (chunk_heap B) (chunk_heap B1)"
proof -
  obtain j pool where j: "j \<le> k" "j < length hs" "repr (down_chunks B) [p + j..<p + length hs]" "repr (done_chunks B) [p..<p + j]"
      and pool: "receiver_pool B = Obj pool" "0 < max_num pool" "pool_ok p_sender (Obj pool) (receiver_heap B) []"
      and B: "mem_ok (chunk_heap B)" "valid (chunk_heap B) [p..<p + length hs]" "chunks_at hs f a p k (chunk_heap B)"
        "config B = config B0" "fs B = fs B0" "writable B = writable B0" "0 < receiver_threads B"
    using assms(1) by (auto simp: asker_at_def)
  have set: "get_peer (config B) (sin_port pa) = Inr (Some a)" "peer_heap (config B) a = Some pa" "108 \<le> heap_slack m"
      "\<forall>h \<in> set hs. length h = 20"
    using assms(3) B(4) by (simp_all add: file_setting_def knows_def)
  have w: "wants B (p + k) a (hs ! k)" by (rule asker_at_wants [OF assms(1,2) set(4)])
  have se: "session_of_receiver B se (block f k) (p + k) a"
    using set(1) by (simp add: session_of_receiver_def se_def chunk_session_def)
  obtain B1 where B1: "look_at m B = Inr B1" "receiver_side B1 se 0"
      "sent B1 = sent B @ [(sin_addr pa, sin_port pa, wire (get_packet (hs ! k)))]"
      "get_receiver (receiver_pool B1) (receiver_heap B1) (Some a) = Inr (Some (se_receiver se))"
    using look_at_receiving [OF w se set(2,3)] by blast
  have c: "holders_of (chunk_at (chunk_heap B) (p + k)) = [Some a]" "key_at (chunk_heap B) (p + k) = hex_string (hs ! k)"
    using B(3) assms(2) by (simp_all add: chunks_at_def)
  have v: "valid (chunk_heap B) [p + j..<p + length hs]" using B(2) by (simp add: valid_def)
  have split: "filter (\<lambda>c. \<not> finished (chunk_heap B) c) [p + j..<p + length hs] = (p + k) # [Suc (p + k)..<p + length hs]"
    using finished_split(1) [OF B(3) j(1)] assms(2) by (simp add: upt_conv_Cons)
  have best: "p + k = rarest (holder_count (chunk_heap B)) (p + k) [Suc (p + k)..<p + length hs]"
    using c(1) by (intro rarest_one [symmetric]) (simp add: holder_count_def)
  have find: "List.find (\<lambda>h. get_receiver (Obj pool) (receiver_heap B) h = Inr None) (holders_of (chunk_at (chunk_heap B) (p + k))) = Some (Some a)"
    using receivers.get_find [OF pool_ok_empty(2,3) [OF pool(3)]] c(1) by simp
  have len: "length (hs ! k) = 20" "cur_num pool < max_num pool"
    using assms(2) set(4) pool_ok_empty(1) [OF pool(3)] pool(2) by simp_all
  obtain q dn mem pool' ar where L: "look_at m B = Inr (B\<lparr>down_chunks := q, done_chunks := dn, receiver_pool := Obj pool',
        receiver_heap := ar, chunk_heap := mem, sent := sent B @ [(sin_addr pa, sin_port pa, wire (get_packet (hs ! k)))]\<rparr>)"
      "repr q ((p + k) # [Suc (p + k)..<p + length hs])" "repr dn ([p..<p + j] @ filter (finished (chunk_heap B)) [p + j..<p + length hs])"
      "update_state (chunk_heap B) q (Some (p + k)) DOWNLOADING = Inr mem"
      "alone p_sender (Obj pool') ar a (ar_brk (receiver_heap B)) ([] @ [ar_brk (receiver_heap B)])"
    using look_at_step [OF B(1) j(3,4) v pool(1,3) len(2) split best find set(2) c(2) len(1), of m]
    unfolding if_not_P [OF leD [OF set(3)]] by (elim exE conjE) (rule that)
  have down: "(p + k) # [Suc (p + k)..<p + length hs] = [p + k..<p + length hs]" using assms(2) by (simp add: upt_conv_Cons)
  have dn: "[p..<p + j] @ filter (finished (chunk_heap B)) [p + j..<p + length hs] = [p..<p + k]"
    using finished_split(2) [OF B(3) j(1)] assms(2) j(1) upt_add_eq_append [of p "p + j" "k - j"] by simp
  have vk: "valid (chunk_heap B) [p + k..<p + length hs]" "\<exists>c. ch_heap (chunk_heap B) (p + k) = Some c"
    using B(2) assms(2) by (simp_all add: valid_def)
  obtain ck where "ch_heap (chunk_heap B) (p + k) = Some ck" using vk(2) by blast
  from update_state_frame [OF B(1) L(2) [unfolded down] vk(1) this, of DOWNLOADING] L(4)
  have mem: "mem_ok mem" "chunk_frame (p + k) (chunk_heap B) mem" by simp_all
  have mx: "max_num pool' = max_num pool" using look_at_pool [OF L(1) pool(1)] by simp
  have po: "pool_only p_sender (Obj pool') ar (se_receiver se) (max_num pool)"
    using alone_pool_only [OF L(5), of "se_receiver se"] mx by (simp add: se_def chunk_session_def)
  have eq: "B1 = B\<lparr>down_chunks := q, done_chunks := dn, receiver_pool := Obj pool',
        receiver_heap := ar, chunk_heap := mem, sent := sent B @ [(sin_addr pa, sin_port pa, wire (get_packet (hs ! k)))]\<rparr>"
    using L(1) B1(1) by simp
  have "is_empty (down_chunks B) = Inr False" using cq.rep_emp [OF j(3)] j(2) by auto
  then have round: "receiver_round m B = Inr (True, B1)" using B1(1) by (simp add: receiver_round_def)
  have "asker_from se pa (max_num pool) [p + k..<p + length hs] B1 B1"
    using L(2) mem po chunk_frame_valid [OF mem(2) vk(1)] unfolding down by (simp add: asker_from_def eq)
  moreover have "repr (done_chunks B1) [p..<p + k]" using L(3) unfolding dn by (simp add: eq)
  moreover have "config B1 = config B0 \<and> fs B1 = fs B0 \<and> writable B1 = writable B0 \<and> 0 < receiver_threads B1 \<and>
      chunk_frame (p + k) (chunk_heap B) (chunk_heap B1)"
    using B(4-7) mem(2) by (simp add: eq)
  ultimately show ?thesis using round B1(2-4) pool(2) by blast
qed

lemma server_serves:
  assumes "server_at m A0 A" "file_setting m A0 B0 a pa b pb hs f" "k < length hs"
    and se: "se = chunk_session A B a pa b pb f p k"
  shows "\<exists>q A1 A2 s mx lines. packet_of_mem (wire (get_packet (hs ! k)) @ junk) = Inr q \<and> process_PKT m A q (sin_port pb) = Inr A1 \<and>
    se_sender se \<in> set (new_senders A1) \<and> sender_enter A1 (se_sender se) = Inr A2 \<and> sending A2 se 0 \<and> log_file A2 = Obj lines \<and>
    get_sender (sender_pool A2) (sender_heap A2) (Some b) = Inr (Some (se_sender se)) \<and>
    ar_heap (sender_heap A2) (se_sender se) = Some s \<and> last_sent s = 0 \<and> last_acked s = 0 \<and> last_available s = 1 \<and>
    0 < mx \<and> server_from se pb mx A2 A2 \<and> config A2 = config A0 \<and> fs A2 = fs A0 \<and> sent A2 = sent A \<and>
    se_sender se \<in> set (sender_threads A2)"
proof -
  obtain pool where A: "config A = config A0" "fs A = fs A0" "senders_inv A" "pool_opened m A pool" "0 < max_num pool"
      "pool_ok p_receiver (Obj pool) (sender_heap A) []"
    using assms(1) by (auto simp: server_at_def)
  have set: "get_peer (config A) (sin_port pb) = Inr (Some b)" "peer_heap (config A) b = Some pb" "\<forall>h \<in> set hs. length h = 20"
      "serves m A hs f k"
    using assms(2,3) A(1,2) by (simp_all add: file_setting_def knows_def serves_def)
  have len: "length (hs ! k) = 20" using assms(3) set(3) by simp
  have ss: "session_of_sender A se (block f k) b"
    using set(1,2) by (simp add: session_of_sender_def se chunk_session_def)
  have free: "get_sender (Obj pool) (sender_heap A) (Some b) = Inr None" "cur_num pool < max_num pool"
    using senders.get_find [OF pool_ok_empty(2,3) [OF A(6)]] pool_ok_empty(1) [OF A(6)] A(5) by simp_all
  have data: "pkt_data (arrived (get_packet (hs ! k)) junk) = hs ! k @ junk" by (simp add: arrived_def get_packet_def)
  obtain q where q: "packet_of_mem (wire (get_packet (hs ! k)) @ junk) = Inr q" using get_readable [OF len] by blast
  have se_a: "se_sender se = ar_brk (sender_heap A)" "se_to se = b" by (simp_all add: se chunk_session_def)
  note GET = process_PKT_get [OF q len set(1), of m]
  obtain A1 s where A1: "process_PKT m A q (sin_port pb) = Inr A1" "sending A1 se 0" "new_senders A1 = new_senders A @ [se_sender se]"
      "sent A1 = sent A" "get_sender (sender_pool A1) (sender_heap A1) (Some b) = Inr (Some (se_sender se))"
      "ar_heap (sender_heap A1) (se_sender se) = Some s" "last_sent s = 0" "last_acked s = 0" "last_available s = 1"
    using process_GET_sending [OF A(3,4,6) free set(4) data ss] GET by auto
  obtain mem pool' ar' where G: "process_GET m A (arrived (get_packet (hs ! k)) junk) (Some b) = Inr (A\<lparr>chunk_heap := mem,
       sender_pool := Obj pool', sender_heap := ar', new_senders := new_senders A @ [ar_brk (sender_heap A)]\<rparr>)"
      "alone p_receiver (Obj pool') ar' b (ar_brk (sender_heap A)) ([] @ [ar_brk (sender_heap A)])"
    using process_GET_step [OF A(4,6) free set(4) data] by blast
  have eq: "A1 = A\<lparr>chunk_heap := mem, sender_pool := Obj pool', sender_heap := ar', new_senders := new_senders A @ [ar_brk (sender_heap A)]\<rparr>"
    using A1(1) GET G(1) by simp
  have "0 < max_num pool'"
    using G(2) by (auto simp: alone_def pool_ok_def pool_rep_def)
  moreover have "pool_only p_receiver (sender_pool A1) (sender_heap A1) (se_sender se) (max_num pool')"
    using alone_pool_only [OF G(2), of "se_sender se"] by (simp add: eq se_a)
  moreover have new: "se_sender se \<in> set (new_senders A1)" using A1(3) by simp
  obtain A2 s' lines where A2: "sender_enter A1 (se_sender se) = Inr A2" "sending A2 se 0" "log_file A2 = Obj lines"
      "get_sender (sender_pool A2) (sender_heap A2) (Some b) = Inr (Some (se_sender se))"
      "ar_heap (sender_heap A2) (se_sender se) = Some s'" "last_sent s' = 0" "last_acked s' = 0" "last_available s' = 1"
    using sender_enter_sending [OF A1(2) new A1(6), of "Some b"] A1(5,7-9) by auto
  note ch = sender_enter_change [OF A2(1)]
  obtain t t' where t: "ar_heap (sender_heap A1) (se_sender se) = Some t" "p_receiver t' = p_receiver t"
      "sender_heap A2 = (sender_heap A1)\<lparr>ar_heap := (ar_heap (sender_heap A1))(se_sender se \<mapsto> t')\<rparr>" "sender_pool A2 = sender_pool A1"
    using ch by (auto simp: sender_change_def)
  ultimately have "pool_only p_receiver (sender_pool A2) (sender_heap A2) (se_sender se) (max_num pool')"
    unfolding t(3,4) by (intro pool_only_update [OF _ t(1,2)])
  then have "server_from se pb (max_num pool') A2 A2" by (simp add: server_from_def)
  moreover have "config A2 = config A0 \<and> fs A2 = fs A0 \<and> sent A2 = sent A \<and> se_sender se \<in> set (sender_threads A2)"
    using ch A(1,2) by (simp add: sender_change_def eq)
  ultimately show ?thesis using q A1(1) new A2 \<open>0 < max_num pool'\<close> by blast
qed

context worker_pool
begin

lemma pool_gone:
  assumes "pool_only peer_of pool ar a mx" "ar_heap ar a = Some w" "peer_of w = Some x" "get pool ar (Some x) = Inr None"
  shows "\<exists>p. pool = Obj p \<and> max_num p = mx \<and> pool_ok peer_of (Obj p) ar []"
proof -
  obtain p ids where p: "pool = Obj p" "max_num p = mx" "pool_ok peer_of pool ar ids" "set ids \<subseteq> {a}"
    using assms(1) by (auto simp: pool_only_def)
  then have "pool_rep p ids" "arena_ok ar ids" by (auto simp: pool_ok_def)
  from get_None [OF this assms(4) [unfolded p(1)]] have "a \<notin> set ids" using assms(2,3) by (auto simp: worker_at_def)
  with p(4) have "ids = []" by (cases ids) auto
  with p show ?thesis by auto
qed

end

text \<open>What the transfer of the chunk \<open>k\<close> leaves is the state with one chunk more.\<close>

lemma asker_at_next:
  assumes "chunks_at hs f a p k mem" "chunk_frame (p + k) mem mem'" "k < length hs" "distinct hs" "\<forall>h \<in> set hs. length h = 20"
    and "ch_heap mem' (p + k) = Some c" "chunk_data c = block f k" "finished mem' b" "b \<in> set [p + k..<p + length hs]"
    and "key_at mem' b = hex_string (hs ! k)"
  shows "chunks_at hs f a p (Suc k) mem'"
proof -
  have fr: "holders (chunk_at mem' c) = holders (chunk_at mem c)" "chunk_id (chunk_at mem' c) = chunk_id (chunk_at mem c)"
      "key_at mem' c = key_at mem c" "c \<noteq> p + k \<Longrightarrow> chunk_data (chunk_at mem' c) = chunk_data (chunk_at mem c)"
      "key_at mem c \<noteq> key_at mem (p + k) \<Longrightarrow> c_state (chunk_at mem' c) = c_state (chunk_at mem c)" for c
    using assms(2) by (auto simp: chunk_frame_def)
  have ch: "key_at mem (p + i) = hex_string (hs ! i)" "holders_of (chunk_at mem (p + i)) = [Some a]" "chunk_id (chunk_at mem (p + i)) = int i"
      "finished mem (p + i) \<longleftrightarrow> i < k" "i < k \<Longrightarrow> chunk_data (chunk_at mem (p + i)) = block f i" if "i < length hs" for i
    using assms(1) that by (auto simp: chunks_at_def)
  obtain i where i: "b = p + i" "i < length hs" using assms(9) by (auto simp: le_iff_add)
  have "hs ! i = hs ! k" using assms(10) fr(3) ch(1) [OF i(2)] by (simp add: i(1) hex_string_inject)
  then have "i = k" using assms(3,4) i(2) by (simp add: nth_eq_iff_index_eq)
  then have fin: "finished mem' (p + k)" using assms(8) i(1) by simp
  have old: "finished mem' (p + i) \<longleftrightarrow> finished mem (p + i)" if "i < length hs" "i \<noteq> k" for i
  proof -
    have "hs ! i \<noteq> hs ! k" using that assms(3,4) by (simp add: nth_eq_iff_index_eq)
    then have "key_at mem (p + i) \<noteq> key_at mem (p + k)" using ch(1) that(1) assms(3) by (simp add: hex_string_inject)
    from fr(5) [OF this] show ?thesis by (simp add: finished_def)
  qed
  have data: "chunk_data (chunk_at mem' (p + k)) = block f k" using assms(6,7) by (simp add: chunk_at_def)
  have hol: "holders_of (chunk_at mem' c) = holders_of (chunk_at mem c)" for c by (simp add: holders_of_def fr(1))
  show ?thesis
    unfolding chunks_at_def using ch fr(2-4) hol old fin data by (auto simp: less_Suc_eq)
qed

lemma chunk_round:
  assumes "asker_at B0 hs f a p k B" "server_at m A0 A" "k < length hs" "file_setting m A0 B0 a pa b pb hs f"
  shows "\<exists>A' B'. (two_peers m pa pb)\<^sup>*\<^sup>* (A, B) (A', B') \<and> server_at m A0 A' \<and> asker_at B0 hs f a p (Suc k) B'"
proof -
  define se where "se = chunk_session A B a pa b pb f p k"
  have f: "se_data se = block f k" "se_from se = a" "se_to se = b" "se_chunk se = p + k" "se_port_a se = sin_port pa"
      "se_port_b se = sin_port pb" "se_sent_a se = length (sent A)" "se_sent_b se = Suc (length (sent B))"
    by (simp_all add: se_def chunk_session_def)
  have setting: "distinct hs" "\<forall>h \<in> set hs. length h = 20" "sha1_spec (block f k) = hs ! k" "serves m A0 hs f k" "21 \<le> frame_slack m"
      "peer_heap (config A0) b = Some pb" "peer_heap (config B0) a = Some pa"
    using assms(3,4) by (simp_all add: file_setting_def knows_def)
  obtain B1 mxb where B1: "receiver_round m B = Inr (True, B1)" "receiver_side B1 se 0"
      "sent B1 = sent B @ [(sin_addr pa, sin_port pa, wire (get_packet (hs ! k)))]"
      "get_receiver (receiver_pool B1) (receiver_heap B1) (Some a) = Inr (Some (se_receiver se))" "0 < mxb"
      "asker_from se pa mxb [p + k..<p + length hs] B1 B1" "repr (done_chunks B1) [p..<p + k]"
      "config B1 = config B0" "fs B1 = fs B0" "writable B1 = writable B0" "0 < receiver_threads B1"
      "chunk_frame (p + k) (chunk_heap B) (chunk_heap B1)"
    using asker_asks [OF assms(1,3,4) se_def] by blast
  obtain q A1 A2 s mxa lines where S: "packet_of_mem (wire (get_packet (hs ! k)) @ []) = Inr q" "process_PKT m A q (sin_port pb) = Inr A1"
      "se_sender se \<in> set (new_senders A1)" "sender_enter A1 (se_sender se) = Inr A2" "sending A2 se 0" "log_file A2 = Obj lines"
      "get_sender (sender_pool A2) (sender_heap A2) (Some b) = Inr (Some (se_sender se))"
      "ar_heap (sender_heap A2) (se_sender se) = Some s" "last_sent s = 0" "last_acked s = 0" "last_available s = 1"
      "0 < mxa" "server_from se pb mxa A2 A2" "config A2 = config A0" "fs A2 = fs A0" "sent A2 = sent A"
      "se_sender se \<in> set (sender_threads A2)"
    using server_serves [OF assms(2,4,3) se_def, of "[]"] by blast
  have "0 < receiver_threads B" using assms(1) by (simp add: asker_at_def)
  note step1 = two_peers.receives [OF this B1(1), of pa pb A]
  have "(sin_addr pa, sin_port pa, wire (get_packet (hs ! k))) \<in> set (sent B1)" by (simp add: B1(3))
  note step2 = two_peers.to_server [OF this S(1,2)]
  note step3 = two_peers.enters [OF S(3,4), of m pa pb B1]
  have B1a: "mem_ok (chunk_heap B1)" "repr (down_chunks B1) [p + k..<p + length hs]" "valid (chunk_heap B1) [p + k..<p + length hs]"
    using B1(6) by (simp_all add: asker_from_def)
  have chunks: "chunks_at hs f a p k (chunk_heap B)" using assms(1) by (simp add: asker_at_def)
  then have key: "key_at (chunk_heap B1) (p + k) = hex_string (hs ! k)"
    using B1(12) assms(3) by (simp add: chunks_at_def chunk_frame_def)
  have "ready A2 B1 se 0"
    unfolding ready_def f using S(5-11) B1(2,4) B1a key setting(3) assms(3) by auto
  from lockstep_completes [OF this _ setting(5)] serves_block [OF setting(4)] f
  obtain A' B' c d xs where R: "(transfer_step m se)\<^sup>*\<^sup>* (A2, B1) (A', B')" "ch_heap (chunk_heap B') (p + k) = Some c"
      "chunk_data c = block f k" "repr (down_chunks B') xs" "d \<in> set xs" "finished (chunk_heap B') d"
      "key_at (chunk_heap B') d = hex_string (hs ! k)" "get_receiver (receiver_pool B') (receiver_heap B') (Some a) = Inr None"
      "get_sender (sender_pool A') (sender_heap A') (Some b) = Inr None"
    by (auto simp: setting(3))
  have "framed se pa pb mxa mxb [p + k..<p + length hs] (A2, B1) (A2, B1)"
    using S(5,13) B1(2,6) serves_block [OF setting(4)] f by (auto simp: framed_def transfer_inv_def)
  moreover have "session_hosts se pa pb (A2, B1)"
    using setting(6,7) S(14,16,17) B1(3,8) f by (simp add: session_hosts_def)
  ultimately have fin: "framed se pa pb mxa mxb [p + k..<p + length hs] (A2, B1) (A', B')" "(two_peers m pa pb)\<^sup>*\<^sup>* (A2, B1) (A', B')"
    using framed_steps [OF R(1)] by blast+
  obtain n s' r where n: "sending A' se n" "ar_heap (sender_heap A') (se_sender se) = Some s'" "p_receiver s' = Some b"
      "ar_heap (receiver_heap B') (se_receiver se) = Some r" "p_sender r = Some a"
    using fin(1) f by (auto simp: framed_def transfer_inv_def sending_def sender_at_def receiver_side_def)
  have sf: "server_from se pb mxa A2 A'" and af: "asker_from se pa mxb [p + k..<p + length hs] B1 B'"
    using fin(1) by (simp_all add: framed_def)
  obtain pl where "sender_pool A' = Obj pl" "max_num pl = mxa" "pool_ok p_receiver (Obj pl) (sender_heap A') []"
    using senders.pool_gone [OF _ n(2,3) R(9)] sf by (auto simp: server_from_def)
  then have server: "server_at m A0 A'"
    using sf S(12,14,15) n(1) by (auto simp: server_at_def server_from_def sending_def pool_opened_def)
  obtain pl' where pl': "receiver_pool B' = Obj pl'" "max_num pl' = mxb" "pool_ok p_sender (Obj pl') (receiver_heap B') []"
    using receivers.pool_gone [OF _ n(4,5) R(8)] af by (auto simp: asker_from_def)
  have down: "down_chunks B' = down_chunks B1" "done_chunks B' = done_chunks B1" using af by (simp_all add: asker_from_def)
  then have "xs = [p + k..<p + length hs]" using R(4) B1a(2) cq.rep_items by (metis Inr_inject)
  moreover have frame: "chunk_frame (p + k) (chunk_heap B) (chunk_heap B')"
    using chunk_frame_trans [OF B1(12)] af f by (simp add: asker_from_def)
  ultimately have more1: "chunks_at hs f a p (Suc k) (chunk_heap B')"
    using R(2,3,5-7) by (intro asker_at_next [OF chunks frame assms(3) setting(1,2)]) simp_all
  have "valid (chunk_heap B') [p..<p + length hs]"
    using assms(1) by (intro chunk_frame_valid [OF frame]) (simp add: asker_at_def)
  then have "asker_at B0 hs f a p (Suc k) B'"
    using af B1 B1a(2) down pl' more1 assms(3) unfolding asker_at_def asker_from_def by (auto intro!: exI [of _ k])
  with server fin(2) step1 step2 step3 show ?thesis by (meson converse_rtranclp_into_rtranclp)
qed

lemma chunk_rounds:
  assumes "asker_at B0 hs f a p 0 B" "server_at m A0 A" "file_setting m A0 B0 a pa b pb hs f" "k \<le> length hs"
  shows "\<exists>A' B'. (two_peers m pa pb)\<^sup>*\<^sup>* (A, B) (A', B') \<and> server_at m A0 A' \<and> asker_at B0 hs f a p k B'"
  using assms(4)
proof (induction k)
  case 0
  with assms(1,2) show ?case by blast
next
  case (Suc k)
  then obtain A1 B1 where run: "(two_peers m pa pb)\<^sup>*\<^sup>* (A, B) (A1, B1)" "server_at m A0 A1" "asker_at B0 hs f a p k B1" by auto
  from chunk_round [OF run(3,2) _ assms(3)] Suc.prems
  obtain A2 B2 where "(two_peers m pa pb)\<^sup>*\<^sup>* (A1, B1) (A2, B2)" "server_at m A0 A2" "asker_at B0 hs f a p (Suc k) B2" by auto
  with run(1) show ?case by (meson rtranclp_trans)
qed

section \<open>The end of the download\<close>

lemma scanned:
  assumes "asker_at B0 hs f a p (length hs) B"
  shows "\<exists>B1. receiver_round m B = Inr (True, B1) \<and> repr (down_chunks B1) [] \<and> repr (done_chunks B1) [p..<p + length hs] \<and>
    chunk_heap B1 = chunk_heap B \<and> config B1 = config B0 \<and> fs B1 = fs B0 \<and> writable B1 = writable B0 \<and>
    0 < receiver_threads B1 \<and> (\<exists>pool. receiver_pool B1 = Obj pool)"
proof -
  obtain j pool where j: "j \<le> length hs" "j < length hs" "repr (down_chunks B) [p + j..<p + length hs]" "repr (done_chunks B) [p..<p + j]"
      and pool: "receiver_pool B = Obj pool" "0 < max_num pool" "pool_ok p_sender (Obj pool) (receiver_heap B) []"
      and B: "mem_ok (chunk_heap B)" "valid (chunk_heap B) [p..<p + length hs]" "chunks_at hs f a p (length hs) (chunk_heap B)"
        "config B = config B0" "fs B = fs B0" "writable B = writable B0" "0 < receiver_threads B"
    using assms by (auto simp: asker_at_def)
  have v: "valid (chunk_heap B) [p + j..<p + length hs]" using B(2) by (simp add: valid_def)
  note split = finished_split [OF B(3) j(1) order_refl]
  have "[p..<p + j] @ [p + j..<p + length hs] = [p..<p + length hs]"
    using j(1) upt_add_eq_append [of p "p + j" "length hs - j"] by simp
  then obtain q dn where q: "scan_chunk_done (chunk_heap B) (down_chunks B) (done_chunks B) = Inr (q, dn)" "repr q []"
      "repr dn [p..<p + length hs]"
    using scan_chunk_done_spec [OF j(3,4) v] by (auto simp: split elim!: ok_pairE)
  have "is_empty q = Inr True" using cq.rep_emp [OF q(2)] by simp
  then have "look_at m B = Inr (B\<lparr>down_chunks := q, done_chunks := dn\<rparr>)"
    using q(1) pool(1,2) pool_ok_empty(1) [OF pool(3)] by (simp add: look_at_def)
  moreover have "is_empty (down_chunks B) = Inr False" using cq.rep_emp [OF j(3)] j(2) by auto
  ultimately have "receiver_round m B = Inr (True, B\<lparr>down_chunks := q, done_chunks := dn\<rparr>)" by (simp add: receiver_round_def)
  with q(2,3) B pool(1) show ?thesis by (intro exI [of _ "B\<lparr>down_chunks := q, done_chunks := dn\<rparr>"]) simp
qed

lemma block_file_block: "block f i = file_block f i"
  by (simp add: block_def file_block_def)

lemma distinct_replicated: "distinct (concat (map (\<lambda>_. [a]) xs)) \<longleftrightarrow> length xs \<le> 1"
  by (cases xs rule: remdups_adj.cases) auto

lemma file_end:
  assumes "chunks_at hs f a p (length hs) (chunk_heap B)" "mem_ok (chunk_heap B)" "valid (chunk_heap B) [p..<p + length hs]"
    and "repr (down_chunks B) []" "repr (done_chunks B) [p..<p + length hs]" "receiver_pool B = Obj pool" "hs \<noteq> []" "length hs \<le> 4096"
    and "length f = length hs * BT_CHUNK_SIZE" "\<forall>i < length hs. sha1_spec (block f i) = hs ! i"
    and "writable B (output_file (config B))" "21 \<le> frame_slack m" "peer_heap (config B) a = Some pa"
  shows "if length hs = 1 then \<exists>B'. receiver_round m B = Inr (False, B') \<and> fs B' = (fs B)(output_file (config B) \<mapsto> f)
    else receiver_round m B = Inl Double_Free"
proof -
  let ?as = "[p..<p + length hs]" and ?num = "\<lambda>c. c - p"
  have "\<forall>c \<in> set ?as. file_chunk (chunk_heap B) f (\<lambda>_. [a]) ?num c"
  proof
    fix c assume "c \<in> set ?as"
    then obtain i where i: "c = p + i" "i < length hs" by (auto simp: le_iff_add)
    note ch = assms(1) [unfolded chunks_at_def, rule_format, OF i(2), folded i(1)]
    have h: "ch_heap (chunk_heap B) c = Some (chunk_at (chunk_heap B) c)" using validD [OF assms(3)] i by simp
    have "(i + 1) * BT_CHUNK_SIZE \<le> length f" unfolding assms(9) using i(2) by (intro mult_le_mono1) simp
    then show "file_chunk (chunk_heap B) f (\<lambda>_. [a]) ?num c"
      using ch h i assms(8,10) by (auto simp: file_chunk_def key_at_def block_file_block [symmetric])
  qed
  moreover have "\<forall>j < length f. j div BT_CHUNK_SIZE \<in> ?num ` set ?as"
  proof (intro allI impI)
    fix j assume "j < length f"
    then have "j div BT_CHUNK_SIZE < length hs" unfolding assms(9) by (rule less_mult_imp_div_less)
    then show "j div BT_CHUNK_SIZE \<in> ?num ` set ?as" by (intro image_eqI [of _ _ "p + j div BT_CHUNK_SIZE"]) auto
  qed
  moreover have "?as \<noteq> []" "is_empty (down_chunks B) = Inr True" using assms(7) cq.rep_emp [OF assms(4)] by simp_all
  ultimately have c2f: "chunks2file m B = (if distinct (concat (map (\<lambda>_. [a]) ?as)) \<and> (\<forall>p \<in> set (concat (map (\<lambda>_. [a]) ?as)).
        \<exists>x. peer_heap (config B) p = Some x)
      then Inr (B\<lparr>fs := (fs B)(output_file (config B) \<mapsto> f), receiver_pool := Freed,
       chunk_heap := (chunk_heap B)\<lparr>ch_heap := ch_heap (chunk_heap B) |` (- set ?as)\<rparr>,
       config := (config B)\<lparr>peer_heap := peer_heap (config B) |` (- set (concat (map (\<lambda>_. [a]) ?as)))\<rparr>,
       down_chunks := Freed, done_chunks := Freed\<rparr>)
      else Inl Double_Free)"
    and rr: "receiver_round m B = rbind (chunks2file m B) (\<lambda>st'. Inr (False, st'\<lparr>receiver_threads := receiver_threads st' - 1\<rparr>))"
    using chunks2file_step [OF assms(2,4,5) _ _ assms(11,12,6), of f "\<lambda>_. [a]" ?num] by (simp_all add: receiver_round_def)
  have "\<forall>p \<in> set (concat (map (\<lambda>_. [a]) ?as)). \<exists>x. peer_heap (config B) p = Some x" using assms(13) by simp
  moreover have "distinct (concat (map (\<lambda>_. [a]) ?as)) \<longleftrightarrow> length hs = 1"
    using assms(7) unfolding distinct_replicated by (cases hs) auto
  ultimately show ?thesis unfolding rr c2f using assms(13) by simp
qed

section \<open>The start of the download\<close>

lemma asker_starts:
  assumes "about_to_ask B ps hs" "repr dq (listed_addrs (chunk_heap B) hs)" "set hs \<subseteq> set own"
    and "noted mem (listed_addrs (chunk_heap B) hs) hs (\<lambda>h. if h \<in> set own then [Some a] else [])"
  shows "asker_at B hs f a (ch_brk (chunk_heap B)) 0 ((asked B ps hs dq)\<lparr>chunk_heap := mem\<rparr>)"
proof -
  let ?p = "ch_brk (chunk_heap B)" and ?as = "listed_addrs (chunk_heap B) hs"
  have b: "hs \<noteq> []" "0 < max_conn (config B)" "arena_ok (receiver_heap B) []"
    using assms(1) by (simp_all add: about_to_ask_def)
  have as: "?as = [?p..<?p + length hs]" by (simp add: listed_addrs_def)
  have n: "mem_ok mem" "valid mem ?as" "map (key_at mem) ?as = map hex_string hs" "\<forall>c \<in> set ?as. c_state (chunk_at mem c) = READY"
      "map (\<lambda>c. holders_of (chunk_at mem c)) ?as = map (\<lambda>h. if h \<in> set own then [Some a] else []) hs"
      "map (\<lambda>c. chunk_id (chunk_at mem c)) ?as = map int [0..<length hs]"
    using assms(4) by (simp_all add: noted_def)
  have "chunks_at hs f a ?p 0 mem"
    unfolding chunks_at_def
  proof (intro allI impI)
    fix i assume i: "i < length hs"
    then have "hs ! i \<in> set own" using assms(3) by auto
    moreover have "?p + i \<in> set ?as" using i by (simp add: as)
    ultimately show "key_at mem (?p + i) = hex_string (hs ! i) \<and> holders_of (chunk_at mem (?p + i)) = [Some a] \<and>
       chunk_id (chunk_at mem (?p + i)) = int i \<and> (finished mem (?p + i) \<longleftrightarrow> i < 0) \<and>
       (i < 0 \<longrightarrow> chunk_data (chunk_at mem (?p + i)) = block f i)"
      using n(4) arg_cong [OF n(3), of "\<lambda>xs. xs ! i"] arg_cong [OF n(5), of "\<lambda>xs. xs ! i"] arg_cong [OF n(6), of "\<lambda>xs. xs ! i"] i
      by (simp add: as finished_def)
  qed
  moreover have "pool_ok p_sender (Obj \<lparr>max_num = max_conn (config B), cur_num = 0, workers = init_queue\<rparr>) (receiver_heap B) []"
    using b(2,3) cq.rep_new by (simp add: pool_ok_def pool_rep_def)
  ultimately show ?thesis
    using n(1,2) assms(2) b cq.rep_new unfolding as asker_at_def by (auto simp: asked_def intro!: exI [of _ 0])
qed

section \<open>Properties\<close>

text \<open>
  C1. A whole file, from the download command to the end. A peer that is told to download a list of fewer
  than 74 chunks, on a network on which another peer has them all, gets them all: there is a run of the
  receiver thread of the one, the sender threads of the other and the network between them in which every
  datagram is delivered to the host it is addressed to and which ends with all chunks checked, in the
  queue of finished chunks, and with the bytes of the file. Then the receiver thread writes the file - if
  it has one chunk. With two chunks or more from the one peer the thread frees the peer once for each
  of them, and the program fails when the file is complete.
\<close>

theorem whole_file_fetched:
  assumes "about_to_ask B ps hs" "a \<in> set ps" "peer_id pa \<noteq> identity (config B)"
    and "file_setting m A B a pa b pb hs f" "length f = length hs * BT_CHUNK_SIZE"
    and "keeps A own" "set hs \<subseteq> set own" "server_at m A A" "writable B (output_file (config B))"
  shows "\<exists>B1 A' B' as. process_download m B = Inr B1 \<and> (two_peers m pa pb)\<^sup>*\<^sup>* (A, B1) (A', B') \<and>
    repr (down_chunks B') [] \<and> repr (done_chunks B') as \<and> map (key_at (chunk_heap B')) as = map hex_string hs \<and>
    concat (map (\<lambda>c. chunk_data (chunk_at (chunk_heap B') c)) as) = f \<and>
    (if length hs = 1 then \<exists>B''. receiver_round m B' = Inr (False, B'') \<and> fs B'' = (fs B)(output_file (config B) \<mapsto> f)
     else receiver_round m B' = Inl Double_Free)"
proof -
  let ?p = "ch_brk (chunk_heap B)" and ?n = "length hs"
  have b: "hs \<noteq> []" "?n < SHA_MAX_NUM" "distinct hs" "\<forall>h \<in> set hs. length h = 20"
    using assms(1) by (simp_all add: about_to_ask_def)
  have fs: "knows B (sin_port pa) a pa" "knows A (sin_port pb) b pb" "21 \<le> frame_slack m" "\<forall>i < ?n. sha1_spec (block f i) = hs ! i"
    using assms(4) by (simp_all add: file_setting_def)
  have mine: "filter (\<lambda>h. h \<in> set own) hs = hs" using assms(7) by (simp add: filter_id_conv subset_iff)
  obtain dq where dq: "process_download m B = Inr (asked B ps hs dq)" "repr dq (listed_addrs (chunk_heap B) hs)"
    using download_asks [OF assms(1)] by blast
  let ?B1 = "asked B ps hs dq"
  obtain q where q: "packet_of_mem (wire (hash_packet WHOHAS hs) @ []) = Inr q"
    using hash_packet_readable [OF b(4) less_imp_le [OF b(2)]] by blast
  obtain q' where q': "packet_of_mem (wire (hash_packet IHAVE hs) @ []) = Inr q'"
    using hash_packet_readable [OF b(4) less_imp_le [OF b(2)]] by blast
  obtain amem where A1: "process_PKT m A q (sin_port pb) = Inr (A\<lparr>chunk_heap := amem,
      sent := sent A @ [(sin_addr pb, sin_port pb, wire (hash_packet IHAVE hs))]\<rparr>)"
    using owner_answers [OF assms(6) b(3,4,2) fs(2) q mine [symmetric]] b(1) by auto
  let ?A1 = "A\<lparr>chunk_heap := amem, sent := sent A @ [(sin_addr pb, sin_port pb, wire (hash_packet IHAVE hs))]\<rparr>"
  obtain mem where B2: "process_PKT m ?B1 q' (sin_port pa) = Inr (?B1\<lparr>chunk_heap := mem\<rparr>)"
      "noted mem (listed_addrs (chunk_heap B) hs) hs (\<lambda>h. if h \<in> set own then [Some a] else [])"
    using asker_notes [OF assms(1) dq(2), of "sin_port pa" a own "[]" q' m] fs(1) q' mine by (auto simp: knows_def)
  let ?B2 = "?B1\<lparr>chunk_heap := mem\<rparr>"
  have step1: "two_peers m pa pb (A, ?B1) (?A1, ?B1)"
    by (rule two_peers.to_server [OF asked_peer [OF fs(1) assms(2,3)] q A1])
  have "(sin_addr pb, sin_port pb, wire (hash_packet IHAVE hs)) \<in> set (sent ?A1)" by simp
  note step2 = two_peers.to_asker [OF this q' B2(1)]
  have "server_at m A ?A1" using assms(8) by (auto simp: server_at_def senders_inv_def pool_opened_def)
  from chunk_rounds [OF asker_starts [OF assms(1) dq(2) assms(7) B2(2)] this assms(4) order_refl]
  obtain A' B' where run: "(two_peers m pa pb)\<^sup>*\<^sup>* (?A1, ?B2) (A', B')" "asker_at B hs f a ?p ?n B'" by auto
  obtain B3 pool where B3: "receiver_round m B' = Inr (True, B3)" "repr (down_chunks B3) []" "repr (done_chunks B3) [?p..<?p + ?n]"
      "chunk_heap B3 = chunk_heap B'" "config B3 = config B" "fs B3 = fs B" "writable B3 = writable B" "receiver_pool B3 = Obj pool"
    using scanned [OF run(2), of m] by blast
  have B': "0 < receiver_threads B'" "mem_ok (chunk_heap B')" "valid (chunk_heap B') [?p..<?p + ?n]" "chunks_at hs f a ?p ?n (chunk_heap B')"
    using run(2) by (simp_all add: asker_at_def)
  note step3 = two_peers.receives [OF B'(1) B3(1), of pa pb A']
  have "(two_peers m pa pb)\<^sup>*\<^sup>* (A, ?B1) (A', B3)"
    using step1 step2 run(1) step3 by (meson converse_rtranclp_into_rtranclp rtranclp.rtrancl_into_rtrancl)
  moreover have "map (key_at (chunk_heap B3)) [?p..<?p + ?n] = map hex_string hs"
    using B'(4) by (intro nth_equalityI) (simp_all add: chunks_at_def B3(4))
  moreover have "map (\<lambda>c. chunk_data (chunk_at (chunk_heap B3) c)) [?p..<?p + ?n] = map (\<lambda>i. take BT_CHUNK_SIZE (drop (BT_CHUNK_SIZE * i) f)) [0..<?n]"
    using B'(4) by (intro nth_equalityI) (simp_all add: chunks_at_def B3(4) block_def mult.commute)
  then have "concat (map (\<lambda>c. chunk_data (chunk_at (chunk_heap B3) c)) [?p..<?p + ?n]) = f"
    using assms(5) concat_map_blocks [of BT_CHUNK_SIZE f ?n] by (simp add: mult.commute)
  moreover have "if ?n = 1 then \<exists>B''. receiver_round m B3 = Inr (False, B'') \<and> fs B'' = (fs B3)(output_file (config B3) \<mapsto> f)
      else receiver_round m B3 = Inl Double_Free"
    using B'(2-4) B3(2-8) b(1,2) assms(5,9) fs(1,3,4)
    by (intro file_end [of hs f a ?p B3 pool]) (simp_all add: SHA_MAX_NUM_74 knows_def)
  ultimately show ?thesis using dq(1) B3(2,3) unfolding B3(5,6)
    by (intro exI [of _ ?B1] exI [of _ A'] exI [of _ B3] exI [of _ "[?p..<?p + ?n]"] conjI)
qed

section \<open>Applications\<close>

theorem whole_file_fetched_witness:
  "\<exists>B1 A' B' B''. process_download demo_machine (demo_reader [demo_hash]) = Inr B1 \<and>
    (two_peers demo_machine \<lparr>peer_id = 2, sin_addr = 9, sin_port = 80, peer_next = None\<rparr>
      \<lparr>peer_id = 2, sin_addr = 9, sin_port = 80, peer_next = None\<rparr>)\<^sup>*\<^sup>* (demo_keeper, B1) (A', B') \<and>
    receiver_round demo_machine B' = Inr (False, B'') \<and> fs B'' (output_file demo_config) = Some demo_data"
proof -
  let ?pe = "\<lparr>peer_id = 2, sin_addr = 9, sin_port = 80, peer_next = None\<rparr> :: bt_peer_t" and ?B = "demo_reader [demo_hash]"
  have ask: "about_to_ask ?B [7] [demo_hash]"
    by (rule demo_about_to_ask) (simp_all add: SHA_MAX_NUM_74 length_demo_hash)
  have "sin_port ?pe = 80" by simp
  then have setting: "file_setting demo_machine demo_keeper ?B 7 ?pe 7 ?pe [demo_hash] demo_data"
    using demo_reader_knows(1) [of "[demo_hash]"] demo_keeper_ready(2,7) length_demo_hash
    by (simp add: file_setting_def demo_block demo_hash_def)
  have len: "length demo_data = length [demo_hash] * BT_CHUNK_SIZE" by (simp add: demo_data_def)
  have server: "server_at demo_machine demo_keeper demo_keeper"
    unfolding server_at_def using demo_keeper_ready(3-5)
    by (intro conjI exI [of _ "\<lparr>max_num = 1, cur_num = 0, workers = init_queue\<rparr>"]) simp_all
  have other: "(7 :: nat) \<in> set [7]" "peer_id ?pe \<noteq> identity (config ?B)" "set [demo_hash] \<subseteq> set [demo_hash]" "writable ?B (output_file (config ?B))"
    by (simp_all add: demo_reader_knows) (simp add: demo_reader_def handler_start_def)
  have one: "length [demo_hash] = 1" by simp
  from whole_file_fetched [OF ask other(1,2) setting len demo_keeper_ready(1) other(3) server other(4), unfolded if_P [OF one] demo_reader_knows(2)]
  show ?thesis by (elim exE conjE, intro exI conjI) (assumption | simp)+
qed

end
