(* ===== verification/Total_Calls.thy ===== *)
theory Total_Calls
  imports Peer_C
begin

text \<open>
  Calls that end: \<open>ends r P\<close> says that the call \<open>r\<close> does not run for ever and, if it returns, returns a
  result with \<open>P\<close>. Unlike \<open>ok\<close> it allows faults, so it needs only the shape of the data: the rules of the
  collection \<open>ends\<close> cover the shared operations here (memory, buffers, numbers, SHA-1, queues, the list of
  peers).
\<close>

section \<open>Calls that end\<close>

definition ends :: "'a res \<Rightarrow> ('a \<Rightarrow> bool) \<Rightarrow> bool" where
  "ends r P \<longleftrightarrow> (case r of Inl e \<Rightarrow> e \<noteq> Diverges | Inr x \<Rightarrow> P x)"

named_theorems ends "rules for calls that end"

lemma ends_Inr_iff [simp]: "ends (Inr x) P = P x"
  by (simp add: ends_def)

lemma ends_Inl_iff [simp]: "ends (Inl e) P \<longleftrightarrow> e \<noteq> Diverges"
  by (simp add: ends_def)

lemma ends_iff: "ends r P \<longleftrightarrow> r \<noteq> Inl Diverges \<and> (\<forall>x. r = Inr x \<longrightarrow> P x)"
  by (cases r) auto

lemma ends_rbind [simp]: "ends (rbind r f) P \<longleftrightarrow> ends r (\<lambda>x. ends (f x) P)"
  by (cases r) auto

lemma ends_mono: "ends r P \<Longrightarrow> (\<And>x. r = Inr x \<Longrightarrow> P x \<Longrightarrow> Q x) \<Longrightarrow> ends r Q"
  by (cases r) auto

lemma endsD: "ends r P \<Longrightarrow> r = Inr x \<Longrightarrow> P x"
  by (simp add: ends_iff)

lemma ends_case_prod [ends]: "(\<And>a b. x = (a, b) \<Longrightarrow> ends (f a b) P) \<Longrightarrow> ends (case x of (a, b) \<Rightarrow> f a b) P"
  by (cases x) auto

lemma ends_case_option [ends]:
  "(x = None \<Longrightarrow> ends r P) \<Longrightarrow> (\<And>y. x = Some y \<Longrightarrow> ends (f y) P) \<Longrightarrow> ends (case x of None \<Rightarrow> r | Some y \<Rightarrow> f y) P"
  by (cases x) auto

lemma ends_if [ends]: "(c \<Longrightarrow> ends r P) \<Longrightarrow> (\<not> c \<Longrightarrow> ends r' P) \<Longrightarrow> ends (if c then r else r') P"
  by simp

lemma ends_Inr [ends]: "P x \<Longrightarrow> ends (Inr x) P"
  by simp

lemma ends_deref [ends]: "(\<And>a x. p = Some a \<Longrightarrow> h a = Some x \<Longrightarrow> P x) \<Longrightarrow> ends (deref h p) P"
  by (auto simp: deref_def split: option.split)

lemma ends_hfree [ends]: "(\<And>h'. h' \<subseteq>\<^sub>m h \<Longrightarrow> P h') \<Longrightarrow> ends (hfree h p) P"
  by (auto simp: hfree_def map_le_def split: option.split)

lemma ends_obj [ends]: "(\<And>x. p = Obj x \<Longrightarrow> P x) \<Longrightarrow> ends (obj p) P"
  by (cases p) auto

lemma ends_buf_read [ends]: "(length (take k (drop off b)) = k \<Longrightarrow> P (take k (drop off b))) \<Longrightarrow> ends (buf_read b off k) P"
  by (auto simp: buf_read_def)

lemma ends_buf_write [ends]: "(\<And>b'. length b' = length b \<Longrightarrow> P b') \<Longrightarrow> ends (buf_write b off src) P"
  by (auto simp: buf_write_def)

lemma ends_bget [ends]: "(i < length b \<Longrightarrow> P (b ! i)) \<Longrightarrow> ends (bget b i) P"
  by (auto simp: bget_def)

lemma ends_bset [ends]: "(\<And>b'. length b' = length b \<Longrightarrow> P b') \<Longrightarrow> ends (bset b i v) P"
  by (auto simp: bset_def)

lemma ends_memcmp [ends]: "(\<And>b. P b) \<Longrightarrow> ends (memcmp_eq x y n) P"
  by (auto simp: memcmp_eq_def intro!: ends)

lemma ends_strcpy [ends]: "(\<And>s. P s) \<Longrightarrow> ends (strcpy cap s) P"
  by (auto simp: strcpy_def)

section \<open>Buffers, packets and numbers\<close>

lemma ends_binary2hex_loop: "ends (binary2hex_loop i b len hex) (\<lambda>hex'. length hex' = length hex)"
proof (induction "len - i" arbitrary: i hex rule: less_induct)
  case less
  show ?case by (subst binary2hex_loop.simps) (auto intro!: ends ends_mono [OF less])
qed

lemma ends_binary2hex [ends]: "(\<And>h. length h = length hex \<Longrightarrow> P h) \<Longrightarrow> ends (binary2hex b len hex) P"
  by (auto simp: binary2hex_def intro!: ends ends_mono [OF ends_binary2hex_loop])

lemma ends_hex2binary_loop: "ends (hex2binary_loop i hex len b) (\<lambda>b'. length b' = length b)"
proof (induction "len - i" arbitrary: i b rule: less_induct)
  case less
  have "ends (hex2binary_loop (i + 2) hex len b') (\<lambda>b''. length b'' = length b)" if "i < len" "length b' = length b" for b'
    using less [of "i + 2" b'] that by simp
  then show ?case by (subst hex2binary_loop.simps) (auto intro!: ends simp del: add_2_eq_Suc')
qed

lemma ends_hex2binary [ends]: "(\<And>b'. length b' = length b \<Longrightarrow> P b') \<Longrightarrow> ends (hex2binary hex len b) P"
  by (auto simp: hex2binary_def intro!: ends_mono [OF ends_hex2binary_loop])

lemma ends_make_PKT [ends]: "(\<And>p. P p) \<Longrightarrow> ends (make_PKT t s k d) P"
  by (auto simp: make_PKT_def init_def Let_def intro!: ends)

lemma ends_wire_image [ends]: "(\<And>b. P b) \<Longrightarrow> ends (wire_image p) P"
  by (auto simp: wire_image_def Let_def intro!: ends)

lemma ends_pkt_parse_type [ends]: "(\<And>t. P t) \<Longrightarrow> ends (pkt_parse_type b) P"
  by (auto simp: pkt_parse_type_def)

lemma ends_init_var [ends]: "(\<And>x. v = Some x \<Longrightarrow> P x) \<Longrightarrow> ends (init_var v) P"
  by (auto simp: init_var_def split: option.split)

lemma ends_int_mult [ends]: "(\<And>x. P x) \<Longrightarrow> ends (int_mult a b) P"
  by (auto simp: int_mult_def)

lemma ends_u32_of_f32 [ends]: "(\<And>x. P x) \<Longrightarrow> ends (u32_of_f32 w) P"
  by (auto simp: u32_of_f32_def)

lemma ends_int_of_f32 [ends]: "(\<And>x. P x) \<Longrightarrow> ends (int_of_f32 w) P"
  by (auto simp: int_of_f32_def)

lemma ends_window_end [ends]: "(\<And>x. P x) \<Longrightarrow> ends (window_end b w) P"
  by (auto simp: window_end_def intro!: ends)

lemma ends_retransmit [ends]: "(\<And>s'. P s') \<Longrightarrow> ends (retransmit s a) P"
  by (auto simp: retransmit_def intro!: ends)

lemma ends_packet_of_mem [ends]: "(\<And>p. P p) \<Longrightarrow> ends (packet_of_mem b) P"
  by (cases b rule: packet_of_mem.cases) simp_all

section \<open>SHA-1\<close>

lemma copy_size:
  fixes l len :: u32
  assumes "l < 64" "0 < len" and n: "n = (if 64 - l > len then len else 64 - l)"
  shows "unat (len - n) < unat len" "l + n \<noteq> 64 \<Longrightarrow> l + n < 64"
proof -
  have l: "unat l < 64" using assms(1) by (simp add: word_less_nat_alt)
  then have left: "unat (64 - l) = 64 - unat l" by (simp add: unat_sub word_le_nat_alt)
  have pos: "0 < unat len" using assms(2) by (simp add: word_less_nat_alt)
  have un: "unat n = min (unat len) (64 - unat l)"
    using left by (auto simp: n word_less_nat_alt)
  then have "unat n \<le> unat len" by simp
  then have "unat (len - n) = unat len - unat n" by (simp add: unat_sub word_le_nat_alt)
  then show "unat (len - n) < unat len" using un pos l by simp
  have "unat (l + n) = unat l + unat n"
    using un l by (subst unat_add_lem [THEN iffD1]) simp_all
  then have "unat (l + n) \<le> 64" using un l by simp
  then have "l + n \<le> 64" by (simp add: word_le_nat_alt)
  then show "l + n \<noteq> 64 \<Longrightarrow> l + n < 64" by simp
qed

lemma ends_SHA1Update_loop:
  "bufferLength sc < 64 \<Longrightarrow> unat len < fuel \<Longrightarrow> ends (SHA1Update_loop fuel sc d len) (\<lambda>sc'. bufferLength sc' < 64)"
proof (induction fuel arbitrary: sc d len)
  case (Suc k)
  show ?case
  proof (cases "len = 0")
    case False
    define n where "n = (if 64 - bufferLength sc > len then len else 64 - bufferLength sc)"
    have "0 < len" using False by (simp add: word_neq_0_conv)
    note c = copy_size [OF Suc.prems(1) this n_def]
    have rest: "unat (len - n) < k" using c(1) Suc.prems(2) by simp
    have IH: "ends (SHA1Update_loop k sc' d' (len - n)) (\<lambda>sc'. bufferLength sc' < 64)"
      if "bufferLength sc' < 64" for sc' d'
      using Suc.IH [OF that rest] .
    show ?thesis
      unfolding SHA1Update_loop.simps [of "Suc k"] if_not_P [OF False] nat.case Let_def n_def [symmetric]
      by (simp only: ends_rbind) (intro ends IH, use c(2) in auto)
  next
    case True
    then show ?thesis using Suc.prems(1) by (simp add: SHA1Update_loop.simps)
  qed
qed simp

lemma ends_SHA1Update: "bufferLength sc < 64 \<Longrightarrow> ends (SHA1Update sc d len) (\<lambda>sc'. bufferLength sc' < 64)"
  by (simp add: SHA1Update_def ends_SHA1Update_loop)

lemma ends_SHA1Final: "bufferLength sc < 64 \<Longrightarrow> ends (SHA1Final sc) (\<lambda>r. True)"
  by (auto simp: SHA1Final_def Let_def intro!: ends_mono [OF ends_SHA1Update])

lemma ends_shahash [ends]: "(\<And>h. length h = length t \<Longrightarrow> P h) \<Longrightarrow> ends (shahash m str len t) P"
  by (auto simp: shahash_def SHA1Init_def local_context_def
      intro!: ends ends_mono [OF ends_SHA1Update] ends_mono [OF ends_SHA1Final])

lemma ends_check_chunk [ends]: "(\<And>b. P b) \<Longrightarrow> ends (check_chunk m c s) P"
  by (auto simp: check_chunk_def intro!: ends)

section \<open>Queues\<close>

text \<open>A queue pointer is NULL, dangling, or points to a well-formed queue.\<close>

definition queue_ok :: "'a qptr \<Rightarrow> bool" where
  "queue_ok q \<longleftrightarrow> (\<forall>x. q = Obj x \<longrightarrow> (\<exists>xs. repr q xs))"

lemma queue_ok_simps [simp, intro]: "queue_ok Null" "queue_ok Freed" "queue_ok init_queue" "repr q xs \<Longrightarrow> queue_ok q"
  using repr_init by (auto simp: queue_ok_def)

lemma queue_ok_cases:
  assumes "queue_ok q"
  obtains "q = Null" | "q = Freed" | xs where "repr q xs"
  using assms by (cases q) (auto simp: queue_ok_def)

lemma ends_enqueue [ends]: "queue_ok q \<Longrightarrow> (\<And>q'. queue_ok q' \<Longrightarrow> P q') \<Longrightarrow> ends (enqueue q x) P"
proof (erule queue_ok_cases)
  fix xs assume "repr q xs" and P: "\<And>q'. queue_ok q' \<Longrightarrow> P q'"
  from cq.rep_enq [OF this(1), of x] P show "ends (enqueue q x) P" by (auto simp: ok_iff)
qed (simp_all add: enqueue_def)

lemma ends_dequeue [ends]:
  "queue_ok q \<Longrightarrow> (\<And>y q'. queue_ok q' \<Longrightarrow> P (y, q')) \<Longrightarrow> ends (dequeue q) P"
proof (erule queue_ok_cases)
  fix xs assume q: "repr q xs" and P: "\<And>y q'. queue_ok q' \<Longrightarrow> P (y, q')"
  show "ends (dequeue q) P"
  proof (cases xs)
    case Nil
    then show ?thesis using q P [of q None] cq.rep_deq_Nil [of q] by simp
  next
    case (Cons y ys)
    then show ?thesis using q P cq.rep_deq_Cons [of q y ys] by (auto simp: ok_iff)
  qed
qed (simp_all add: dequeue_def)

lemma ends_is_empty [ends]: "(\<And>b. P b) \<Longrightarrow> ends (is_empty q) P"
  by (cases q) (auto simp: is_empty_def)

lemma ends_q_items [ends]: "queue_ok q \<Longrightarrow> (\<And>xs. repr q xs \<Longrightarrow> P xs) \<Longrightarrow> ends (q_items q) P"
  by (erule queue_ok_cases) (auto simp: q_items_def [of Null] q_items_def [of Freed] repr_items)

lemma ends_free_queue [ends]: "queue_ok q \<Longrightarrow> (\<And>xs. P xs) \<Longrightarrow> ends (free_queue q) P"
  by (erule queue_ok_cases) (auto simp: free_queue_def [of Null] free_queue_def [of Freed] free_queue_repr)

lemma ends_find_first: "(\<And>x. ends (test x) (\<lambda>b. True)) \<Longrightarrow> ends (find_first test xs) (\<lambda>r. True)"
  by (induction xs) (auto elim: ends_mono)

lemma ends_q_find [ends]:
  assumes "queue_ok q" "\<And>x. ends (test x) (\<lambda>b. True)" "\<And>r. P r"
  shows "ends (q_find q test) P"
  using assms(1)
proof (rule queue_ok_cases)
  fix xs assume "repr q xs"
  then show ?thesis using ends_mono [OF ends_find_first [of test xs, OF assms(2)] assms(3)] by (simp add: repr_find)
qed (simp_all add: q_find_def)

lemma ends_partition_loop [ends]:
  assumes "\<And>x. ends (test x) (\<lambda>b. True)"
  shows "queue_ok q \<Longrightarrow> queue_ok d \<Longrightarrow> (\<And>q' d'. queue_ok q' \<Longrightarrow> queue_ok d' \<Longrightarrow> P (q', d')) \<Longrightarrow>
    ends (partition_loop dequeue enqueue test n q d) P"
proof (induction n arbitrary: q d)
  case (Suc k)
  then show ?case by (auto intro!: ends ends_mono [OF assms])
qed simp

lemma ends_remove_loop [ends]:
  assumes "\<And>x. ends (test x) (\<lambda>b. True)"
  shows "queue_ok q \<Longrightarrow> (\<And>b q'. queue_ok q' \<Longrightarrow> P (b, q')) \<Longrightarrow> ends (remove_loop dequeue enqueue test n q) P"
proof (induction n arbitrary: q)
  case (Suc k)
  then show ?case by (auto intro!: ends ends_mono [OF assms])
qed simp

lemma ends_free_all [ends]: "(\<And>h'. h' \<subseteq>\<^sub>m h \<Longrightarrow> P h') \<Longrightarrow> ends (free_all h ps) P"
proof (induction ps arbitrary: h)
  case (Cons p ps)
  show ?case by (auto intro!: ends Cons.IH Cons.prems intro: map_le_trans)
qed simp

section \<open>The list of peers\<close>

text \<open>
  A peer is allocated after the one it points to, so addresses fall along the list. Freeing a peer keeps
  that.
\<close>

definition peers_fall :: "bt_peer_t heap \<Rightarrow> bool" where
  "peers_fall h \<longleftrightarrow> (\<forall>a p b. h a = Some p \<longrightarrow> peer_next p = Some b \<longrightarrow> b < a)"

definition config_ok :: "bt_config_t \<Rightarrow> bool" where
  "config_ok c \<longleftrightarrow> peers_fall (peer_heap c) \<and> (\<forall>a. peers c = Some a \<longrightarrow> a < peer_brk c)"

lemma peers_fallD: "peers_fall h \<Longrightarrow> h a = Some p \<Longrightarrow> peer_next p = Some b \<Longrightarrow> b < a"
  by (simp add: peers_fall_def)

lemma peers_fall_sub: "peers_fall h \<Longrightarrow> h' \<subseteq>\<^sub>m h \<Longrightarrow> peers_fall h'"
  by (fastforce simp: peers_fall_def map_le_def dom_def)

lemma config_ok_freed: "config_ok c \<Longrightarrow> h \<subseteq>\<^sub>m peer_heap c \<Longrightarrow> config_ok (c\<lparr>peer_heap := h\<rparr>)"
  using peers_fall_sub by (auto simp: config_ok_def)

lemma config_ok_add_peer: "config_ok c \<Longrightarrow> config_ok (add_peer c i ad po)"
  by (auto simp: config_ok_def peers_fall_def add_peer_def Let_def less_Suc_eq)

lemma config_ok_init: "config_ok bt_init"
  by (simp add: config_ok_def peers_fall_def bt_init_def)

lemma ends_find_peer:
  "peers_fall h \<Longrightarrow> (\<And>a. p = Some a \<Longrightarrow> a < n) \<Longrightarrow> ends (find_peer n h T p) (\<lambda>r. True)"
proof (induction n arbitrary: p)
  case 0
  then show ?case by (cases p) auto
next
  case (Suc k)
  show ?case
  proof (cases p)
    case (Some a)
    have "ends (find_peer k h T (peer_next pe)) (\<lambda>r. True)" if "h a = Some pe" for pe
      using Suc.prems(2) [OF Some] peers_fallD [OF Suc.prems(1) that] by (intro Suc.IH [OF Suc.prems(1)]) fastforce
    then show ?thesis by (auto simp: Some intro!: ends)
  qed simp
qed

lemma ends_dump_peers:
  "peers_fall h \<Longrightarrow> (\<And>a. p = Some a \<Longrightarrow> a < n) \<Longrightarrow> ends (dump_peers n h p) (\<lambda>r. True)"
proof (induction n arbitrary: p)
  case 0
  then show ?case by (cases p) auto
next
  case (Suc k)
  show ?case
  proof (cases p)
    case (Some a)
    have "ends (dump_peers k h (peer_next pe)) (\<lambda>r. True)" if "h a = Some pe" for pe
      using Suc.prems(2) [OF Some] peers_fallD [OF Suc.prems(1) that] by (intro Suc.IH [OF Suc.prems(1)]) fastforce
    then show ?thesis by (auto simp: Some intro!: ends)
  qed simp
qed

lemma ends_bt_dump_config [ends]: "config_ok c \<Longrightarrow> (\<And>out. P out) \<Longrightarrow> ends (bt_dump_config c) P"
  unfolding bt_dump_config_def ends_rbind by (rule ends_mono [OF ends_dump_peers]) (auto simp: config_ok_def)

lemma ends_get_peer [ends]: "config_ok c \<Longrightarrow> (\<And>p. P p) \<Longrightarrow> ends (get_peer c port) P"
  unfolding get_peer_def by (rule ends_mono [OF ends_find_peer]) (auto simp: config_ok_def)

lemma ends_bt_peer_info [ends]: "config_ok c \<Longrightarrow> (\<And>p. P p) \<Longrightarrow> ends (bt_peer_info c i) P"
  unfolding bt_peer_info_def by (rule ends_mono [OF ends_find_peer]) (auto simp: config_ok_def)

end
