(* ===== verification/No_Divergence.thy ===== *)
theory No_Divergence
  imports Total_Calls Sender_Invariant
begin

text \<open>
  Every step of the program ends, in every state it reaches. The loops that the model runs with fuel have enough
  of it: \<open>Diverges\<close> is never the result of a step. The invariant behind it (\<open>node_ok\<close>) says that linked
  structures are acyclic and every chunk object has its sizes. The rules for the operations of \<open>tracker.c\<close>,
  \<open>rcv_send.c\<close>, \<open>handler.c\<close> and \<open>input_buffer.c\<close> follow the order of those files.
\<close>

section \<open>Chunk memory\<close>

lemma ends_enqueue_rep: "repr q xs \<Longrightarrow> (\<And>q'. repr q' (xs @ [x]) \<Longrightarrow> P q') \<Longrightarrow> ends (enqueue q x) P"
  using cq.rep_enq [of q xs x] by (auto simp: ok_iff)

lemma mem_ok_freed: "mem_ok mem \<Longrightarrow> h \<subseteq>\<^sub>m ch_heap mem \<Longrightarrow> mem_ok (mem\<lparr>ch_heap := h\<rparr>)"
  by (fastforce simp: mem_ok_def map_le_def dom_def)

lemma mem_ok_new [simp]:
  "mem_ok mem \<Longrightarrow> chunk_ok c \<Longrightarrow> mem_ok (mem\<lparr>ch_heap := (ch_heap mem)(ch_brk mem \<mapsto> c), ch_brk := Suc (ch_brk mem)\<rparr>)"
  by (auto simp: mem_ok_def less_Suc_eq)

lemma chunk_queue: "mem_ok mem \<Longrightarrow> ch_heap mem a = Some c \<Longrightarrow> queue_ok (holders c)"
  by (auto simp: mem_ok_def chunk_ok_def)

lemma chunk_sizes: "mem_ok mem \<Longrightarrow> ch_heap mem a = Some c \<Longrightarrow> length (chunk_sha1 c) = 255 \<and> length (chunk_data c) = BT_CHUNK_SIZE"
  by (simp add: mem_ok_def chunk_ok_def)

lemma ends_init_chunk [ends]:
  "length (chunk_sha1 c) = 255 \<Longrightarrow> length (chunk_data c) = BT_CHUNK_SIZE \<Longrightarrow>
   (\<And>c'. chunk_ok c' \<Longrightarrow> P c') \<Longrightarrow> ends (init_chunk c i s) P"
proof -
  assume len: "length (chunk_sha1 c) = 255" "length (chunk_data c) = BT_CHUNK_SIZE" and P: "\<And>c'. chunk_ok c' \<Longrightarrow> P c'"
  show ?thesis
    by (auto simp: init_chunk_def chunk_ok_def len intro!: ends P repr_init)
qed

lemma ends_sscanf_chunk [ends]: "(\<And>i s'. length s' = length s \<Longrightarrow> P (i, s')) \<Longrightarrow> ends (sscanf_chunk l c s) P"
  by (auto simp: sscanf_chunk_def intro!: ends)

lemma ends_contains_chunk [ends]: "queue_ok q \<Longrightarrow> (\<And>r. P r) \<Longrightarrow> ends (contains_chunk mem q c) P"
  by (auto simp: contains_chunk_def intro!: ends)

lemma ends_update_state [ends]: "queue_ok q \<Longrightarrow> mem_ok mem \<Longrightarrow> (\<And>mem'. mem_ok mem' \<Longrightarrow> P mem') \<Longrightarrow> ends (update_state mem q c s) P"
proof -
  assume q: "queue_ok q" and mem: "mem_ok mem" and P: "\<And>mem'. mem_ok mem' \<Longrightarrow> P mem'"
  have "chunk_ok (x\<lparr>c_state := s\<rparr>)" if "ch_heap mem a = Some x" for a x
    using mem_okD [OF mem that] by (simp add: chunk_ok_def)
  then show ?thesis by (auto simp: update_state_def intro!: ends q P mem mem_ok_set [OF mem])
qed

lemma ends_add_holder [ends]: "queue_ok q \<Longrightarrow> mem_ok mem \<Longrightarrow> (\<And>mem'. mem_ok mem' \<Longrightarrow> P mem') \<Longrightarrow> ends (add_holder mem q c h) P"
proof -
  assume q: "queue_ok q" and mem: "mem_ok mem" and P: "\<And>mem'. mem_ok mem' \<Longrightarrow> P mem'"
  have "holders c \<noteq> Null \<and> ends (enqueue (holders c) h)
      (\<lambda>q. P (mem\<lparr>ch_heap := (ch_heap mem)(a \<mapsto> c\<lparr>holders := q\<rparr>)\<rparr>))" if c: "ch_heap mem a = Some c" for a c
  proof -
    obtain hs where hs: "repr (holders c) hs" and len: "length (chunk_sha1 c) = 255" "length (chunk_data c) = BT_CHUNK_SIZE"
      using mem_okD [OF mem c] by (auto simp: chunk_ok_def)
    then have "holders c \<noteq> Null" by (auto simp: repr_def)
    then show ?thesis
      using len by (auto simp: chunk_ok_def intro!: ends_enqueue_rep [OF hs] P mem_ok_set [OF mem c])
  qed
  then show ?thesis
    unfolding add_holder_def by (auto intro!: ends_contains_chunk q P mem ends_case_option ends_deref)
qed

lemma ends_add_holders [ends]: "queue_ok q \<Longrightarrow> mem_ok mem \<Longrightarrow> (\<And>mem'. mem_ok mem' \<Longrightarrow> P mem') \<Longrightarrow> ends (add_holders mem q as h) P"
  by (induction as arbitrary: mem) (auto intro!: ends)

lemma ends_choose_loop: "ends (choose_loop h b as) (\<lambda>r. True)"
  by (induction as arbitrary: b) (auto intro!: ends)

lemma ends_choose_chunk [ends]: "queue_ok q \<Longrightarrow> (\<And>r. P r) \<Longrightarrow> ends (choose_chunk_to_download mem q) P"
  by (auto simp: choose_chunk_to_download_def split: list.split intro!: ends ends_mono [OF ends_choose_loop])

lemma ends_scan_chunk_done [ends]:
  "queue_ok q \<Longrightarrow> queue_ok d \<Longrightarrow> (\<And>q' d'. queue_ok q' \<Longrightarrow> queue_ok d' \<Longrightarrow> P (q', d')) \<Longrightarrow> ends (scan_chunk_done mem q d) P"
  by (auto simp: scan_chunk_done_def intro!: ends)

lemma zero_chunk_sizes [simp]: "length (chunk_sha1 zero_chunk) = 255" "length (chunk_data zero_chunk) = BT_CHUNK_SIZE"
  by (simp_all add: zero_chunk_def)

lemma ends_list_chunks_loop: "queue_ok q \<Longrightarrow> mem_ok mem \<Longrightarrow>
  ends (list_chunks_loop ls mem q) (\<lambda>(q', mem'). queue_ok q' \<and> mem_ok mem')"
  by (induction ls arbitrary: mem q) (auto simp: alloc_chunk_def intro!: ends)

lemma ends_list_chunks [ends]:
  "mem_ok mem \<Longrightarrow> (\<And>q mem'. queue_ok q \<Longrightarrow> mem_ok mem' \<Longrightarrow> P (q, mem')) \<Longrightarrow> ends (list_chunks files mem f) P"
  by (auto simp: list_chunks_def intro!: ends ends_mono [OF ends_list_chunks_loop])

lemma ends_pkt2chunks_loop: "queue_ok q \<Longrightarrow> mem_ok mem \<Longrightarrow>
  ends (pkt2chunks_loop d i k mem q) (\<lambda>(q', mem'). queue_ok q' \<and> mem_ok mem')"
  by (induction k arbitrary: i mem q) (auto simp: alloc_chunk_def intro!: ends)

lemma ends_pkt2chunks [ends]:
  "mem_ok mem \<Longrightarrow> (\<And>q mem'. queue_ok q \<Longrightarrow> mem_ok mem' \<Longrightarrow> P (q, mem')) \<Longrightarrow> ends (pkt2chunks mem p t) P"
  by (auto simp: pkt2chunks_def intro!: ends ends_mono [OF ends_pkt2chunks_loop])

lemma ends_hash_list_loop [ends]: "(\<And>r. P r) \<Longrightarrow> ends (hash_list_loop h n i b d as) P"
  by (induction as arbitrary: i b d) (auto intro!: ends)

lemma ends_chunks2pkts_loop [ends]:
  "queue_ok q \<Longrightarrow> (\<And>q'. queue_ok q' \<Longrightarrow> P q') \<Longrightarrow> ends (chunks2pkts_loop h t n num k rest q) P"
  by (induction k arbitrary: rest q) (auto simp: Let_def intro!: ends)

lemma ends_chunks2pkts [ends]: "queue_ok q \<Longrightarrow> (\<And>q'. queue_ok q' \<Longrightarrow> P q') \<Longrightarrow> ends (chunks2pkts mem q t) P"
  by (auto simp: chunks2pkts_def Let_def intro!: ends)

lemma ends_which_loop [ends]: "queue_ok c \<Longrightarrow> queue_ok q \<Longrightarrow> (\<And>q'. queue_ok q' \<Longrightarrow> P q') \<Longrightarrow> ends (which_loop mem c as q) P"
  by (induction as arbitrary: q) (auto intro!: ends)

lemma ends_which_i_have [ends]:
  "mem_ok mem \<Longrightarrow> queue_ok w \<Longrightarrow> (\<And>q mem'. queue_ok q \<Longrightarrow> mem_ok mem' \<Longrightarrow> P (q, mem')) \<Longrightarrow> ends (which_i_have files mem w f) P"
  by (auto simp: which_i_have_def intro!: ends)

lemma ends_chunk2pkts_loop [ends]: "(\<And>r. P r) \<Longrightarrow> ends (chunk2pkts_loop d i k) P"
  by (induction k arbitrary: i P) (auto simp: make_DATA_def intro!: ends)

lemma ends_chunk2pkts [ends]: "(\<And>r. P r) \<Longrightarrow> ends (chunk2pkts c) P"
  by (auto simp: chunk2pkts_def make_DATA_def Let_def intro!: ends)

lemma ends_find_hash_loop [ends]: "(\<And>i s'. length s' = length s \<Longrightarrow> P (i, s')) \<Longrightarrow> ends (find_hash_loop h ls c s) P"
  by (induction ls arbitrary: c s) (auto intro!: ends)

lemma ends_get_data_chunk [ends]:
  "mem_ok mem \<Longrightarrow> (\<And>a mem'. mem_ok mem' \<Longrightarrow> P (a, mem')) \<Longrightarrow> ends (get_data_chunk m files mem f p) P"
proof -
  assume mem: "mem_ok mem" and P: "\<And>a mem'. mem_ok mem' \<Longrightarrow> P (a, mem')"
  have ok: "chunk_ok (c\<lparr>chunk_id := i, chunk_sha1 := s, chunk_data := fread_chunk g off (chunk_data c)\<rparr>)"
    if "chunk_ok c" "length s = length (chunk_sha1 c)" for c i s g off
    using that by (simp add: chunk_ok_def length_fread_chunk)
  have [simp]: "length (chunk_sha1 (junk_chunk m)) = 255" "length (chunk_data (junk_chunk m)) = BT_CHUNK_SIZE"
    by (simp_all add: junk_chunk_def)
  show ?thesis by (auto simp: get_data_chunk_def alloc_chunk_def ok mem intro!: ends P)
qed

lemma ends_free_chunk [ends]:
  "mem_ok mem \<Longrightarrow> (\<And>mem' ph'. mem_ok mem' \<Longrightarrow> ph' \<subseteq>\<^sub>m ph \<Longrightarrow> P (mem', ph')) \<Longrightarrow> ends (free_chunk mem ph c) P"
  by (auto simp: free_chunk_def intro!: ends mem_ok_freed dest: chunk_queue)

lemma ends_free_chunk_queue [ends]:
  "mem_ok mem \<Longrightarrow> queue_ok q \<Longrightarrow> (\<And>mem'. mem_ok mem' \<Longrightarrow> P mem') \<Longrightarrow> ends (free_chunk_queue mem q) P"
  by (auto simp: free_chunk_queue_def intro!: ends mem_ok_freed)

section \<open>Pools\<close>

definition pool_shape :: "pool_t cptr \<Rightarrow> bool" where
  "pool_shape pool \<longleftrightarrow> (\<forall>p. pool = Obj p \<longrightarrow> queue_ok (workers p))"

lemma pool_shape_simps [simp]: "pool_shape Null" "pool_shape Freed" "pool_shape (Obj p) = queue_ok (workers p)"
  by (simp_all add: pool_shape_def)

lemma ends_workers_block [ends]: "(\<And>q. queue_ok q \<Longrightarrow> P q) \<Longrightarrow> ends (workers_block m x k) P"
  by (auto simp: workers_block_def intro!: ends)

lemma ends_init_pools [ends]:
  "(\<And>p. queue_ok (workers p) \<Longrightarrow> P p) \<Longrightarrow> ends (init_sender_pool m x) P"
  "(\<And>p. queue_ok (workers p) \<Longrightarrow> P p) \<Longrightarrow> ends (init_receiver_pool m x) P"
  by (auto simp: init_sender_pool_def init_receiver_pool_def intro!: ends)

lemma ends_get_worker [ends]:
  "pool_shape pool \<Longrightarrow> (\<And>r. P r) \<Longrightarrow> ends (get_sender pool sa p) P"
  "pool_shape pool \<Longrightarrow> (\<And>r. P r) \<Longrightarrow> ends (get_receiver pool ra p) P"
  by (cases pool; auto simp: get_sender_def get_receiver_def intro!: ends)+

lemma ends_add_worker [ends]:
  "queue_ok (workers p) \<Longrightarrow> (\<And>r p' ar'. queue_ok (workers p') \<Longrightarrow> P (r, p', ar')) \<Longrightarrow> ends (add_sender p sa b ps k) P"
  "queue_ok (workers p) \<Longrightarrow> (\<And>r p' ar'. queue_ok (workers p') \<Longrightarrow> Q (r, p', ar')) \<Longrightarrow> ends (add_receiver p ra b c) Q"
  by (auto simp: add_sender_def add_receiver_def Let_def intro!: ends)

lemma ends_remove_sender [ends]:
  "pool_shape pool \<Longrightarrow> (\<And>p' ar'. pool_shape p' \<Longrightarrow> P (p', ar')) \<Longrightarrow> ends (remove_sender pool ar s) P"
  by (cases pool) (auto simp: remove_sender_def intro!: ends)

lemma ends_remove_receiver [ends]:
  "pool_shape pool \<Longrightarrow> (\<And>p'. pool_shape p' \<Longrightarrow> P p') \<Longrightarrow> ends (remove_receiver pool ar s) P"
  by (cases pool) (auto simp: remove_receiver_def intro!: ends)

section \<open>Handlers\<close>

definition handler_ok :: "handler \<Rightarrow> bool" where
  "handler_ok g \<longleftrightarrow> config_ok (config g) \<and> mem_ok (chunk_heap g) \<and> queue_ok (down_chunks g) \<and>
     queue_ok (done_chunks g) \<and> pool_shape (sender_pool g) \<and> pool_shape (receiver_pool g)"

lemma ends_send_PKT [ends]: "(\<And>x. P (g\<lparr>sent := x\<rparr>)) \<Longrightarrow> ends (send_PKT g p k) P"
proof -
  assume P: "\<And>x. P (g\<lparr>sent := x\<rparr>)"
  from P [of "sent g"] have "P g" by simp
  with P show ?thesis by (auto simp: send_PKT_def intro!: ends)
qed

lemma ends_send_to_peers:
  "peers_fall (peer_heap (config g)) \<Longrightarrow> (\<And>a. p = Some a \<Longrightarrow> a < n) \<Longrightarrow>
   ends (send_to_peers n g p k) (\<lambda>g'. \<exists>x. g' = g\<lparr>sent := x\<rparr>)"
proof (induction n arbitrary: p g)
  case 0
  then show ?case by (cases p) (auto intro: exI [of _ "sent g"])
next
  case (Suc n)
  show ?case
  proof (cases p)
    case None
    then show ?thesis by (auto intro: exI [of _ "sent g"])
  next
    case (Some a)
    have "ends (send_to_peers n (g\<lparr>sent := x\<rparr>) (peer_next pe) k) (\<lambda>g'. \<exists>x. g' = g\<lparr>sent := x\<rparr>)"
      if "peer_heap (config g) a = Some pe" for pe x
    proof -
      have "b < n" if "peer_next pe = Some b" for b
        using Suc.prems(2) [OF Some] peers_fallD [OF Suc.prems(1) \<open>peer_heap (config g) a = Some pe\<close> that] by simp
      then show ?thesis using Suc.IH [of "g\<lparr>sent := x\<rparr>" "peer_next pe"] Suc.prems(1) by simp
    qed
    note rest = this
    from rest [where x = "sent g"] have "ends (send_to_peers n g (peer_next pe) k) (\<lambda>g'. \<exists>x. g' = g\<lparr>sent := x\<rparr>)"
      if "peer_heap (config g) a = Some pe" for pe using that by simp
    with rest show ?thesis by (auto simp: Some intro!: ends)
  qed
qed

lemma ends_whohas_loop:
  "config_ok (config g) \<Longrightarrow> repr q xs \<Longrightarrow> length xs \<le> n \<Longrightarrow> ends (whohas_loop n g q) (\<lambda>g'. \<exists>x. g' = g\<lparr>sent := x\<rparr>)"
proof (induction xs arbitrary: n g q)
  case Nil
  then show ?case using cq.rep_deq_Nil [of q] by (auto simp: whohas_loop.simps [of n] intro: exI [of _ "sent g"])
next
  case (Cons p ps)
  then obtain q' where q': "dequeue q = Inr (Some p, q')" "repr q' ps" using cq.rep_deq_Cons [of q p ps] by (auto simp: ok_iff)
  obtain k where k: "n = Suc k" "length ps \<le> k" using Cons.prems(3) by (cases n) auto
  have send: "ends (send_to_peers (peer_brk (config g)) g (peers (config g)) p) (\<lambda>g'. \<exists>x. g' = g\<lparr>sent := x\<rparr>)"
    using Cons.prems(1) by (intro ends_send_to_peers) (auto simp: config_ok_def)
  have "ends (whohas_loop k (g\<lparr>sent := x\<rparr>) q') (\<lambda>g'. \<exists>x. g' = g\<lparr>sent := x\<rparr>)" for x
    using Cons.IH [OF _ q'(2) k(2), of "g\<lparr>sent := x\<rparr>"] Cons.prems(1) by simp
  then show ?case by (auto simp: whohas_loop.simps [of "Suc k"] k(1) q' intro!: ends_mono [OF send])
qed

lemma ends_whohas [ends]:
  assumes "config_ok (config g)" "queue_ok q" "\<And>x. P (g\<lparr>sent := x\<rparr>)"
  shows "ends (whohas_loop (queue_size q) g q) P"
  using assms(2)
proof (rule queue_ok_cases)
  assume "q = Null"
  then show ?thesis using assms(3) [of "sent g"] by (simp add: whohas_loop.simps [of _ g] dequeue_def)
next
  assume "q = Freed"
  then show ?thesis by (simp add: whohas_loop.simps [of _ g] dequeue_def)
next
  fix xs assume q: "repr q xs"
  have "queue_size q = length xs" using repr_length [OF q] by (auto simp: queue_size_def)
  show ?thesis
    unfolding \<open>queue_size q = length xs\<close> by (rule ends_mono [OF ends_whohas_loop [OF assms(1) q order_refl]]) (use assms(3) in auto)
qed

lemma ends_process_download: "handler_ok g \<Longrightarrow> ends (process_download m g) handler_ok"
  by (auto simp: process_download_def handler_ok_def Let_def intro!: ends)

lemma ends_not_correct [ends]: "(\<And>b. P b) \<Longrightarrow> ends (not_correct p) P"
  by (auto simp: not_correct_def correct_def Let_def intro!: ends)

lemma ends_process_WHOHAS: "handler_ok g \<Longrightarrow> ends (process_WHOHAS g p k) handler_ok"
  by (auto simp: process_WHOHAS_def handler_ok_def intro!: ends)

lemma ends_process_IHAVE: "handler_ok g \<Longrightarrow> ends (process_IHAVE g p k) handler_ok"
  by (auto simp: process_IHAVE_def handler_ok_def intro!: ends)

lemma ends_process_GET: "handler_ok g \<Longrightarrow> ends (process_GET m g p k) handler_ok"
  by (auto simp: process_GET_def handler_ok_def split: option.split intro!: ends)

lemma ends_store_data [ends]:
  "length (chunk_data c) = BT_CHUNK_SIZE \<Longrightarrow>
   (\<And>d. length d = BT_CHUNK_SIZE \<Longrightarrow> P (c\<lparr>chunk_data := d\<rparr>)) \<Longrightarrow> ends (store_data c n p) P"
  by (auto simp: store_data_def Let_def intro!: ends)

lemma ends_accept_data:
  assumes "handler_ok g"
  shows "ends (accept_data g p a) (\<lambda>g'. handler_ok g' \<and> receiver_pool g' = receiver_pool g)"
proof -
  have mem: "mem_ok (chunk_heap g)" using assms by (simp add: handler_ok_def)
  have "mem_ok ((chunk_heap g)\<lparr>ch_heap := (ch_heap (chunk_heap g))(b \<mapsto> c\<lparr>chunk_data := d\<rparr>)\<rparr>)"
    if c: "ch_heap (chunk_heap g) b = Some c" and d: "length d = BT_CHUNK_SIZE" for b c d
    using mem_okD [OF mem c] d by (intro mem_ok_set [OF mem c]) (simp add: chunk_ok_def)
  then show ?thesis
    using assms by (auto simp: accept_data_def handler_ok_def chunk_sizes [OF mem] intro!: ends)
qed

lemma ends_finish_chunk: "handler_ok g \<Longrightarrow> ends (finish_chunk m g a r) handler_ok"
  by (auto simp: finish_chunk_def handler_ok_def intro!: ends)

lemma ends_process_DATA: "handler_ok g \<Longrightarrow> ends (process_DATA m g p k) handler_ok"
  by (auto simp: process_DATA_def handler_ok_def [of g] make_ACK_def
      intro!: ends ends_mono [OF ends_accept_data] ends_finish_chunk) (auto simp: handler_ok_def)

lemma handler_ok_set_sender [simp]: "handler_ok (set_sender g a s) = handler_ok g"
  by (simp add: handler_ok_def set_sender_def)

lemma ends_cwnd2log [ends]: "(\<And>x. P (g\<lparr>log_file := x\<rparr>)) \<Longrightarrow> ends (cwnd2log g p w) P"
  by (auto simp: cwnd2log_def intro!: ends)

lemma ends_ack_window [ends]: "(\<And>r. P r) \<Longrightarrow> ends (ack_window s k) P"
  by (auto simp: ack_window_def Let_def intro!: ends)

lemma ends_process_ACK: "handler_ok g \<Longrightarrow> ends (process_ACK g p k) handler_ok"
  by (auto simp: process_ACK_def handler_ok_def set_sender_def Let_def split: option.split intro!: ends)

lemma ends_process_PKT: "handler_ok g \<Longrightarrow> ends (process_PKT m g p port) handler_ok"
  by (auto simp: process_PKT_def process_DENIED_def Let_def handler_ok_def [THEN iffD1] split: pkt_type.split
      intro!: ends ends_process_WHOHAS ends_process_IHAVE ends_process_GET ends_process_ACK ends_process_DATA)

section \<open>Threads\<close>

lemma handler_ok_run_timer [simp]: "handler_ok (run_timer g a s) = handler_ok g"
  by (simp add: handler_ok_def run_timer_def set_sender_def)

lemma ends_sender_enter: "handler_ok g \<Longrightarrow> ends (sender_enter g a) handler_ok"
  by (auto simp: sender_enter_def handler_ok_def run_timer_def set_sender_def intro!: ends)

lemma ends_sender_round: "handler_ok g \<Longrightarrow> ends (sender_round g a) (\<lambda>(go, g'). handler_ok g')"
  by (auto simp: sender_round_def sender_send_def Let_def handler_ok_def run_timer_def set_sender_def intro!: ends)

lemma ends_timer_begin: "handler_ok g \<Longrightarrow> ends (timer_begin g i) handler_ok"
  by (auto simp: timer_begin_def handler_ok_def split: option.split intro!: ends)

lemma ends_timer_end: "handler_ok g \<Longrightarrow> ends (timer_end g i) handler_ok"
  by (auto simp: timer_end_def t_start_end_def handler_ok_def set_sender_def split: option.split intro!: ends)

section \<open>The receiver thread\<close>

lemma ends_holder_loop [ends]: "pool_shape pool \<Longrightarrow> (\<And>r. P r) \<Longrightarrow> ends (holder_loop pool ar p hs) P"
  by (induction hs arbitrary: p) (auto intro!: ends)

lemma ends_request_chunk:
  "handler_ok g \<Longrightarrow> queue_ok (workers pool) \<Longrightarrow> ends (request_chunk m g pool p a) handler_ok"
  by (auto simp: request_chunk_def handler_ok_def get_request_def make_GET_def intro!: ends)

lemma ends_look_at: "handler_ok g \<Longrightarrow> ends (look_at m g) handler_ok"
proof -
  assume g: "handler_ok g"
  have req: "ends (request_chunk m (g\<lparr>down_chunks := q, done_chunks := d\<rparr>) pool p a) handler_ok"
    if "queue_ok q" "queue_ok d" "queue_ok (workers pool)" for q d pool p a
    using g that by (intro ends_request_chunk) (auto simp: handler_ok_def)
  have holders: "queue_ok (holders c)" if "ch_heap (chunk_heap g) a = Some c" for a c
    using g that chunk_queue by (auto simp: handler_ok_def)
  show ?thesis
    unfolding look_at_def Let_def using g
    by (auto simp: handler_ok_def intro!: ends req holders) (auto simp: handler_ok_def)
qed

lemma ends_write_loop:
  "mem_ok mem \<Longrightarrow> repr q xs \<Longrightarrow> length xs \<le> n \<Longrightarrow>
   ends (write_loop m n mem ph q out pos) (\<lambda>r. mem_ok (fst r) \<and> fst (snd r) \<subseteq>\<^sub>m ph \<and> queue_ok (fst (snd (snd r))))"
proof (induction xs arbitrary: n mem ph q out pos)
  case Nil
  then show ?case using repr_length [OF Nil.prems(2)] by (auto simp: write_loop.simps [of _ n])
next
  case (Cons x xs)
  obtain q' where q': "dequeue q = Inr (Some x, q')" "repr q' xs" using cq.rep_deq_Cons [OF Cons.prems(2)] by (auto simp: ok_iff)
  obtain d where d: "q = Obj d" "q_n d = int (length (x # xs))" using repr_length [OF Cons.prems(2)] by blast
  obtain k where k: "n = Suc k" "length xs \<le> k" using Cons.prems(3) by (cases n) auto
  have rest: "ends (write_loop m k mem' ph' q' out' pos') (\<lambda>r. mem_ok (fst r) \<and> fst (snd r) \<subseteq>\<^sub>m ph \<and> queue_ok (fst (snd (snd r))))"
    if "mem_ok mem'" "ph' \<subseteq>\<^sub>m ph" for mem' ph' out' pos'
    by (rule ends_mono [OF Cons.IH [OF that(1) q'(2) k(2)]]) (use that(2) map_le_trans in auto)
  show ?case
    using d q' Cons.prems(1)
    by (auto simp: write_loop.simps [of _ "Suc k"] k(1) Let_def intro!: ends rest simp del: of_nat_Suc)
qed

lemma ends_write [ends]:
  assumes "mem_ok mem" "queue_ok q"
    and "\<And>mem' ph' q' out'. mem_ok mem' \<Longrightarrow> ph' \<subseteq>\<^sub>m ph \<Longrightarrow> queue_ok q' \<Longrightarrow> P (mem', ph', q', out')"
  shows "ends (write_loop m (queue_size q) mem ph q out pos) P"
  using assms(2)
proof (rule queue_ok_cases)
  fix xs assume q: "repr q xs"
  then have n: "length xs \<le> queue_size q" using repr_length [OF q] by (auto simp: queue_size_def)
  show ?thesis by (rule ends_mono [OF ends_write_loop [OF assms(1) q n]]) (use assms(3) in auto)
qed (simp_all add: write_loop.simps [of m])

lemma ends_free_ptr [ends]: "(\<And>x. x = Null \<or> x = Freed \<Longrightarrow> P x) \<Longrightarrow> ends (free_ptr p) P"
  by (cases p) (auto simp: free_ptr_def)

lemma ends_chunks2file: "handler_ok g \<Longrightarrow> ends (chunks2file m g) handler_ok"
  by (auto simp: chunks2file_def handler_ok_def intro!: ends intro: config_ok_freed)

lemma ends_receiver_round: "handler_ok g \<Longrightarrow> ends (receiver_round m g) (\<lambda>(go, g'). handler_ok g')"
  by (auto simp: receiver_round_def intro!: ends ends_mono [OF ends_look_at] ends_mono [OF ends_chunks2file])
    (auto simp: handler_ok_def)

section \<open>Lines the user types\<close>

text \<open>
  The loop over the lines ends because the first NUL moves to the left.
\<close>

definition first_nul :: "byte list \<Rightarrow> nat" where
  "first_nul b = length (c_string b)"

lemma takeWhile_holds: "i < length (takeWhile T xs) \<Longrightarrow> T (xs ! i)"
  using nth_mem [of i "takeWhile T xs"] by (auto simp: takeWhile_nth dest: set_takeWhileD)

lemma first_nul_le:
  assumes "i < length b" "b ! i = 0"
  shows "first_nul b \<le> i"
proof (rule ccontr)
  assume "\<not> first_nul b \<le> i"
  then have "i < length (takeWhile (\<lambda>x. x \<noteq> 0) b)" by (simp add: first_nul_def c_string_def)
  then have "b ! i \<noteq> 0" by (rule takeWhile_holds)
  with assms(2) show False by simp
qed

lemma first_nul_nth: "first_nul b < length b \<Longrightarrow> b ! first_nul b = 0"
  using nth_length_takeWhile [of "\<lambda>x. x \<noteq> 0" b] by (simp add: first_nul_def c_string_def)

lemma userbuf_first_nul: "userbuf_shape b \<Longrightarrow> first_nul b \<le> USERBUF_SIZE \<and> b ! first_nul b = 0 \<and> 0 \<in> set b"
proof -
  assume b: "userbuf_shape b"
  then have le: "first_nul b \<le> USERBUF_SIZE" using first_nul_le [of USERBUF_SIZE b] by (simp add: userbuf_shape_def)
  then have "b ! first_nul b = 0" using b first_nul_nth [of b] by (simp add: userbuf_shape_def)
  moreover have "0 \<in> set b" using b nth_mem [of USERBUF_SIZE b] by (simp add: userbuf_shape_def)
  ultimately show ?thesis using le by simp
qed

lemma shift_line_nul:
  assumes "userbuf_shape b" "k < first_nul b"
  shows "first_nul (shift_line b k) < first_nul b"
proof -
  have n: "first_nul b \<le> USERBUF_SIZE" "b ! first_nul b = 0" using userbuf_first_nul [OF assms(1)] by auto
  have "first_nul b - Suc k < USERBUF_SIZE - k" "Suc k \<le> first_nul b" using n(1) assms(2) by simp_all
  then have "shift_line b k ! (first_nul b - (k + 1)) = b ! first_nul b"
    using assms n(1) by (simp add: shift_line_def nth_append userbuf_shape_def)
  moreover have "first_nul b - (k + 1) < length (shift_line b k)"
    using assms n(1) by (simp add: shift_line_def userbuf_shape_def)
  ultimately have "first_nul (shift_line b k) \<le> first_nul b - (k + 1)" using n(2) by (intro first_nul_le) auto
  then show ?thesis using assms(2) by simp
qed

lemma newline_before_nul:
  assumes "newline \<in> set (c_string b)"
  shows "length (takeWhile (\<lambda>c. c \<noteq> newline) b) < first_nul b"
proof -
  obtain i where i: "i < length (c_string b)" "c_string b ! i = newline" using assms by (auto simp: in_set_conv_nth)
  then have bi: "b ! i = newline" by (simp add: c_string_def takeWhile_nth)
  have "\<not> i < length (takeWhile (\<lambda>c. c \<noteq> newline) b)"
  proof
    assume lt: "i < length (takeWhile (\<lambda>c. c \<noteq> newline) b)"
    then have "b ! i \<noteq> newline" by (rule takeWhile_holds)
    with bi show False by simp
  qed
  with i(1) show ?thesis by (simp add: first_nul_def)
qed

lemma ends_line_loop:
  assumes h: "\<And>l s. Q s \<Longrightarrow> ends (h l s) Q"
  shows "userbuf_shape b \<Longrightarrow> first_nul b \<le> n \<Longrightarrow> Q s \<Longrightarrow>
    ends (line_loop n h b cur s) (\<lambda>(ub, s'). userbuf_shape (ub_buf ub) \<and> Q s')"
proof (induction n arbitrary: b cur s)
  case 0
  then have "newline \<notin> set (c_string b)" by (simp add: first_nul_def)
  then show ?case using 0 userbuf_first_nul [OF 0(1)] by (simp add: line_loop.simps)
next
  case (Suc n)
  let ?k = "length (takeWhile (\<lambda>c. c \<noteq> newline) b)"
  show ?case
  proof (cases "newline \<in> set (c_string b)")
    case False
    then show ?thesis using Suc.prems userbuf_first_nul [OF Suc.prems(1)] by (simp add: line_loop.simps)
  next
    case True
    have k: "?k < first_nul b" by (rule newline_before_nul [OF True])
    then have le: "?k < USERBUF_SIZE" using userbuf_first_nul [OF Suc.prems(1)] by simp
    have len: "length b = USERBUF_SIZE + 1" using Suc.prems(1) by (simp add: userbuf_shape_def)
    note run = shift_line_run [OF len less_imp_le [OF le]]
    have nul: "first_nul (shift_line b ?k) \<le> n"
      using shift_line_nul [OF Suc.prems(1) k] Suc.prems(2) by simp
    have "ends (h l s) (\<lambda>s'. ends (line_loop n h (shift_line b ?k) c s') (\<lambda>(ub, s'). userbuf_shape (ub_buf ub) \<and> Q s'))" for l c
      by (rule ends_mono [OF h [OF Suc.prems(3)]]) (rule Suc.IH [OF shift_line_shape [OF Suc.prems(1) le] nul])
    then show ?thesis
      using True by (simp add: line_loop.simps [of "Suc n"] Let_def run [simplified])
  qed
qed

lemma ends_process_user_input:
  assumes h: "\<And>l s. Q s \<Longrightarrow> ends (h l s) Q" and ub: "userbuf_shape (ub_buf ub)" and s: "Q s"
  shows "ends (process_user_input h data ub s) (\<lambda>(ub', s'). userbuf_shape (ub_buf ub') \<and> Q s')"
proof (cases "ub_cur ub \<ge> of_nat (USERBUF_SIZE - 1)")
  case False
  then have "unat (ub_cur ub) < USERBUF_SIZE" by (simp add: USERBUF_SIZE_def word_le_nat_alt)
  then have "unat (ub_cur ub) + length (take (USERBUF_SIZE - unat (ub_cur ub)) data) \<le> USERBUF_SIZE" by simp
  from userbuf_write [OF ub this] obtain b where
    b: "buf_write (ub_buf ub) (unat (ub_cur ub)) (take (USERBUF_SIZE - unat (ub_cur ub)) data) = Inr b" "userbuf_shape b"
    by blast
  have "first_nul b \<le> length b" by (simp add: first_nul_def length_c_string)
  from ends_line_loop [OF h b(2) this s] show ?thesis
    by (simp only: process_user_input_def if_not_P [OF False] Let_def b(1) rbind_simps)
qed (simp add: process_user_input_def)

section \<open>The program\<close>

definition node_ok :: "peer_node \<Rightarrow> bool" where
  "node_ok nd \<longleftrightarrow> handler_ok (globals nd) \<and> userbuf_shape (ub_buf (userbuf nd))"

lemma ends_spiffy_of_bytes [ends]: "(\<And>h. P h) \<Longrightarrow> ends (spiffy_of_bytes b) P"
  by (cases b rule: spiffy_of_bytes.cases) simp_all

lemma ends_spiffy_recvfrom [ends]: "(\<And>r. P r) \<Longrightarrow> ends (spiffy_recvfrom m sp b d) P"
  by (auto simp: spiffy_recvfrom_def Let_def split: option.split intro!: ends)

lemma ends_process_inbound_udp: "handler_ok g \<Longrightarrow> ends (process_inbound_udp m sp d g) handler_ok"
  by (auto simp: process_inbound_udp_def intro!: ends ends_process_PKT)

lemma handler_ok_names:
  "handler_ok (g\<lparr>config := (config g)\<lparr>chunk_file := c, output_file := out\<rparr>\<rparr>) = handler_ok g"
  by (simp add: handler_ok_def config_ok_def)

lemma ends_handle_user_input: "handler_ok g \<Longrightarrow> ends (handle_user_input m l g) handler_ok"
  by (auto simp: handle_user_input_def process_get_def handler_ok_names intro!: ends ends_process_download)

lemma ends_main_round: "node_ok nd \<Longrightarrow> ends (main_round m r nd) node_ok"
proof (cases r)
  case (Ready udp input)
  assume nd: "node_ok nd"
  have udp: "ends (case udp of None \<Rightarrow> Inr (globals nd) | Some d \<Rightarrow> process_inbound_udp m (spf nd) d (globals nd)) handler_ok"
    using nd by (auto simp: node_ok_def split: option.split intro: ends_process_inbound_udp)
  have input: "ends (case input of None \<Rightarrow> Inr (userbuf nd, g)
      | Some data \<Rightarrow> process_user_input (handle_user_input m) data (userbuf nd) g)
    (\<lambda>(ub, g). userbuf_shape (ub_buf ub) \<and> handler_ok g)" if "handler_ok g" for g
    using nd that by (auto simp: node_ok_def split: option.split intro!: ends_process_user_input ends_handle_user_input)
  show ?thesis
    unfolding main_round_def Ready select_result.case ends_rbind
    by (rule ends_mono [OF udp], rule ends_mono [OF input]) (auto simp: node_ok_def)
qed (simp add: main_round_def node_ok_def)

lemma ends_on_globals: "node_ok nd \<Longrightarrow> ends r handler_ok \<Longrightarrow> ends (on_globals nd r) node_ok"
  by (auto simp: on_globals_def node_ok_def elim: ends_mono)

lemma ends_peer_event: "node_ok nd \<Longrightarrow> ends (peer_event m e nd) node_ok"
proof -
  assume nd: "node_ok nd"
  then have g: "handler_ok (globals nd)" by (simp add: node_ok_def)
  have go: "ends (rbind r (\<lambda>(more, g'). Inr g')) handler_ok" if "ends r (\<lambda>(go, g'). handler_ok g')" for r :: "(bool \<times> handler) res"
    using that by (auto elim: ends_mono)
  show ?thesis
    using nd by (cases e) (auto simp: peer_event_def Let_def intro!: ends_main_round ends_on_globals
        ends_sender_enter ends_timer_begin ends_timer_end go ends_sender_round ends_receiver_round g simp del: ends_rbind)
qed

lemma ends_parse_options:
  "config_ok c \<Longrightarrow> ends (parse_options os c d) (\<lambda>(c', d'). config_ok c')"
proof (induction os arbitrary: c d)
  case (Cons o1 os)
  have same: "config_ok (c\<lparr>peer_list_file := x\<rparr>)" "config_ok (c\<lparr>has_chunk_file := x\<rparr>)" "config_ok (c\<lparr>chunk_file := x\<rparr>)"
    "config_ok (c\<lparr>max_conn := i\<rparr>)" "config_ok (c\<lparr>identity := i\<rparr>)" for x i
    using Cons.prems by (simp_all add: config_ok_def)
  show ?case by (cases o1) (auto intro!: ends Cons.IH Cons.prems same)
qed simp

lemma ends_parse_peer_lines: "config_ok c \<Longrightarrow> ends (parse_peer_lines g ls v c) config_ok"
  by (induction ls arbitrary: v c) (auto simp: config_ok_add_peer split: list.split option.split intro!: ends)

lemma ends_main: "ends (main env) node_ok"
proof -
  have list: "ends (bt_parse_peer_list g f c) config_ok" if "config_ok c" for g f c
    using that by (auto simp: bt_parse_peer_list_def split: option.split intro!: ends_parse_peer_lines)
  have port: "config_ok (c\<lparr>myport := x\<rparr>)" if "config_ok c" for c x
    using that by (simp add: config_ok_def)
  have start: "config_ok (testing_config t bt_init)" for t
    using config_ok_init by (simp add: testing_config_def config_ok_def)
  have cmd: "ends (bt_parse_command_line g f os (testing_config t bt_init) d) (\<lambda>(c, d'). config_ok c)" for g f os t d
    by (auto simp: bt_parse_command_line_def Let_def port
        intro!: ends ends_mono [OF ends_parse_options [OF start]] ends_mono [OF list])
  have run: "ends (peer_run env c) node_ok" if "config_ok c" for c
    using that by (auto simp: peer_run_def Let_def node_ok_def handler_ok_def handler_start_def mem_ok_def
        userbuf_shape_create split: prod.split intro!: ends)
  show ?thesis
    by (auto simp: main_def node_ok_def intro!: ends ends_mono [OF cmd] ends_mono [OF run])
qed

lemma reachable_node_ok: "reachable m env nd \<Longrightarrow> node_ok nd"
proof (induction rule: reachable.induct)
  case (start nd)
  then show ?case using endsD [OF ends_main] by blast
next
  case (step nd e nd')
  then show ?case using endsD [OF ends_peer_event] by blast
qed

section \<open>Properties\<close>

text \<open>
  C5. Every state the program reaches is well typed: a queue pointer is NULL, dangling or the head of a finite
  list that its length counts and its tail ends; the chunks in memory have the sizes the structure declares and
  a list of holders; the list of peers is acyclic; the pools point to such queues; and the user's buffer keeps
  its size and its closing NUL.
\<close>

theorem reachable_states_typed:
  assumes "reachable m env nd"
  shows "node_ok nd"
  by (rule reachable_node_ok [OF assms])

theorem reachable_states_typed_witness: "\<exists>nd. main demo_env = Inr nd \<and> node_ok nd"
  using demo_env_starts reachable_states_typed reachable.start by blast

text \<open>
  C6. Every step ends: neither the start of the program nor any step of any thread in any state the program
  reaches loops for ever, whatever datagram arrives and whatever is typed. Walks over lists of peers, holders and
  chunks, the loops that empty a queue, the loop over the lines typed and the loop of the hash function all
  terminate; a step returns or fails with a fault.
\<close>

theorem every_step_ends:
  "main env \<noteq> Inl Diverges \<and> (\<forall>nd e. reachable m env nd \<longrightarrow> peer_event m e nd \<noteq> Inl Diverges)"
  using ends_main [of env] ends_peer_event [OF reachable_node_ok] by (simp add: ends_iff)

theorem every_step_ends_witness:
  "\<exists>nd. main demo_env = Inr nd \<and> (\<forall>m. peer_event m (Main_Round (Ready None (Some [newline]))) nd \<noteq> Inl Diverges)"
  using demo_env_starts every_step_ends [of demo_env] reachable.start by blast

end
