(* ===== verification/Demo_Programs_C.thy ===== *)
theory Demo_Programs_C
  imports Spiffy_C Input_Buffer_C
begin

text \<open>
  The stand-alone programs: \<open>client.c\<close> sends one packet with a magic number through the network layer,
  \<open>server.c\<close> prints the magic number of every packet it receives, and \<open>test_input_buffer.c\<close> prints the
  lines typed. The command line, the socket number, the result of \<open>bind\<close>, \<open>getenv\<close> and \<open>inet_aton\<close> are
  arguments; the endless loops are modelled by one round.
\<close>

section \<open>The packet both programs declare\<close>

definition PACKETLEN :: nat where "PACKETLEN = 1500"
definition DEMO_BUFLEN :: nat where "DEMO_BUFLEN = 100"

record header_t =
  hd_magicnum :: u16
  hd_version :: byte
  hd_packet_type :: byte
  hd_header_len :: u16
  hd_packet_len :: u16
  hd_seq_num :: u32
  hd_ack_num :: u32

record data_packet_t =
  dp_header :: header_t
  dp_data :: "byte list"

definition data_packet_mem :: "data_packet_t \<Rightarrow> byte list" where
  "data_packet_mem p = (let h = dp_header p in le16 (hd_magicnum h) @ [hd_version h, hd_packet_type h] @
     le16 (hd_header_len h) @ le16 (hd_packet_len h) @ le32 (hd_seq_num h) @ le32 (hd_ack_num h) @ dp_data p)"

text \<open>The client's packet is a local variable: the program sets the magic number and clears the data.\<close>

definition stack_header :: "machine \<Rightarrow> header_t" where
  "stack_header m = (let b = stack_byte m in \<lparr>hd_magicnum = of_le16 (b 0) (b 1), hd_version = b 2, hd_packet_type = b 3,
     hd_header_len = of_le16 (b 4) (b 5), hd_packet_len = of_le16 (b 6) (b 7),
     hd_seq_num = of_le32 (b 8) (b 9) (b 10) (b 11), hd_ack_num = of_le32 (b 12) (b 13) (b 14) (b 15)\<rparr>)"

text \<open>The address 127.0.0.1 in network order.\<close>

definition loopback :: u32 where "loopback = 0x0100007F"

text \<open>\<open>argv[i]\<close>: the entry behind the last argument is NULL.\<close>

definition atoi_arg :: "byte list list \<Rightarrow> nat \<Rightarrow> int res" where
  "atoi_arg argv i =
     (if i < length argv then Inr (atoi (argv ! i)) else if i = length argv then Inl Null_Deref else Inl Out_Of_Bounds)"

section \<open>The client\<close>

text \<open>The exit code, the datagram handed to the kernel, and the number printed.\<close>

definition client_main ::
    "machine \<Rightarrow> (byte list \<Rightarrow> u32 option) \<Rightarrow> byte list option \<Rightarrow> int \<Rightarrow> bool \<Rightarrow> byte list list \<Rightarrow>
     (int \<times> (sockaddr_in \<times> byte list) option \<times> int option) res" where
  "client_main m inet_aton router fd bound argv =
     (if fd = 0 then Inl Assert_Failed
      else if length argv < 4 then Inr (1, None, None)
      else rbind (atoi_arg argv 2) (\<lambda>port.
           let myaddr = \<lparr>sa_inet = True, s_addr = loopback, s_port = htons (word_of_int port)\<rparr>
           in if \<not> bound then Inl Assert_Failed
              else rbind (atoi_arg argv 1) (\<lambda>node.
                   case spiffy_init inet_aton router spiffy_start node myaddr of (rc, sp) \<Rightarrow>
                   rbind (atoi_arg argv 3) (\<lambda>toport.
                   let toaddr = \<lparr>sa_inet = True, s_addr = loopback, s_port = htons (word_of_int toport)\<rparr>
                   in rbind (atoi_arg argv 4) (\<lambda>magic.
                      let pkt = \<lparr>dp_header = (stack_header m)\<lparr>hd_magicnum := htons (word_of_int magic)\<rparr>,
                                 dp_data = replicate DEMO_BUFLEN 0\<rparr>
                      in rbind (spiffy_sendto sp (data_packet_mem pkt) (16 + DEMO_BUFLEN) toaddr) (\<lambda>d.
                         Inr (0, d, Some magic)))))))"

section \<open>The server\<close>

text \<open>
  A \<open>bind\<close> that fails is only reported. \<open>server_start\<close> is the part before the loop: the exit code when the
  program is called with too few arguments, else the network layer and the buffer, a local variable.
\<close>

definition server_start ::
    "machine \<Rightarrow> (byte list \<Rightarrow> u32 option) \<Rightarrow> byte list option \<Rightarrow> byte list list \<Rightarrow> (int + spiffy \<times> byte list) res" where
  "server_start m inet_aton router argv =
     (if length argv < 3 then Inr (Inl 1)
      else rbind (atoi_arg argv 2) (\<lambda>port. rbind (atoi_arg argv 1) (\<lambda>node.
           let myaddr = \<lparr>sa_inet = True, s_addr = loopback, s_port = htons (word_of_int port)\<rparr>
           in case spiffy_init inet_aton router spiffy_start node myaddr of
                (rc, sp) \<Rightarrow> Inr (Inr (sp, map (stack_byte m) [0..<PACKETLEN])))))"

text \<open>One round: \<open>None\<close> when \<open>select\<close> reports nothing. The result of the receipt is not looked at.\<close>

definition server_round ::
    "machine \<Rightarrow> spiffy \<Rightarrow> (sockaddr_in \<times> byte list) option option \<Rightarrow> byte list \<Rightarrow> (u16 option \<times> byte list) res" where
  "server_round m sp ready buf =
     (case ready of
        None \<Rightarrow> Inr (None, buf)
      | Some dgram \<Rightarrow>
          rbind (buf_read buf 0 DEMO_BUFLEN) (\<lambda>old.
          rbind (spiffy_recvfrom m sp old dgram) (\<lambda>(n, got, from).
          rbind (buf_write buf 0 got) (\<lambda>buf'.
          rbind (bget buf' 0) (\<lambda>b0. rbind (bget buf' 1) (\<lambda>b1.
          Inr (Some (htons (of_le16 b0 b1)), buf')))))))"

section \<open>The test of the input buffer\<close>

definition printline :: "byte list \<Rightarrow> byte list \<Rightarrow> byte list \<Rightarrow> byte list res" where
  "printline cbdata line out = Inr (out @ cstr ''LINE:  '' @ line @ [newline] @ cstr ''CBDATA:  '' @ cbdata @ [newline])"

definition test_input_round :: "byte list \<Rightarrow> user_iobuf \<Rightarrow> byte list \<Rightarrow> (user_iobuf \<times> byte list) res" where
  "test_input_round data u out = process_user_input (printline (cstr ''Cows moo!'')) data u out"

section \<open>Client and server together\<close>

lemma data_packet_mem_magic:
  "\<exists>rest. data_packet_mem p = ucast (hd_magicnum (dp_header p)) # ucast (drop_bit 8 (hd_magicnum (dp_header p))) # rest
     \<and> length rest = 14 + length (dp_data p)"
  by (simp add: data_packet_mem_def Let_def le16_def)

text \<open>
  Without the simulator, what the client sends makes the server print the low 16 bits of the number the client
  was given.
\<close>

lemma client_server:
  assumes "fd \<noteq> 0" "length argv = 5" "length buf = PACKETLEN"
  shows "ok (client_main m inet_aton None fd True argv) (\<lambda>(rc, d, magic). rc = 0 \<and> magic = Some (atoi (argv ! 4)) \<and>
    (\<exists>dest bytes. d = Some (dest, bytes) \<and> length bytes = 116 \<and>
      (\<forall>from. ok (server_round m spiffy_start (Some (Some (from, bytes))) buf)
        (\<lambda>(printed, buf'). printed = Some (word_of_int (atoi (argv ! 4))) \<and> length buf' = PACKETLEN))))"
proof -
  let ?h = "htons (word_of_int (atoi (argv ! 4)))"
  define pkt where "pkt = \<lparr>dp_header = (stack_header m)\<lparr>hd_magicnum := ?h\<rparr>, dp_data = replicate DEMO_BUFLEN 0\<rparr>"
  obtain rest where rest: "data_packet_mem pkt = ucast ?h # ucast (drop_bit 8 ?h) # rest" "length rest = 114"
    using data_packet_mem_magic [of pkt] by (auto simp: pkt_def DEMO_BUFLEN_def)
  have send: "client_main m inet_aton None fd True argv =
      Inr (0, Some (\<lparr>sa_inet = True, s_addr = loopback, s_port = htons (word_of_int (atoi (argv ! 3)))\<rparr>, data_packet_mem pkt),
        Some (atoi (argv ! 4)))"
    using assms(1,2) rest
    by (simp add: client_main_def atoi_arg_def Let_def spiffy_init_def spiffy_sendto_def buf_read_def DEMO_BUFLEN_def
        spiffy_start_def flip: pkt_def [unfolded DEMO_BUFLEN_def])
  have "ok (server_round m spiffy_start (Some (Some (from, data_packet_mem pkt))) buf)
      (\<lambda>(printed, buf'). printed = Some (word_of_int (atoi (argv ! 4))) \<and> length buf' = PACKETLEN)" for "from"
    using assms(3) rest
    by (simp add: server_round_def spiffy_recvfrom_def spiffy_start_def Let_def buf_read_def buf_write_def bget_def
        DEMO_BUFLEN_def PACKETLEN_def)
  then show ?thesis using send rest by simp
qed

end
