(* ===== verification/Self_Tests_C.thy ===== *)
theory Self_Tests_C
  imports Chunk_C Debug_C
begin

text \<open>
  The test programs inside \<open>chunk.c\<close>, \<open>sha.c\<close> and \<open>debug.c\<close> (compiled with \<open>_TEST_CHUNK_C_\<close>, \<open>SHA1_TEST\<close>
  and \<open>_TEST_DEBUG_\<close>), as the text they print, and what they are to show.
\<close>

section \<open>The test of the debug options\<close>

text \<open>The table that \<open>debug-text.h\<close> lists, and the text \<open>set_debug\<close> prints for \<open>?\<close> and \<open>list\<close>.\<close>

definition debugs :: "(nat \<times> byte list) list" where
  "debugs = [(0, cstr ''No debugging''), (1, cstr ''Verbose error reporting''), (2, cstr ''Debug initialization''),
     (4, cstr ''Debug socket operations''), (8, cstr ''Debug processes (fork/reap/etc)''),
     (16, cstr ''Debug the spiffy sending code'')]"

definition pad5 :: "byte list \<Rightarrow> byte list" where
  "pad5 s = replicate (5 - length s) 32 @ s"

definition debug_list :: "byte list" where
  "debug_list = cstr ''Debug values and definitions'' @ [newline] @ cstr ''----------------------------'' @ [newline] @
     concat (map (\<lambda>(v, t). pad5 (dec v) @ [32, 32] @ t @ [newline]) debugs)"

definition set_debug_prints :: "byte list option \<Rightarrow> byte list" where
  "set_debug_prints arg =
     (case arg of
        Some (c # s) \<Rightarrow> if c = 63 \<or> c # s = cstr ''list'' then debug_list else []
      | _ \<Rightarrow> [])"

definition debug_test_main :: "u32 \<Rightarrow> byte list" where
  "debug_test_main dbg = set_debug_prints (Some [63]) @
     (if fst (set_debug (Some [63]) dbg) \<noteq> -1 then cstr ''set_debug('' @ [34, 63, 34] @ cstr '') returned wrong result code'' @ [newline]
      else [])"

lemma debug_test_passes: "debug_test_main dbg = debug_list"
  by (simp add: debug_test_main_def set_debug_def set_debug_prints_def)

section \<open>The test of the hexadecimal conversions\<close>

text \<open>The arrays are local: 20 bytes for each hash and 41 for the text.\<close>

definition chunk_test_main :: "machine \<Rightarrow> byte list res" where
  "chunk_test_main m =
     rbind (shahash m (cstr ''dash'' @ [0]) 4 (map (stack_byte m) [0..<SHA1_HASH_SIZE])) (\<lambda>hash.
     rbind (binary2hex hash SHA1_HASH_SIZE (map (stack_byte m) [0..<SHA1_HASH_SIZE * 2 + 1])) (\<lambda>ascii.
     if length (c_string ascii) \<noteq> 40 then Inl Assert_Failed
     else rbind (hex2binary ascii (length (c_string ascii)) (map (stack_byte m) [0..<SHA1_HASH_SIZE])) (\<lambda>hash1.
          rbind (binary2hex hash1 SHA1_HASH_SIZE ascii) (\<lambda>ascii'.
          Inr (c_string ascii @ [newline] @ c_string ascii' @ [newline])))))"

text \<open>The test prints the hash of \<open>dash\<close> twice, the second time read back from its text.\<close>

lemma chunk_test_prints:
  "chunk_test_main m = Inr (hex_string (sha1_spec (cstr ''dash'')) @ [newline] @
     hex_string (sha1_spec (cstr ''dash'')) @ [newline])"
proof -
  let ?h = "sha1_spec (cstr ''dash'')"
  have hash: "shahash m (cstr ''dash'' @ [0]) 4 (map (stack_byte m) [0..<SHA1_HASH_SIZE]) = Inr ?h"
    by (simp add: shahash_spec SHA1_HASH_SIZE_def cstr_def)
  have len: "length ?h = SHA1_HASH_SIZE" by (simp add: length_sha1_spec SHA1_HASH_SIZE_def)
  have enc: "binary2hex ?h SHA1_HASH_SIZE a = Inr (hex_string ?h @ [0])" if "length a = SHA1_HASH_SIZE * 2 + 1" for a
    using len that by (simp add: binary2hex_spec)
  have str: "c_string (hex_string ?h @ [0]) = hex_string ?h"
    by (rule c_string_no_nul) (rule nul_notin_hex_string)
  have l40: "length (hex_string ?h) = 40" using len by (simp add: SHA1_HASH_SIZE_def)
  have dec20: "hex2binary (hex_string ?h @ [0]) 40 (map (stack_byte m) [0..<SHA1_HASH_SIZE]) = Inr ?h"
    using hex2binary_spec [of 20 "hex_string ?h @ [0]" "map (stack_byte m) [0..<SHA1_HASH_SIZE]"] l40
    by (simp add: SHA1_HASH_SIZE_def unhex_hex_string)
  have again: "binary2hex ?h SHA1_HASH_SIZE (hex_string ?h @ [0]) = Inr (hex_string ?h @ [0])"
    using l40 by (intro enc) (simp add: SHA1_HASH_SIZE_def)
  show ?thesis using enc [of "map (stack_byte m) [0..<SHA1_HASH_SIZE * 2 + 1]"]
    by (simp add: chunk_test_main_def hash str length_sha1_spec dec20 again)
qed

section \<open>The test of SHA-1\<close>

text \<open>A hash as the test prints it: a blank behind every fourth byte.\<close>

definition print_hash :: "byte list \<Rightarrow> byte list" where
  "print_hash digest = concat (map (\<lambda>i. [hex_digit (drop_bit 4 (digest ! i)), hex_digit (digest ! i AND 15)] @
     (if Suc i mod 4 = 0 then [32] else [])) [0..<20]) @ [newline]"

fun repeat_update :: "nat \<Rightarrow> SHA1Context \<Rightarrow> byte list \<Rightarrow> u32 \<Rightarrow> SHA1Context res" where
  "repeat_update 0 sc buf len = Inr sc"
| "repeat_update (Suc k) sc buf len = rbind (SHA1Update sc buf len) (\<lambda>sc'. repeat_update k sc' buf len)"

definition sha_test_long :: string where
  "sha_test_long = ''abcdbcdecdefdefgefghfghighijhijkijkljklmklmnlmnomnopnopq''"

definition sha_test_main :: "machine \<Rightarrow> byte list res" where
  "sha_test_main m =
     rbind (SHA1Update (SHA1Init (local_context m)) (cstr ''abc'' @ [0]) 3) (\<lambda>foo.
     rbind (SHA1Final foo) (\<lambda>(foo1, hash1).
     rbind (SHA1Update (SHA1Init foo1) (cstr sha_test_long @ [0]) 56) (\<lambda>foo2.
     rbind (SHA1Final foo2) (\<lambda>(foo3, hash2).
     rbind (repeat_update 1000 (SHA1Init foo3) (replicate 1000 97) 1000) (\<lambda>foo4.
     rbind (SHA1Final foo4) (\<lambda>(foo5, hash3).
     Inr (print_hash hash1 @ print_hash hash2 @ print_hash hash3)))))))"

lemma SHA1Update_loop_buffer: "SHA1Update_loop k sc d len = Inr sc' \<Longrightarrow> length (buffer sc') = length (buffer sc)"
proof (induction k arbitrary: sc d len)
  case 0
  then show ?case by (auto simp: SHA1Update_loop.simps [of 0] split: if_splits)
next
  case (Suc k)
  show ?case
  proof (cases "len = 0")
    case True
    then show ?thesis using Suc.prems by (simp add: SHA1Update_loop.simps)
  next
    case False
    show ?thesis
      using Suc.prems unfolding SHA1Update_loop.simps [of "Suc k"] if_not_P [OF False] nat.case Let_def
      by (auto simp: rbind_Inr_iff SHA1Guts_def Let_def dest!: Suc.IH length_buf_write split: if_splits)
  qed
qed

lemma SHA1Final_buffer: "SHA1Final sc = Inr (sc', h) \<Longrightarrow> length (buffer sc') = length (buffer sc)"
  by (auto simp: SHA1Final_def SHA1Update_def Let_def rbind_Inr_iff dest!: SHA1Update_loop_buffer)

lemma digest_of:
  assumes "sha_rep sc msg"
  shows "\<exists>sc'. SHA1Final sc = Inr (sc', sha1_spec msg) \<and> length (buffer sc') = 64"
  using SHA1Final_rep [OF assms] SHA1Final_buffer [of sc] assms by (auto simp: ok_iff sha_rep_def)

lemma repeat_update_rep:
  "sha_rep sc xs \<Longrightarrow> unat len = length buf \<Longrightarrow>
   \<exists>sc'. repeat_update k sc buf len = Inr sc' \<and> sha_rep sc' (xs @ concat (replicate k buf))"
proof (induction k arbitrary: sc xs)
  case (Suc k)
  obtain sc1 where sc1: "SHA1Update sc buf len = Inr sc1" "sha_rep sc1 (xs @ buf)"
    using SHA1Update_rep [OF Suc.prems(1), of len buf] Suc.prems(2) by (auto simp: ok_iff)
  from Suc.IH [OF sc1(2) Suc.prems(2)] sc1(1) show ?case by simp
qed auto

text \<open>The test prints the digests of its three messages.\<close>

lemma sha_test_prints:
  "sha_test_main m = Inr (print_hash (sha1_spec (cstr ''abc'')) @ print_hash (sha1_spec (cstr sha_test_long)) @
     print_hash (sha1_spec (concat (replicate 1000 (replicate 1000 97)))))"
proof -
  have "length (buffer (local_context m)) = 64" by (simp add: local_context_def)
  from SHA1Update_rep [OF sha_rep_init [OF this], of 3 "cstr ''abc'' @ [0]"] obtain f where
    f: "SHA1Update (SHA1Init (local_context m)) (cstr ''abc'' @ [0]) 3 = Inr f" "sha_rep f (cstr ''abc'')"
    by (auto simp: ok_iff cstr_def)
  obtain f1 where f1: "SHA1Final f = Inr (f1, sha1_spec (cstr ''abc''))" "length (buffer f1) = 64"
    using digest_of [OF f(2)] by blast
  have long: "length (cstr sha_test_long) = 56" by (simp add: cstr_def sha_test_long_def)
  obtain f2 where f2: "SHA1Update (SHA1Init f1) (cstr sha_test_long @ [0]) 56 = Inr f2" "sha_rep f2 (cstr sha_test_long)"
    using SHA1Update_rep [OF sha_rep_init [OF f1(2)], of 56 "cstr sha_test_long @ [0]"] long by (auto simp: ok_iff)
  obtain f3 where f3: "SHA1Final f2 = Inr (f3, sha1_spec (cstr sha_test_long))" "length (buffer f3) = 64"
    using digest_of [OF f2(2)] by blast
  obtain f4 where f4: "repeat_update 1000 (SHA1Init f3) (replicate 1000 97) 1000 = Inr f4"
      "sha_rep f4 (concat (replicate 1000 (replicate 1000 97)))"
    using repeat_update_rep [OF sha_rep_init [OF f3(2)], of 1000 "replicate 1000 97" 1000] by auto
  obtain f5 where f5: "SHA1Final f4 = Inr (f5, sha1_spec (concat (replicate 1000 (replicate 1000 97))))"
    using digest_of [OF f4(2)] by blast
  show ?thesis unfolding sha_test_main_def f(1) rbind_simps f1(1) prod.case f2(1) f3(1) f4(1) f5 ..
qed

end
