(* ===== verification/Spec2Isabelle.thy ===== *)
theory Spec2Isabelle
  imports Make_Chunks_C Sha_Variants Whole_File Debug_C No_Divergence Demo_Programs_C Self_Tests_C
begin

text \<open>
  Verification of a BitTorrent-like file transfer application written in C (the sources are in
  \<open>src/Starter Code/starter_code\<close>; file names below are relative to it).

  \<^bold>\<open>The program.\<close> A peer reads a list of peers and of the chunks (512 KiB blocks, named by their SHA-1) it has.
  On the command \<open>GET\<close> it asks all peers for the chunks of a list (WHOHAS), collects who has them (IHAVE), asks
  one holder per chunk (GET), and receives the chunk as 375 numbered DATA packets that it acknowledges one by
  one (ACK); it checks the hash and, when all chunks are there, writes the file. The other side answers
  WHOHAS and GET, and sends with a sliding window, slow start, congestion avoidance, fast retransmit and a
  timer. A main loop (\<open>peer.c\<close>) handles datagrams and lines typed; a thread per sender, a thread per running
  timer and a receiver thread share the globals of \<open>handler.c\<close> with it.

  \<^bold>\<open>The model.\<close> The state of a peer is the record \<open>handler\<close> (the globals of \<open>handler.c\<close>, with the heaps the
  pointers refer to, the files and the datagrams sent), inside \<open>peer_node\<close> (with the network layer, the user's
  buffer and whether the main loop runs). Functions of the source are functions of the same name from state to
  \<open>fault + state\<close>: a NULL, dangling or twice freed pointer, an access outside a buffer, an uninitialised
  variable, a signed overflow, a failed assertion and \<open>exit\<close> are values of type \<open>fault\<close>, never unspecified. Machine
  integers are words of their width, the window is a binary32 number with every operation rounded
  (\<open>Float_C\<close>), buffers are byte lists whose length is their capacity, strings are bytes up to a NUL. Objects that
  several owners share (chunks, peers, senders, receivers) live in heaps; queues own their nodes. Handlers,
  rounds of a thread's loop and the two halves of a timer are atomic steps; \<open>peer_event\<close> is one step of
  one thread and \<open>reachable\<close> the states of a run with any interleaving. Two peers with a network that loses,
  repeats and delays datagrams are \<open>transfer_step\<close> in \<open>Chunk_Transfer\<close>.

  \<^bold>\<open>Theories and sources.\<close>
  \<^item> \<open>Prelude_C\<close>: machine types, faults, heaps, buffers, the calculus \<open>ok\<close> of calls that return; \<open>Total_Calls\<close>: the
    calculus \<open>ends\<close> of calls that do not run for ever; \<open>Stdio_C\<close>: what the sources use of libc.
  \<^item> \<open>Queue_C\<close> (\<open>queue.c\<close>): the linked queue, the contract \<open>fifo\<close> and \<open>fifo_iter\<close> that its clients rely on, and the
    refinement of lists.
  \<^item> \<open>Packet_C\<close> (\<open>packet.c\<close>): headers, constructors, byte order, the bytes on the wire.
  \<^item> \<open>Sha_C\<close>, \<open>Sha_Correct\<close> (\<open>sha.c\<close>): the streaming implementation against the standard; \<open>Chunk_C\<close> (\<open>chunk.c\<close>):
    hashing of chunks and hexadecimal text; \<open>Sha_Variants\<close>: the same file in every build the preprocessor can
    select (\<open>SHA1_UNROLL\<close>, \<open>SHA1_FAST_COPY\<close>, \<open>WORDS_BIGENDIAN\<close>, \<open>RUNTIME_ENDIAN\<close>), with \<open>burnStack\<close>;
    \<open>Make_Chunks_C\<close> (\<open>make_chunks.c\<close>): the tool that writes chunk lists; \<open>Self_Tests_C\<close>: the test mains of \<open>chunk.c\<close>, \<open>sha.c\<close> and \<open>debug.c\<close>.
  \<^item> \<open>Debug_C\<close> (\<open>debug.c\<close>), \<open>Bt_Parse_C\<close> (\<open>bt_parse.c\<close>): debug mask, command line, peer list.
  \<^item> \<open>Tracker_C\<close> (\<open>tracker.c\<close>, definitions and the download queue), \<open>Tracker_Packets\<close> (hash lists in packets),
    \<open>Tracker_Files\<close> (chunk lists and data in files).
  \<^item> \<open>Rcv_Send_C\<close> (\<open>rcv_send.c\<close>): pools of senders and receivers, the window, timers; the contract \<open>worker_pool\<close> of the
    two kinds of pools.
  \<^item> \<open>Handler_C\<close>, \<open>Download_C\<close> (\<open>handler.c\<close>): the handlers and the threads; \<open>Ack_Window\<close>, \<open>Handler_Answers\<close>,
    \<open>Data_Receipt\<close>, \<open>Announcing\<close>, \<open>Session_Start\<close>, \<open>File_Output\<close>: what each of them does, on every branch.
  \<^item> \<open>Spiffy_C\<close> (\<open>spiffy.c\<close>): the layer that talks to the network simulator; \<open>Input_Buffer_C\<close> (\<open>input_buffer.c\<close>):
    lines typed; \<open>Peer_C\<close> (\<open>peer.c\<close>): main function, main loop, the program as a whole; \<open>Demo_Programs_C\<close>:
    \<open>client.c\<close>, \<open>server.c\<close> and \<open>test_input_buffer.c\<close>.
  \<^item> \<open>Chunk_Transfer\<close>, \<open>Transfer_Run\<close>: two peers and the network in one session; \<open>Discovery\<close>: the command, the WHOHAS
    and the IHAVE put together; \<open>Whole_File\<close>: from the command to the end of a download of up to 73 chunks;
    \<open>Sender_Invariant\<close>, \<open>No_Divergence\<close>: invariants of all
    reachable states of the program.

  \<^bold>\<open>What is proved.\<close> Data arrives whole: under loss, repetition, delay and any scheduling
  the receiver holds a prefix of the chunk and no packet is believed acknowledged that did not arrive
  (\<open>Chunk_Transfer\<close>); there is a run that completes every transfer (\<open>Transfer_Run\<close>),
  and the steps from the choice of a chunk to its verified arrival compose (\<open>Session_Start\<close>).
  Asking for chunks finds exactly their holders (\<open>Discovery\<close>), and a file of up to 73 chunks is
  fetched from a peer that has it, from the command on, by a run of both programs on a network that delivers
  what they send (\<open>Whole_File\<close>); each session is shown to leave all it does not concern as it was,
  so that the sessions compose. What the program does with the chunks then is part of the statement: a file of
  one chunk is written, a longer one ends in a double free. In every reachable state senders, windows, timers
  and threads are well formed, the data structures keep their shapes, and every step ends (the loops around the
  steps, the main loop and those of the threads, are outside this claim). Each handler is specified on every
  branch, with the exact packets it sends. SHA-1 in all its builds, packet formats, lists in files, hexadecimal
  text and the network layer are shown equal to their specifications or to invert each other. Where the code
  does not do what it should, the theorem states what it does: hashes that are not announced or asked for,
  buffers that are too small, objects freed twice or never, stale text in the input buffer that comes back as a
  line, a timer that fires after it was stopped, a thread that never ends.

  \<^bold>\<open>Bounds and fuel.\<close> Loops over linked lists run with the number of objects ever allocated as fuel: more rounds
  would meet an object twice. Loops that empty a queue have its length, the loop over the lines typed the length of the
  buffer, the loops of the hash one round more than bytes. \<open>No_Divergence\<close> shows that \<open>Diverges\<close>, the value
  for fuel used up, is never the result of a step the program can make. A chunk has 375 packets, so
  sequence numbers stay below 375 and the window below \<open>2 ^ 24\<close>, where floats are exact on integers.

  \<^bold>\<open>Parameters.\<close> \<open>machine\<close> collects what ISO C leaves open and a run still decides: old contents of stack and heap
  blocks, bytes behind a string literal, and how much an overrun may touch without harm (0 in ISO C).
  \<open>environment\<close> supplies files, options, \<open>gethostbyname\<close>, \<open>inet_aton\<close>, \<open>getenv\<close>, the results of \<open>socket\<close> and \<open>bind\<close>, and
  whether \<open>TESTING\<close> is defined. Datagrams, lines and the results of \<open>select\<close> are inputs of the steps. \<open>malloc\<close> and
  \<open>pthread_create\<close> succeed.

  \<^bold>\<open>Not modelled.\<close> Text written to the screen by the running peer, times in the log, the usage and help texts,
  data races inside a handler (handlers are atomic), prototypes and include guards, and the simulator and test scripts, which are Perl, Ruby and
  shell around the program.
\<close>

end
